(* ===== verification/Prelude.thy ===== *)
theory Prelude
  imports Complex_Main "HOL-Library.Word" "HOL-Library.Char_ord" "HOL-Library.List_Lexorder"
    "HOL-Library.Product_Lexorder"
begin

text \<open>
  Shared vocabulary of the development: the Go types the program uses (byte strings,
  sized integers), the result type of fallible calls, the lemma collections, and the
  generic facts on lists and maps that several components use.
\<close>

section \<open>Go types\<close>

text \<open>
  A Go string is an immutable byte sequence, which is what \<^typ>\<open>string\<close> is here (a
  \<^typ>\<open>char\<close> is one byte); its order (\<open><\<close> on strings) is bytewise lexicographic.
  \<^verbatim>\<open>[]byte\<close> is a list of bytes. Instants are microseconds since the Unix epoch (the
  resolution of \<^verbatim>\<open>TIMESTAMPTZ\<close>); durations in Go code are nanoseconds.
\<close>

type_synonym bytes = "8 word list"
type_synonym int16 = "16 word"
type_synonym int32 = "32 word"
type_synonym int64 = "64 word"
type_synonym instant = int
type_synonym duration = int

text \<open>The result of a Go function that returns a value and an error: \<open>Inl\<close> is the error.\<close>

type_synonym ('e, 'a) result = "'e + 'a"

named_theorems ledger_simps "facts about the append-only ledger tables"
named_theorems float_simps "facts about binary64 arithmetic"
named_theorems rank_simps "facts about ranked lists"

section \<open>Lists\<close>

text \<open>First element satisfying a predicate is \<^const>\<open>List.find\<close>; here is the loop that keeps, per
  key, the number of occurrences.\<close>

fun count_by :: "('a \<Rightarrow> bool) \<Rightarrow> 'a list \<Rightarrow> nat" where
  "count_by P [] = 0"
| "count_by P (x # xs) = (if P x then Suc (count_by P xs) else count_by P xs)"

lemma count_by_length_filter: "count_by P xs = length (filter P xs)"
  by (induction xs) auto

lemma count_by_append [simp]: "count_by P (xs @ ys) = count_by P xs + count_by P ys"
  by (induction xs) auto

lemma count_by_split: "count_by P xs + count_by (\<lambda>x. \<not> P x) xs = length xs"
  by (induction xs) auto

lemma count_by_pos: "0 < count_by P xs \<longleftrightarrow> (\<exists>x\<in>set xs. P x)"
  by (induction xs) auto

lemma count_by_le_length: "count_by P xs \<le> length xs"
  by (induction xs) auto

text \<open>A list extends another when it only appends to it.\<close>

definition extends :: "'a list \<Rightarrow> 'a list \<Rightarrow> bool" where
  "extends xs ys \<longleftrightarrow> take (length xs) ys = xs"

lemma extends_refl [simp, intro]: "extends xs xs"
  by (simp add: extends_def)

lemma extends_append [simp, intro]: "extends xs (xs @ ys)"
  by (simp add: extends_def)

lemma extends_iff: "extends xs ys \<longleftrightarrow> (\<exists>zs. ys = xs @ zs)"
  unfolding extends_def by (metis append_eq_conv_conj append_take_drop_id)

lemma extends_trans: "extends xs ys \<Longrightarrow> extends ys zs \<Longrightarrow> extends xs zs"
  by (auto simp: extends_iff)

lemma extends_set: "extends xs ys \<Longrightarrow> set xs \<subseteq> set ys"
  by (auto simp: extends_iff)

text \<open>Pages of a list, the way a \<open>for start := 0; start < len; start += size\<close> loop cuts it.\<close>

function pages :: "nat \<Rightarrow> 'a list \<Rightarrow> 'a list list" where
  "pages n xs = (if xs = [] \<or> n = 0 then [] else take n xs # pages n (drop n xs))"
  by pat_completeness auto
termination
  by (relation "measure (\<lambda>(n, xs). length xs)") auto

declare pages.simps [simp del]

lemma pages_Nil [simp]: "pages n [] = []"
  by (subst pages.simps) simp

lemma concat_pages: "0 < n \<Longrightarrow> concat (pages n xs) = xs"
proof (induction n xs rule: pages.induct)
  case (1 n xs)
  then show ?case by (subst pages.simps) auto
qed

lemma pages_sizes: "p \<in> set (pages n xs) \<Longrightarrow> p \<noteq> [] \<and> length p \<le> n"
proof (induction n xs rule: pages.induct)
  case (1 n xs)
  then show ?case by (subst (asm) (2) pages.simps) (auto split: if_splits)
qed

lemma length_pages: "0 < n \<Longrightarrow> length xs \<le> n * k \<Longrightarrow> length (pages n xs) \<le> k"
proof (induction n xs arbitrary: k rule: pages.induct)
  case (1 n xs)
  show ?case
  proof (cases "xs = []")
    case False
    with 1(3) 1(2) obtain j where k: "k = Suc j" by (cases k) auto
    have "length (drop n xs) \<le> n * j" using 1(3) k by auto
    with 1 False have "length (pages n (drop n xs)) \<le> j" by auto
    then show ?thesis using False 1(2) k by (subst pages.simps) auto
  qed simp
qed

end
