(* ===== verification/Store.thy ===== *)
theory Store
  imports Prelude
begin

text \<open>
  The append-only Postgres ledger (\<^verbatim>\<open>internal/store\<close>, over the schema of \<^verbatim>\<open>migrations/\<close>):
  the tables \<^verbatim>\<open>memories\<close> and \<^verbatim>\<open>memory_enrichment_events\<close> as lists of rows in insertion
  order, one definition per store function, each the SQL statement it sends with the
  constraints of the schema, and the derived state (pending, dead-lettered, progress,
  version-pinned fetch). \<open>now\<close> is the statement's \<^verbatim>\<open>now()\<close>.
\<close>

section \<open>Rows and tables\<close>

record Memory =
  mConversationID :: string
  mSessionID :: string
  mTurnID :: string
  mS3Bucket :: string
  mS3Key :: string
  mByteSize :: int32
  mContentHash :: bytes

record memory_row =
  mr_id :: int
  mr_conversation_id :: string
  mr_session_id :: string
  mr_turn_id :: "string option"
  mr_s3_bucket :: string
  mr_s3_key :: string
  mr_byte_size :: int32
  mr_content_hash :: bytes
  mr_created_at :: instant

datatype status = Done | Failed

record event_row =
  ev_id :: int
  ev_memory_id :: int
  ev_version :: int16
  ev_attempt :: int
  ev_status :: status
  ev_permanent :: bool
  ev_error_message :: "string option"
  ev_normalized_text :: "string option"
  ev_lexemes :: "string list option"
  ev_ts :: "instant option"
  ev_embedding :: "bytes option"
  ev_created_at :: instant

record DoneEvent =
  dMemoryID :: int
  dVersion :: int16
  dAttempt :: int
  dNormalizedText :: string
  dLexemes :: "string list"
  dTS :: "instant option"
  dEmbedding :: bytes

record FailedEvent =
  fMemoryID :: int
  fVersion :: int16
  fAttempt :: int
  fPermanent :: bool
  fErrorMessage :: string
  fCreatedAt :: "instant option"

text \<open>The identity columns draw from a sequence, which a rejected insert advances too.\<close>

record ledger =
  memories :: "memory_row list"
  mem_seq :: int
  events :: "event_row list"
  ev_seq :: int

definition empty_ledger :: ledger where
  "empty_ledger = \<lparr>memories = [], mem_seq = 1, events = [], ev_seq = 1\<rparr>"

datatype pg_error =
    UniqueViolation       \<comment> \<open>SQLSTATE 23505\<close>
  | ForeignKeyViolation   \<comment> \<open>SQLSTATE 23503\<close>
  | NegativeLimit         \<comment> \<open>SQLSTATE 2201W\<close>
  | ScanNull              \<comment> \<open>a NULL scanned into a non-pointer\<close>
  | Unavailable           \<comment> \<open>the connection failed\<close>

section \<open>Inserting memories\<close>

definition nullif_empty :: "string \<Rightarrow> string option" where
  "nullif_empty s = (if s = [] then None else Some s)"

text \<open>\<^verbatim>\<open>UNIQUE (conversation_id, session_id, turn_id)\<close>: a NULL equals nothing, not even another NULL.\<close>

definition key_conflict :: "Memory \<Rightarrow> memory_row \<Rightarrow> bool" where
  "key_conflict m r \<longleftrightarrow>
     mr_conversation_id r = mConversationID m \<and> mr_session_id r = mSessionID m \<and>
     mr_turn_id r \<noteq> None \<and> mr_turn_id r = nullif_empty (mTurnID m)"

definition memory_row_of :: "int \<Rightarrow> instant \<Rightarrow> Memory \<Rightarrow> memory_row" where
  "memory_row_of i now m =
     \<lparr>mr_id = i, mr_conversation_id = mConversationID m, mr_session_id = mSessionID m,
      mr_turn_id = nullif_empty (mTurnID m), mr_s3_bucket = mS3Bucket m, mr_s3_key = mS3Key m,
      mr_byte_size = mByteSize m, mr_content_hash = mContentHash m, mr_created_at = now\<rparr>"

definition InsertMemory :: "instant \<Rightarrow> Memory \<Rightarrow> ledger \<Rightarrow> (pg_error, int) result \<times> ledger" where
  "InsertMemory now m db =
     (if list_ex (key_conflict m) (memories db)
      then (Inl UniqueViolation, db\<lparr>mem_seq := mem_seq db + 1\<rparr>)
      else (Inr (mem_seq db),
            db\<lparr>memories := memories db @ [memory_row_of (mem_seq db) now m],
               mem_seq := mem_seq db + 1\<rparr>))"

text \<open>\<^verbatim>\<open>COPY\<close> is one statement: the first conflict rejects every row of it.\<close>

fun copy_rows :: "instant \<Rightarrow> Memory list \<Rightarrow> int \<Rightarrow> ledger \<Rightarrow> (pg_error, int) result \<times> ledger" where
  "copy_rows now [] n db = (Inr n, db)"
| "copy_rows now (m # ms) n db =
     (case InsertMemory now m db of
        (Inl e, db') \<Rightarrow> (Inl e, db')
      | (Inr _, db') \<Rightarrow> copy_rows now ms (n + 1) db')"

definition CopyMemories :: "instant \<Rightarrow> Memory list \<Rightarrow> ledger \<Rightarrow> (pg_error, int) result \<times> ledger" where
  "CopyMemories now ms db =
     (case copy_rows now ms 0 db of
        (Inl e, db') \<Rightarrow> (Inl e, db\<lparr>mem_seq := mem_seq db'\<rparr>)
      | (Inr n, db') \<Rightarrow> (Inr n, db'))"

section \<open>Inserting enrichment events\<close>

definition has_done :: "int16 \<Rightarrow> ledger \<Rightarrow> int \<Rightarrow> bool" where
  "has_done v db mid \<longleftrightarrow>
     list_ex (\<lambda>e. ev_memory_id e = mid \<and> ev_version e = v \<and> ev_status e = Done) (events db)"

definition has_memory :: "ledger \<Rightarrow> int \<Rightarrow> bool" where
  "has_memory db mid \<longleftrightarrow> list_ex (\<lambda>r. mr_id r = mid) (memories db)"

definition done_row :: "int \<Rightarrow> instant \<Rightarrow> DoneEvent \<Rightarrow> event_row" where
  "done_row i now e =
     \<lparr>ev_id = i, ev_memory_id = dMemoryID e, ev_version = dVersion e, ev_attempt = dAttempt e,
      ev_status = Done, ev_permanent = False, ev_error_message = None,
      ev_normalized_text = Some (dNormalizedText e), ev_lexemes = Some (dLexemes e),
      ev_ts = dTS e, ev_embedding = Some (dEmbedding e), ev_created_at = now\<rparr>"

definition failed_row :: "int \<Rightarrow> instant \<Rightarrow> FailedEvent \<Rightarrow> event_row" where
  "failed_row i now e =
     \<lparr>ev_id = i, ev_memory_id = fMemoryID e, ev_version = fVersion e, ev_attempt = fAttempt e,
      ev_status = Failed, ev_permanent = fPermanent e, ev_error_message = Some (fErrorMessage e),
      ev_normalized_text = None, ev_lexemes = None, ev_ts = None, ev_embedding = None,
      ev_created_at = (case fCreatedAt e of None \<Rightarrow> now | Some t \<Rightarrow> t)\<rparr>"

text \<open>\<^verbatim>\<open>ON CONFLICT (memory_id, enrichment_version) WHERE status='done' DO NOTHING\<close>.\<close>

definition InsertEnrichmentDone :: "instant \<Rightarrow> DoneEvent \<Rightarrow> ledger \<Rightarrow> (pg_error, unit) result \<times> ledger" where
  "InsertEnrichmentDone now e db =
     (if has_done (dVersion e) db (dMemoryID e) then (Inr (), db\<lparr>ev_seq := ev_seq db + 1\<rparr>)
      else if \<not> has_memory db (dMemoryID e) then
        (Inl ForeignKeyViolation, db\<lparr>ev_seq := ev_seq db + 1\<rparr>)
      else (Inr (), db\<lparr>events := events db @ [done_row (ev_seq db) now e],
                       ev_seq := ev_seq db + 1\<rparr>))"

definition InsertEnrichmentFailed :: "instant \<Rightarrow> FailedEvent \<Rightarrow> ledger \<Rightarrow> (pg_error, unit) result \<times> ledger" where
  "InsertEnrichmentFailed now e db =
     (if \<not> has_memory db (fMemoryID e) then
        (Inl ForeignKeyViolation, db\<lparr>ev_seq := ev_seq db + 1\<rparr>)
      else (Inr (), db\<lparr>events := events db @ [failed_row (ev_seq db) now e],
                       ev_seq := ev_seq db + 1\<rparr>))"

section \<open>Pending\<close>

definition fail_rows :: "int16 \<Rightarrow> ledger \<Rightarrow> int \<Rightarrow> event_row list" where
  "fail_rows v db mid =
     filter (\<lambda>e. ev_version e = v \<and> ev_status e = Failed \<and> ev_memory_id e = mid) (events db)"

text \<open>\<^verbatim>\<open>(array_agg(created_at ORDER BY attempt DESC, id DESC))[1]\<close>: the row with the highest attempt number, the
  latest of them.\<close>

fun latest_failure :: "event_row list \<Rightarrow> event_row option" where
  "latest_failure [] = None"
| "latest_failure (e # es) =
     (case latest_failure es of
        None \<Rightarrow> Some e
      | Some f \<Rightarrow> if (ev_attempt e, ev_id e) < (ev_attempt f, ev_id f) then Some f else Some e)"

record fail_agg =
  n_fail :: nat
  last_fail :: instant
  has_permanent :: bool

definition fail_cte :: "int16 \<Rightarrow> ledger \<Rightarrow> int \<Rightarrow> fail_agg option" where
  "fail_cte v db mid =
     (let fs = fail_rows v db mid in
      map_option (\<lambda>e. \<lparr>n_fail = length fs, last_fail = ev_created_at e,
                       has_permanent = list_ex ev_permanent fs\<rparr>) (latest_failure fs))"

text \<open>The retry policy: the attempt budget and the backoff base in microseconds.\<close>

definition pending_core :: "instant \<Rightarrow> int16 \<Rightarrow> int \<Rightarrow> int \<Rightarrow> ledger \<Rightarrow> int \<Rightarrow> bool" where
  "pending_core now v max_attempts base db mid \<longleftrightarrow>
     \<not> has_done v db mid \<and>
     (case fail_cte v db mid of
        None \<Rightarrow> 0 < max_attempts
      | Some f \<Rightarrow> \<not> has_permanent f \<and> int (n_fail f) < max_attempts \<and>
                  last_fail f < now - base * 2 ^ min (n_fail f) 6)"

text \<open>\<^verbatim>\<open>Duration.Microseconds\<close> truncates towards zero.\<close>

definition pgInterval :: "duration \<Rightarrow> int" where
  "pgInterval d = sgn d * (\<bar>d\<bar> div 1000)"

definition pending_set :: "instant \<Rightarrow> int16 \<Rightarrow> int \<Rightarrow> duration \<Rightarrow> ledger \<Rightarrow> int list" where
  "pending_set now v max_attempts backoff_base db =
     filter (pending_core now v max_attempts (pgInterval backoff_base) db) (map mr_id (memories db))"

definition PendingMemoryIDs ::
  "instant \<Rightarrow> int16 \<Rightarrow> int \<Rightarrow> duration \<Rightarrow> int \<Rightarrow> ledger \<Rightarrow> (pg_error, int list) result" where
  "PendingMemoryIDs now v max_attempts backoff_base limit db =
     (if limit < 0 then Inl NegativeLimit
      else Inr (take (nat limit) (sort (pending_set now v max_attempts backoff_base db))))"

definition CountPending :: "instant \<Rightarrow> int16 \<Rightarrow> int \<Rightarrow> duration \<Rightarrow> ledger \<Rightarrow> (pg_error, int) result" where
  "CountPending now v max_attempts backoff_base db =
     Inr (int (length (pending_set now v max_attempts backoff_base db)))"

definition IsPending :: "instant \<Rightarrow> int \<Rightarrow> int16 \<Rightarrow> int \<Rightarrow> duration \<Rightarrow> ledger \<Rightarrow> (pg_error, bool) result" where
  "IsPending now mid v max_attempts backoff_base db =
     Inr (list_ex (\<lambda>i. i = mid) (pending_set now v max_attempts backoff_base db))"

section \<open>Dead letters, progress and fetch\<close>

definition has_permanent_failure :: "int16 \<Rightarrow> ledger \<Rightarrow> int \<Rightarrow> bool" where
  "has_permanent_failure v db mid \<longleftrightarrow> list_ex ev_permanent (fail_rows v db mid)"

definition dead_letter :: "int16 \<Rightarrow> int \<Rightarrow> ledger \<Rightarrow> int list" where
  "dead_letter v max_attempts db =
     filter (\<lambda>mid. \<not> has_done v db mid \<and>
                   (has_permanent_failure v db mid \<or>
                    max_attempts \<le> int (length (fail_rows v db mid))))
       (map mr_id (memories db))"

definition DeadLetterIDs :: "int16 \<Rightarrow> int \<Rightarrow> ledger \<Rightarrow> (pg_error, int list) result" where
  "DeadLetterIDs v max_attempts db = Inr (sort (dead_letter v max_attempts db))"

definition IsDead :: "int \<Rightarrow> int16 \<Rightarrow> int \<Rightarrow> ledger \<Rightarrow> (pg_error, bool) result" where
  "IsDead mid v max_attempts db = Inr (list_ex (\<lambda>i. i = mid) (dead_letter v max_attempts db))"

record Progress =
  pTotal :: nat
  pDone :: nat
  pRemaining :: nat
  pDead :: nat

text \<open>\<^verbatim>\<open>enrichment_progress\<close> and, with every row selected, the server's \<^verbatim>\<open>globalProgressSQL\<close>.\<close>

definition progress_of :: "int16 \<Rightarrow> ledger \<Rightarrow> memory_row list \<Rightarrow> Progress" where
  "progress_of v db rs =
     \<lparr>pTotal = length rs,
      pDone = count_by (\<lambda>r. has_done v db (mr_id r)) rs,
      pRemaining = count_by (\<lambda>r. \<not> has_done v db (mr_id r)) rs,
      pDead = count_by (\<lambda>r. has_permanent_failure v db (mr_id r)) rs\<rparr>"

definition GetProgress :: "string \<Rightarrow> int16 \<Rightarrow> ledger \<Rightarrow> (pg_error, Progress) result" where
  "GetProgress conv v db =
     Inr (progress_of v db (filter (\<lambda>r. mr_conversation_id r = conv) (memories db)))"

record EnrichedMemory =
  emMemoryID :: int
  emNormalizedText :: string
  emLexemes :: "string list"
  emTS :: "instant option"
  emEmbedding :: bytes
  emContentHash :: bytes
  emS3Key :: string

definition enriched_of :: "event_row \<times> memory_row \<Rightarrow> (pg_error, EnrichedMemory) result" where
  "enriched_of p = (case p of (e, m) \<Rightarrow>
     (case ev_normalized_text e of
        None \<Rightarrow> Inl ScanNull
      | Some txt \<Rightarrow>
          Inr \<lparr>emMemoryID = ev_memory_id e, emNormalizedText = txt,
               emLexemes = (case ev_lexemes e of None \<Rightarrow> [] | Some l \<Rightarrow> l), emTS = ev_ts e,
               emEmbedding = (case ev_embedding e of None \<Rightarrow> [] | Some b \<Rightarrow> b),
               emContentHash = mr_content_hash m, emS3Key = mr_s3_key m\<rparr>))"

fun scan_rows :: "(event_row \<times> memory_row) list \<Rightarrow> (pg_error, EnrichedMemory list) result" where
  "scan_rows [] = Inr []"
| "scan_rows (p # ps) =
     (case enriched_of p of
        Inl err \<Rightarrow> Inl err
      | Inr em \<Rightarrow> (case scan_rows ps of Inl err \<Rightarrow> Inl err | Inr ems \<Rightarrow> Inr (em # ems)))"

definition at_version :: "string \<Rightarrow> int16 \<Rightarrow> ledger \<Rightarrow> (event_row \<times> memory_row) list" where
  "at_version conv v db =
     sort_key (\<lambda>p. ev_memory_id (fst p))
       (filter (\<lambda>p. mr_id (snd p) = ev_memory_id (fst p) \<and>
                    mr_conversation_id (snd p) = conv \<and> ev_version (fst p) = v \<and>
                    ev_status (fst p) = Done)
          (List.product (events db) (memories db)))"

definition FetchAtVersion :: "string \<Rightarrow> int16 \<Rightarrow> ledger \<Rightarrow> (pg_error, EnrichedMemory list) result" where
  "FetchAtVersion conv v db = scan_rows (at_version conv v db)"


section \<open>The ledger invariant\<close>

definition natural_key :: "memory_row \<Rightarrow> string \<times> string \<times> string option" where
  "natural_key r = (mr_conversation_id r, mr_session_id r, mr_turn_id r)"

definition row_shape :: "event_row \<Rightarrow> bool" where
  "row_shape e \<longleftrightarrow>
     (case ev_status e of
        Done \<Rightarrow> \<not> ev_permanent e \<and> ev_error_message e = None \<and> ev_normalized_text e \<noteq> None \<and>
                ev_lexemes e \<noteq> None \<and> ev_embedding e \<noteq> None
      | Failed \<Rightarrow> ev_error_message e \<noteq> None \<and> ev_normalized_text e = None \<and>
                ev_lexemes e = None \<and> ev_ts e = None \<and> ev_embedding e = None)"

definition memories_ok :: "ledger \<Rightarrow> bool" where
  "memories_ok db \<longleftrightarrow>
     sorted_wrt (<) (map mr_id (memories db)) \<and>
     (\<forall>r\<in>set (memories db). mr_id r < mem_seq db) \<and>
     distinct (map natural_key (filter (\<lambda>r. mr_turn_id r \<noteq> None) (memories db)))"

definition events_ok :: "ledger \<Rightarrow> bool" where
  "events_ok db \<longleftrightarrow>
     sorted_wrt (<) (map ev_id (events db)) \<and>
     (\<forall>e\<in>set (events db). ev_id e < ev_seq db \<and> has_memory db (ev_memory_id e) \<and> row_shape e) \<and>
     distinct (map (\<lambda>e. (ev_memory_id e, ev_version e)) (filter (\<lambda>e. ev_status e = Done) (events db)))"

definition ledger_ok :: "ledger \<Rightarrow> bool" where
  "ledger_ok db \<longleftrightarrow> memories_ok db \<and> events_ok db"

text \<open>What any interleaving of the store's writers can do to the ledger.\<close>

inductive ledger_step :: "ledger \<Rightarrow> ledger \<Rightarrow> bool" where
  insert_memory: "InsertMemory now m db = (res, db') \<Longrightarrow> ledger_step db db'"
| copy_memories: "CopyMemories now ms db = (res, db') \<Longrightarrow> ledger_step db db'"
| insert_done: "InsertEnrichmentDone now d db = (res', db') \<Longrightarrow> ledger_step db db'"
| insert_failed: "InsertEnrichmentFailed now f db = (res', db') \<Longrightarrow> ledger_step db db'"

inductive_cases ledger_stepE: "ledger_step db db'"

abbreviation ledger_steps :: "ledger \<Rightarrow> ledger \<Rightarrow> bool" where
  "ledger_steps \<equiv> ledger_step\<^sup>*\<^sup>*"

lemmas insert_defs = InsertMemory_def InsertEnrichmentDone_def InsertEnrichmentFailed_def

lemma row_fields [ledger_simps]:
  "mr_id (memory_row_of i now m) = i"
  "mr_turn_id (memory_row_of i now m) = nullif_empty (mTurnID m)"
  "natural_key (memory_row_of i now m) =
     (mConversationID m, mSessionID m, nullif_empty (mTurnID m))"
  "ev_id (done_row i now d) = i" "ev_memory_id (done_row i now d) = dMemoryID d"
  "ev_version (done_row i now d) = dVersion d" "ev_status (done_row i now d) = Done"
  "ev_id (failed_row i now f) = i" "ev_memory_id (failed_row i now f) = fMemoryID f"
  "ev_version (failed_row i now f) = fVersion f" "ev_status (failed_row i now f) = Failed"
  "ev_permanent (failed_row i now f) = fPermanent f"
  "row_shape (done_row i now d)" "row_shape (failed_row i now f)"
  by (simp_all add: memory_row_of_def natural_key_def done_row_def failed_row_def row_shape_def)

lemma has_memory_append [ledger_simps]:
  "has_memory (db\<lparr>memories := memories db @ rs, mem_seq := n\<rparr>) mid \<longleftrightarrow>
     has_memory db mid \<or> mid \<in> mr_id ` set rs"
  by (auto simp: has_memory_def list_ex_iff)

lemma has_memory_iff: "has_memory db mid \<longleftrightarrow> mid \<in> mr_id ` set (memories db)"
  by (auto simp: has_memory_def list_ex_iff)

lemma has_done_iff:
  "has_done v db mid \<longleftrightarrow> (mid, v) \<in> (\<lambda>e. (ev_memory_id e, ev_version e)) `
     set (filter (\<lambda>e. ev_status e = Done) (events db))"
  by (auto simp: has_done_def list_ex_iff)

lemma key_conflict_iff:
  "list_ex (key_conflict m) (memories db) \<longleftrightarrow>
     mTurnID m \<noteq> [] \<and> (mConversationID m, mSessionID m, Some (mTurnID m)) \<in>
       natural_key ` set (filter (\<lambda>r. mr_turn_id r \<noteq> None) (memories db))"
  by (auto simp: list_ex_iff key_conflict_def natural_key_def nullif_empty_def image_iff)

lemma InsertMemory_ok:
  assumes "ledger_ok db" and "InsertMemory now m db = (res, db')"
  shows "ledger_ok db'"
proof (cases "list_ex (key_conflict m) (memories db)")
  case True
  then have db': "db' = db\<lparr>mem_seq := mem_seq db + 1\<rparr>" using assms(2) by (simp add: InsertMemory_def)
  show ?thesis using assms(1) unfolding db'
    by (fastforce simp: ledger_ok_def memories_ok_def events_ok_def has_memory_def)
next
  case False
  then have db': "db' = db\<lparr>memories := memories db @ [memory_row_of (mem_seq db) now m],
      mem_seq := mem_seq db + 1\<rparr>"
    using assms(2) by (simp add: InsertMemory_def)
  have ok: "memories_ok db" using assms(1) by (simp add: ledger_ok_def)
  have "sorted_wrt (<) (map mr_id (memories db'))" and "\<forall>r\<in>set (memories db'). mr_id r < mem_seq db'"
    using ok unfolding db' by (auto simp: memories_ok_def ledger_simps sorted_wrt_append)
  moreover have "distinct (map natural_key (filter (\<lambda>r. mr_turn_id r \<noteq> None) (memories db')))"
    using ok False unfolding db' key_conflict_iff
    by (auto simp: memories_ok_def ledger_simps nullif_empty_def)
  ultimately have "memories_ok db'" by (simp add: memories_ok_def)
  moreover have "events_ok db'"
    using assms(1) unfolding db' by (auto simp: ledger_ok_def events_ok_def ledger_simps)
  ultimately show ?thesis by (simp add: ledger_ok_def)
qed

lemma copy_rows_ok: "ledger_ok db \<Longrightarrow> copy_rows now ms n db = (res, db') \<Longrightarrow> ledger_ok db'"
proof (induction ms arbitrary: n db)
  case (Cons m ms)
  obtain r db1 where i: "InsertMemory now m db = (r, db1)" by fastforce
  have "ledger_ok db1" using Cons.prems(1) i by (rule InsertMemory_ok)
  then show ?case using Cons.prems(2) Cons.IH [of db1 "n + 1"] i by (auto split: sum.splits)
qed simp

lemma InsertMemory_seq: "InsertMemory now m db = (res, db') \<Longrightarrow> mem_seq db' = mem_seq db + 1"
  by (auto simp: InsertMemory_def split: if_splits)

lemma copy_rows_seq: "copy_rows now ms n db = (res, db') \<Longrightarrow> mem_seq db \<le> mem_seq db'"
proof (induction ms arbitrary: n db)
  case (Cons m ms)
  obtain r db1 where i: "InsertMemory now m db = (r, db1)" by fastforce
  show ?case
    using Cons.prems Cons.IH [of "n + 1" db1] InsertMemory_seq [OF i] i by (auto split: sum.splits)
qed simp

lemma seq_mono_ok:
  assumes "ledger_ok db" and "mem_seq db \<le> n"
  shows "ledger_ok (db\<lparr>mem_seq := n\<rparr>)"
  using assms by (fastforce simp: ledger_ok_def memories_ok_def events_ok_def has_memory_def)

lemma CopyMemories_ok:
  assumes "ledger_ok db" and "CopyMemories now ms db = (res, db')"
  shows "ledger_ok db'"
proof -
  obtain r db1 where c: "copy_rows now ms 0 db = (r, db1)" by fastforce
  show ?thesis
    using assms(2) copy_rows_ok [OF assms(1) c] seq_mono_ok [OF assms(1) copy_rows_seq [OF c]] c
    by (auto simp: CopyMemories_def split: sum.splits)
qed

lemma add_event_ok:
  assumes "ledger_ok db" and "ev_id e = ev_seq db" and "has_memory db (ev_memory_id e)"
    and "row_shape e" and "ev_status e = Done \<Longrightarrow> \<not> has_done (ev_version e) db (ev_memory_id e)"
  shows "ledger_ok (db\<lparr>events := events db @ [e], ev_seq := ev_seq db + 1\<rparr>)"
  using assms
  by (fastforce simp: ledger_ok_def memories_ok_def events_ok_def has_memory_def sorted_wrt_append
      has_done_iff)

lemma skip_event_ok: "ledger_ok db \<Longrightarrow> ledger_ok (db\<lparr>ev_seq := ev_seq db + 1\<rparr>)"
  by (fastforce simp: ledger_ok_def memories_ok_def events_ok_def has_memory_def)

lemma InsertEnrichmentDone_ok:
  "ledger_ok db \<Longrightarrow> InsertEnrichmentDone now d db = (res, db') \<Longrightarrow> ledger_ok db'"
  by (auto simp: InsertEnrichmentDone_def ledger_simps skip_event_ok split: if_splits
      intro!: add_event_ok)

lemma InsertEnrichmentFailed_ok:
  "ledger_ok db \<Longrightarrow> InsertEnrichmentFailed now f db = (res, db') \<Longrightarrow> ledger_ok db'"
  by (auto simp: InsertEnrichmentFailed_def ledger_simps skip_event_ok split: if_splits
      intro!: add_event_ok)

lemma ledger_step_ok: "ledger_step db db' \<Longrightarrow> ledger_ok db \<Longrightarrow> ledger_ok db'"
  by (erule ledger_stepE)
    (blast intro: InsertMemory_ok CopyMemories_ok InsertEnrichmentDone_ok InsertEnrichmentFailed_ok)+

lemma empty_ledger_ok: "ledger_ok empty_ledger"
  by (simp add: ledger_ok_def memories_ok_def events_ok_def empty_ledger_def)

lemma ledger_steps_ok: "ledger_steps db db' \<Longrightarrow> ledger_ok db \<Longrightarrow> ledger_ok db'"
  by (induction rule: rtranclp_induct) (auto intro: ledger_step_ok)


section \<open>Every write only appends\<close>

definition appended :: "ledger \<Rightarrow> ledger \<Rightarrow> bool" where
  "appended db db' \<longleftrightarrow> extends (memories db) (memories db') \<and> extends (events db) (events db')"

lemma appended_refl [simp, intro]: "appended db db"
  by (simp add: appended_def)

lemma appended_trans: "appended a b \<Longrightarrow> appended b c \<Longrightarrow> appended a c"
  by (auto simp: appended_def intro: extends_trans)

lemma InsertMemory_appended: "InsertMemory now m db = (res, db') \<Longrightarrow> appended db db'"
  by (auto simp: InsertMemory_def appended_def split: if_splits)

lemma copy_rows_appended: "copy_rows now ms n db = (res, db') \<Longrightarrow> appended db db'"
proof (induction ms arbitrary: n db)
  case (Cons m ms)
  obtain r db1 where i: "InsertMemory now m db = (r, db1)" by fastforce
  show ?case
    using Cons.prems Cons.IH [of "n + 1" db1] InsertMemory_appended [OF i] i
    by (auto split: sum.splits intro: appended_trans)
qed simp

lemma CopyMemories_appended: "CopyMemories now ms db = (res, db') \<Longrightarrow> appended db db'"
  using copy_rows_appended [of now ms 0 db]
  by (auto simp: CopyMemories_def appended_def split: sum.splits prod.splits)

lemma event_inserts_appended:
  "InsertEnrichmentDone now d db = (res, db') \<Longrightarrow> appended db db'"
  "InsertEnrichmentFailed now f db = (res, db') \<Longrightarrow> appended db db'"
  by (auto simp: insert_defs appended_def split: if_splits)

lemma ledger_step_appended: "ledger_step db db' \<Longrightarrow> appended db db'"
  by (erule ledger_stepE)
    (blast intro: InsertMemory_appended CopyMemories_appended event_inserts_appended)+

lemma ledger_steps_appended: "ledger_steps db db' \<Longrightarrow> appended db db'"
  by (induction rule: rtranclp_induct) (auto intro: appended_trans ledger_step_appended)

lemma has_done_mono: "appended db db' \<Longrightarrow> has_done v db mid \<Longrightarrow> has_done v db' mid"
  by (auto simp: appended_def has_done_def list_ex_iff dest!: extends_set)

lemma fail_rows_mono: "appended db db' \<Longrightarrow> extends (fail_rows v db mid) (fail_rows v db' mid)"
  by (auto simp: appended_def fail_rows_def extends_iff)

lemma has_permanent_mono:
  "appended db db' \<Longrightarrow> has_permanent_failure v db mid \<Longrightarrow> has_permanent_failure v db' mid"
  using fail_rows_mono [of db db' v mid]
  by (auto simp: has_permanent_failure_def list_ex_iff dest!: extends_set)

section \<open>What pending means\<close>

lemma latest_failure_None [simp]: "latest_failure es = None \<longleftrightarrow> es = []"
  by (cases es) (auto split: option.splits)

lemma latest_failure_in: "latest_failure es = Some e \<Longrightarrow> e \<in> set es"
  by (induction es) (auto split: option.splits if_splits)

lemma latest_failure_max:
  "latest_failure es = Some e \<Longrightarrow> f \<in> set es \<Longrightarrow> (ev_attempt f, ev_id f) \<le> (ev_attempt e, ev_id e)"
proof (induction es arbitrary: e)
  case (Cons g es)
  show ?case
  proof (cases "latest_failure es")
    case None
    with Cons.prems show ?thesis by auto
  next
    case (Some h)
    show ?thesis
    proof (cases "f = g")
      case True
      with Cons.prems Some show ?thesis by (auto split: if_splits)
    next
      case False
      then have f: "(ev_attempt f, ev_id f) \<le> (ev_attempt h, ev_id h)"
        using Cons.IH [OF Some] Cons.prems(2) by simp
      have "(ev_attempt h, ev_id h) \<le> (ev_attempt e, ev_id e)"
        using Cons.prems(1) Some by (auto split: if_splits)
      with f show ?thesis by (rule order_trans)
    qed
  qed
qed simp

lemma fail_cte_None: "fail_cte v db mid = None \<longleftrightarrow> fail_rows v db mid = []"
  by (simp add: fail_cte_def Let_def)

lemma fail_cte_SomeD:
  assumes "fail_cte v db mid = Some f"
  shows "n_fail f = length (fail_rows v db mid)" and "0 < n_fail f"
    and "has_permanent f = has_permanent_failure v db mid"
    and "\<exists>e\<in>set (fail_rows v db mid). last_fail f = ev_created_at e \<and>
           (\<forall>g\<in>set (fail_rows v db mid). (ev_attempt g, ev_id g) \<le> (ev_attempt e, ev_id e))"
proof -
  let ?fs = "fail_rows v db mid"
  obtain z where z: "latest_failure ?fs = Some z"
    and f: "f = \<lparr>n_fail = length ?fs, last_fail = ev_created_at z,
                has_permanent = list_ex ev_permanent ?fs\<rparr>"
    using assms by (auto simp: fail_cte_def Let_def)
  have zin: "z \<in> set ?fs" using z by (rule latest_failure_in)
  show "n_fail f = length ?fs" and "0 < n_fail f" and "has_permanent f = has_permanent_failure v db mid"
    using zin by (auto simp: f has_permanent_failure_def)
  show "\<exists>e\<in>set ?fs. last_fail f = ev_created_at e \<and>
      (\<forall>g\<in>set ?fs. (ev_attempt g, ev_id g) \<le> (ev_attempt e, ev_id e))"
    using zin latest_failure_max [OF z] unfolding f by (intro bexI [of _ z]) simp_all
qed

text \<open>Retryable but inside the backoff window of its latest attempt.\<close>

definition backing_off :: "instant \<Rightarrow> int16 \<Rightarrow> int \<Rightarrow> int \<Rightarrow> ledger \<Rightarrow> int \<Rightarrow> bool" where
  "backing_off now v max_attempts base db mid \<longleftrightarrow>
     \<not> has_done v db mid \<and>
     (case fail_cte v db mid of
        None \<Rightarrow> False
      | Some f \<Rightarrow> \<not> has_permanent f \<and> int (n_fail f) < max_attempts \<and>
                  now - base * 2 ^ min (n_fail f) 6 \<le> last_fail f)"

definition dead_at :: "int16 \<Rightarrow> int \<Rightarrow> ledger \<Rightarrow> int \<Rightarrow> bool" where
  "dead_at v max_attempts db mid \<longleftrightarrow>
     \<not> has_done v db mid \<and>
     (has_permanent_failure v db mid \<or> max_attempts \<le> int (length (fail_rows v db mid)))"

lemma dead_letter_alt: "dead_letter v k db = filter (dead_at v k db) (map mr_id (memories db))"
  by (simp add: dead_letter_def dead_at_def cong: filter_cong)

lemma no_permanent_Nil: "fail_rows v db mid = [] \<Longrightarrow> \<not> has_permanent_failure v db mid"
  by (simp add: has_permanent_failure_def)

lemma pending_core_alt:
  "pending_core now v k base db mid \<longleftrightarrow>
     \<not> has_done v db mid \<and> \<not> has_permanent_failure v db mid \<and>
     int (length (fail_rows v db mid)) < k \<and>
     (\<forall>f. fail_cte v db mid = Some f \<longrightarrow> last_fail f < now - base * 2 ^ min (n_fail f) 6)"
proof (cases "fail_cte v db mid")
  case None
  then have "fail_rows v db mid = []" by (simp only: fail_cte_None)
  with None show ?thesis by (simp add: pending_core_def no_permanent_Nil)
next
  case (Some f)
  then show ?thesis using fail_cte_SomeD [OF Some] by (auto simp: pending_core_def)
qed

lemma four_states:
  "(if has_done v db mid then 1 else 0) + (if dead_at v k db mid then 1 else 0) +
   (if pending_core now v k base db mid then 1 else 0) +
   (if backing_off now v k base db mid then 1 else (0 :: nat)) = 1"
proof (cases "fail_cte v db mid")
  case None
  then have "fail_rows v db mid = []" by (simp only: fail_cte_None)
  with None show ?thesis
    by (auto simp: pending_core_alt backing_off_def dead_at_def no_permanent_Nil)
next
  case (Some f)
  then show ?thesis
    using fail_cte_SomeD [OF Some] by (auto simp: pending_core_alt backing_off_def dead_at_def)
qed

lemma set_pending: "set (pending_set now v k b db) =
    {mid. has_memory db mid \<and> pending_core now v k (pgInterval b) db mid}"
  by (auto simp: pending_set_def has_memory_iff)

lemma distinct_ids: "ledger_ok db \<Longrightarrow> distinct (map mr_id (memories db))"
  by (auto simp: ledger_ok_def memories_ok_def strict_sorted_iff)

lemma sorted_ids: "ledger_ok db \<Longrightarrow> sorted (map mr_id (memories db))"
  by (auto simp: ledger_ok_def memories_ok_def strict_sorted_iff)

lemma pending_sorted:
  assumes "ledger_ok db"
  shows "sorted_wrt (<) (pending_set now v k b db)"
  using assms unfolding pending_set_def ledger_ok_def memories_ok_def
  by (auto intro: sorted_wrt_filter)

lemma sort_pending: "ledger_ok db \<Longrightarrow> sort (pending_set now v k b db) = pending_set now v k b db"
  using pending_sorted [of db now v k b] by (auto simp: strict_sorted_iff sorted_sort_id)

lemma pgInterval_pos: "1000 \<le> d \<Longrightarrow> 0 < pgInterval d"
  by (simp add: pgInterval_def sgn_if div_int_pos_iff)

lemma pgInterval_nonneg: "0 \<le> d \<Longrightarrow> 0 \<le> pgInterval d"
  by (simp add: pgInterval_def sgn_if div_int_pos_iff)

lemma backoff_cap: "0 \<le> base \<Longrightarrow> base * 2 ^ min n 6 \<le> base * (64 :: int)"
proof -
  assume "0 \<le> base"
  moreover have "(2 :: int) ^ min n 6 \<le> 2 ^ 6" by (intro power_increasing) auto
  ultimately show ?thesis using mult_left_mono [of "2 ^ min n 6" "64 :: int" base] by simp
qed


section \<open>The abstract ledger: a write-once register per memory and version\<close>

type_synonym payload = "string \<times> string list \<times> instant option \<times> bytes"

record vault =
  v_ids :: "int set"
  v_done :: "int \<times> int16 \<rightharpoonup> payload"
  v_failed :: "int \<times> int16 \<Rightarrow> (int \<times> bool \<times> instant) list"

definition row_payload :: "event_row \<Rightarrow> payload" where
  "row_payload e = (case ev_normalized_text e of None \<Rightarrow> [] | Some t \<Rightarrow> t,
     case ev_lexemes e of None \<Rightarrow> [] | Some l \<Rightarrow> l, ev_ts e,
     case ev_embedding e of None \<Rightarrow> [] | Some b \<Rightarrow> b)"

definition abs_vault :: "ledger \<Rightarrow> vault" where
  "abs_vault db =
     \<lparr>v_ids = mr_id ` set (memories db),
      v_done = (\<lambda>(mid, v). map_option row_payload
        (find (\<lambda>e. ev_memory_id e = mid \<and> ev_version e = v \<and> ev_status e = Done) (events db))),
      v_failed = (\<lambda>(mid, v). map (\<lambda>e. (ev_attempt e, ev_permanent e, ev_created_at e))
        (fail_rows v db mid))\<rparr>"

definition vault_done :: "DoneEvent \<Rightarrow> vault \<Rightarrow> (pg_error, unit) result \<times> vault" where
  "vault_done d s =
     (if v_done s (dMemoryID d, dVersion d) \<noteq> None then (Inr (), s)
      else if dMemoryID d \<notin> v_ids s then (Inl ForeignKeyViolation, s)
      else (Inr (), s\<lparr>v_done := (v_done s)((dMemoryID d, dVersion d) \<mapsto>
              (dNormalizedText d, dLexemes d, dTS d, dEmbedding d))\<rparr>))"

definition vault_failed :: "instant \<Rightarrow> FailedEvent \<Rightarrow> vault \<Rightarrow> (pg_error, unit) result \<times> vault" where
  "vault_failed now f s =
     (if fMemoryID f \<notin> v_ids s then (Inl ForeignKeyViolation, s)
      else (Inr (), s\<lparr>v_failed := (v_failed s)((fMemoryID f, fVersion f) :=
              v_failed s (fMemoryID f, fVersion f) @
                [(fAttempt f, fPermanent f, case fCreatedAt f of None \<Rightarrow> now | Some t \<Rightarrow> t)])\<rparr>))"

lemma find_append: "find P (xs @ ys) = (case find P xs of None \<Rightarrow> find P ys | Some x \<Rightarrow> Some x)"
  by (induction xs) auto

lemma abs_done_None: "v_done (abs_vault db) (mid, v) = None \<longleftrightarrow> \<not> has_done v db mid"
  by (auto simp: abs_vault_def has_done_def list_ex_iff find_None_iff)

lemma find_done_None:
  "\<not> has_done v db mid \<Longrightarrow>
     find (\<lambda>e. ev_memory_id e = mid \<and> ev_version e = v \<and> ev_status e = Done) (events db) = None"
  by (auto simp: has_done_def list_ex_iff find_None_iff)

lemma abs_vault_seq: "abs_vault (db\<lparr>ev_seq := n\<rparr>) = abs_vault db"
  by (simp add: abs_vault_def fail_rows_def)

lemma fail_rows_append [ledger_simps]:
  "fail_rows v (db\<lparr>events := events db @ es\<rparr>) mid =
     fail_rows v db mid @
       filter (\<lambda>e. ev_version e = v \<and> ev_status e = Failed \<and> ev_memory_id e = mid) es"
  by (simp add: fail_rows_def)

lemma abs_vault_done:
  assumes "\<not> has_done (dVersion d) db (dMemoryID d)"
  shows "abs_vault (db\<lparr>events := events db @ [done_row i now d]\<rparr>) =
     (abs_vault db)\<lparr>v_done := (v_done (abs_vault db))((dMemoryID d, dVersion d) \<mapsto>
        (dNormalizedText d, dLexemes d, dTS d, dEmbedding d))\<rparr>"
  using find_done_None [OF assms]
  by (auto simp: abs_vault_def find_append ledger_simps fun_eq_iff row_payload_def done_row_def
      split: option.splits)

lemma abs_vault_failed:
  "abs_vault (db\<lparr>events := events db @ [failed_row i now f]\<rparr>) =
     (abs_vault db)\<lparr>v_failed := (v_failed (abs_vault db))((fMemoryID f, fVersion f) :=
        v_failed (abs_vault db) (fMemoryID f, fVersion f) @
          [(fAttempt f, fPermanent f, case fCreatedAt f of None \<Rightarrow> now | Some t \<Rightarrow> t)])\<rparr>"
  by (auto simp: abs_vault_def find_append ledger_simps fun_eq_iff failed_row_def
      split: option.splits)

section \<open>The version-pinned fetch\<close>

lemma sorted_wrt_less_map_inj: "sorted_wrt (<) (map f xs) \<Longrightarrow> inj_on (f :: 'a \<Rightarrow> int) (set xs)"
  by (metis distinct_map strict_sorted_iff)

lemma memory_unique:
  "ledger_ok db \<Longrightarrow> m \<in> set (memories db) \<Longrightarrow> m' \<in> set (memories db) \<Longrightarrow> mr_id m = mr_id m' \<Longrightarrow> m = m'"
  by (auto simp: ledger_ok_def memories_ok_def dest!: sorted_wrt_less_map_inj inj_onD)

lemma event_unique:
  "ledger_ok db \<Longrightarrow> e \<in> set (events db) \<Longrightarrow> e' \<in> set (events db) \<Longrightarrow> ev_id e = ev_id e' \<Longrightarrow> e = e'"
  by (auto simp: ledger_ok_def events_ok_def dest!: sorted_wrt_less_map_inj inj_onD)

lemma done_unique:
  assumes "ledger_ok db" and "e \<in> set (events db)" and "e' \<in> set (events db)"
    and "ev_status e = Done" and "ev_status e' = Done"
    and "ev_memory_id e = ev_memory_id e'" and "ev_version e = ev_version e'"
  shows "e = e'"
proof -
  have "inj_on (\<lambda>e. (ev_memory_id e, ev_version e)) (set (filter (\<lambda>e. ev_status e = Done) (events db)))"
    using assms(1) by (simp add: ledger_ok_def events_ok_def distinct_map)
  then show ?thesis using assms(2-7) by (auto dest!: inj_onD [of _ _ e e'])
qed

lemma set_at_version:
  "(e, m) \<in> set (at_version conv v db) \<longleftrightarrow>
     e \<in> set (events db) \<and> m \<in> set (memories db) \<and> mr_id m = ev_memory_id e \<and>
     mr_conversation_id m = conv \<and> ev_version e = v \<and> ev_status e = Done"
  by (auto simp: at_version_def)

lemma distinct_product_filter:
  "distinct xs \<Longrightarrow> distinct ys \<Longrightarrow> distinct (filter P (List.product xs ys))"
  by (simp add: distinct_product)

lemma distinct_rows:
  assumes "ledger_ok db"
  shows "distinct (events db)" and "distinct (memories db)"
  using assms
  by (auto simp: ledger_ok_def memories_ok_def events_ok_def strict_sorted_iff distinct_map)

lemma at_version_ids:
  assumes ok: "ledger_ok db"
  shows "sorted_wrt (<) (map (\<lambda>p. ev_memory_id (fst p)) (at_version conv v db))"
proof -
  let ?l = "at_version conv v db" and ?f = "\<lambda>p. ev_memory_id (fst p)"
  have "distinct ?l"
    using distinct_product_filter [OF distinct_rows [OF ok]] by (simp add: at_version_def)
  moreover have "inj_on ?f (set ?l)"
  proof (rule inj_onI)
    fix p q assume pq: "p \<in> set ?l" "q \<in> set ?l" and eq: "?f p = ?f q"
    obtain e m where p: "p = (e, m)" by (cases p)
    obtain e' m' where q: "q = (e', m')" by (cases q)
    have "e = e'" using pq eq unfolding p q set_at_version by (auto intro: done_unique [OF ok])
    moreover have "m = m'" using pq eq unfolding p q set_at_version
      by (auto intro: memory_unique [OF ok])
    ultimately show "p = q" by (simp add: p q)
  qed
  ultimately have "distinct (map ?f ?l)" by (simp add: distinct_map)
  moreover have "sorted (map ?f ?l)" by (simp add: at_version_def)
  ultimately show ?thesis by (simp add: strict_sorted_iff)
qed

lemma enriched_of_ok:
  assumes "ledger_ok db" and "p \<in> set (at_version conv v db)"
  shows "\<exists>em. enriched_of p = Inr em \<and> emMemoryID em = ev_memory_id (fst p)"
proof -
  obtain e m where p: "p = (e, m)" by (cases p)
  have "row_shape e" and "ev_status e = Done"
    using assms unfolding p set_at_version by (auto simp: ledger_ok_def events_ok_def)
  then show ?thesis by (auto simp: enriched_of_def p row_shape_def)
qed

lemma scan_rows_ok:
  "(\<And>p. p \<in> set ps \<Longrightarrow> \<exists>em. enriched_of p = Inr em \<and> emMemoryID em = ev_memory_id (fst p)) \<Longrightarrow>
     \<exists>ems. scan_rows ps = Inr ems \<and> map emMemoryID ems = map (\<lambda>p. ev_memory_id (fst p)) ps"
proof (induction ps)
  case (Cons p ps)
  from Cons.IH Cons.prems obtain ems where "scan_rows ps = Inr ems"
    "map emMemoryID ems = map (\<lambda>p. ev_memory_id (fst p)) ps" by auto
  moreover from Cons.prems [of p] obtain em where "enriched_of p = Inr em"
    "emMemoryID em = ev_memory_id (fst p)" by auto
  ultimately show ?case by simp
qed simp

lemma fetch_ids:
  assumes "ledger_ok db"
  shows "(\<lambda>p. ev_memory_id (fst p)) ` set (at_version conv v db) =
    {mid. \<exists>m\<in>set (memories db). mr_id m = mid \<and> mr_conversation_id m = conv \<and> has_done v db mid}"
    (is "?l = ?r")
proof
  show "?l \<subseteq> ?r"
  proof
    fix mid assume "mid \<in> ?l"
    then obtain e m where "(e, m) \<in> set (at_version conv v db)" and "mid = ev_memory_id e" by force
    then show "mid \<in> ?r" unfolding set_at_version by (auto simp: has_done_def list_ex_iff)
  qed
  show "?r \<subseteq> ?l"
  proof
    fix mid assume "mid \<in> ?r"
    then obtain m e where "m \<in> set (memories db)" "mr_id m = mid" "mr_conversation_id m = conv"
      "e \<in> set (events db)" "ev_memory_id e = mid" "ev_version e = v" "ev_status e = Done"
      by (auto simp: has_done_def list_ex_iff)
    then have "(e, m) \<in> set (at_version conv v db)" by (simp add: set_at_version)
    then show "mid \<in> ?l" using \<open>ev_memory_id e = mid\<close> by force
  qed
qed

lemma FetchAtVersion_ok:
  assumes "ledger_ok db"
  shows "\<exists>ems. FetchAtVersion conv v db = Inr ems \<and> sorted_wrt (<) (map emMemoryID ems) \<and>
    set (map emMemoryID ems) =
      {mid. \<exists>m\<in>set (memories db). mr_id m = mid \<and> mr_conversation_id m = conv \<and> has_done v db mid}"
proof -
  obtain ems where ems: "scan_rows (at_version conv v db) = Inr ems"
    "map emMemoryID ems = map (\<lambda>p. ev_memory_id (fst p)) (at_version conv v db)"
    using scan_rows_ok [of "at_version conv v db"] enriched_of_ok [OF assms] by blast
  then show ?thesis
    using at_version_ids [OF assms, of conv v] fetch_ids [OF assms, of conv v]
    by (auto simp: FetchAtVersion_def simp del: set_map simp flip: set_map)
qed


section \<open>A small ledger to apply the properties to\<close>

definition sample_memory :: "string \<Rightarrow> Memory" where
  "sample_memory t =
     \<lparr>mConversationID = ''7'', mSessionID = ''s1'', mTurnID = t, mS3Bucket = ''memories'',
      mS3Key = ''k'', mByteSize = 1, mContentHash = [1]\<rparr>"

definition sample_done :: "int \<Rightarrow> DoneEvent" where
  "sample_done mid =
     \<lparr>dMemoryID = mid, dVersion = 1, dAttempt = 1, dNormalizedText = ''hi'', dLexemes = [''hi''],
      dTS = None, dEmbedding = [0, 0, 128, 63]\<rparr>"

definition sample_failed :: "int \<Rightarrow> bool \<Rightarrow> FailedEvent" where
  "sample_failed mid perm =
     \<lparr>fMemoryID = mid, fVersion = 1, fAttempt = 1, fPermanent = perm, fErrorMessage = ''x'',
      fCreatedAt = None\<rparr>"

definition sample1 :: ledger where
  "sample1 = snd (InsertMemory 100 (sample_memory ''t1'') empty_ledger)"

definition sample2 :: ledger where
  "sample2 = snd (InsertEnrichmentFailed 200 (sample_failed 1 True) sample1)"

definition sample3 :: ledger where
  "sample3 = snd (InsertEnrichmentDone 300 (sample_done 1) sample2)"

definition sample4 :: ledger where
  "sample4 = snd (InsertMemory 400 (sample_memory ''t2'') sample3)"

lemma ledger_step_snd:
  "ledger_step db (snd (InsertMemory now m db))"
  "ledger_step db (snd (InsertEnrichmentDone now d db))"
  "ledger_step db (snd (InsertEnrichmentFailed now f db))"
  by (metis ledger_step.intros prod.collapse)+

lemma sample_steps:
  "ledger_steps empty_ledger sample1" "ledger_steps sample1 sample2" "ledger_steps sample2 sample3"
  "ledger_steps sample3 sample4"
  unfolding sample1_def sample2_def sample3_def sample4_def using ledger_step_snd by blast+

lemma sample_ok: "ledger_ok sample1" "ledger_ok sample2" "ledger_ok sample3"
  using sample_steps ledger_steps_ok empty_ledger_ok by blast+

lemma sample_facts:
  "has_memory sample1 1" "\<not> has_done 1 sample1 1" "fail_rows 1 sample1 1 = []"
  "has_permanent_failure 1 sample2 1" "has_done 1 sample3 1" "has_permanent_failure 1 sample3 1"
  "events sample1 = []"
  by code_simp+

section \<open>Properties\<close>

text \<open>C4. In every interleaving of the store's writers from the empty schema, the ledger keeps
  its invariant: ids are unique and ascend with insertion, no two memories share a non-NULL natural
  key, every event refers to an existing memory and has the columns its status requires, and there
  is at most one \<^verbatim>\<open>done\<close> event per memory and version.\<close>

theorem reachable_ledger_ok:
  assumes "ledger_steps empty_ledger db"
  shows "ledger_ok db"
  using assms empty_ledger_ok by (rule ledger_steps_ok)

theorem reachable_ledger_ok_witness: "ledger_ok sample3"
  using reachable_ledger_ok [of sample3] sample_steps by (meson rtranclp_trans)

text \<open>C16. Nothing is ever updated or deleted: whatever the writers do, the memories and the events of
  a ledger stay, in order, as a prefix of those of every later ledger.\<close>

theorem append_only:
  assumes "ledger_steps db db'"
  shows "extends (memories db) (memories db') \<and> extends (events db) (events db')"
  using ledger_steps_appended [OF assms] by (simp add: appended_def)

theorem append_only_witness:
  "extends (memories sample1) (memories sample3) \<and> extends (events sample1) (events sample3)"
  using append_only [of sample1 sample3] sample_steps by (meson rtranclp_trans)

text \<open>C17. The event inserts refine the abstract ledger: a success is a write to a write-once register
  of the memory and version (a second success changes nothing and is no error), a failure appends
  to the history of the memory and version and never touches a success.\<close>

theorem event_inserts_refine:
  "map_prod id abs_vault (InsertEnrichmentDone now d db) = vault_done d (abs_vault db) \<and>
   map_prod id abs_vault (InsertEnrichmentFailed now f db) = vault_failed now f (abs_vault db)"
proof (rule conjI)
  have ids: "mid \<in> v_ids (abs_vault db) \<longleftrightarrow> has_memory db mid" for mid
    by (simp add: abs_vault_def has_memory_iff)
  show "map_prod id abs_vault (InsertEnrichmentDone now d db) = vault_done d (abs_vault db)"
    by (simp add: InsertEnrichmentDone_def vault_done_def abs_done_None ids abs_vault_seq abs_vault_done)
  show "map_prod id abs_vault (InsertEnrichmentFailed now f db) = vault_failed now f (abs_vault db)"
    by (simp add: InsertEnrichmentFailed_def vault_failed_def ids abs_vault_seq abs_vault_failed)
qed

text \<open>A memory that is done, or has failed permanently, at a version is never claimed again at that
  version: no later pending query, at any time and under any retry policy, returns it.\<close>

theorem settled_never_claimed:
  assumes "ledger_steps db db'" and "has_done v db mid \<or> has_permanent_failure v db mid"
    and "PendingMemoryIDs now v max_attempts backoff limit db' = Inr ids"
  shows "mid \<notin> set ids"
proof -
  have "\<not> pending_core now v max_attempts (pgInterval backoff) db' mid"
    using assms(2) has_done_mono has_permanent_mono ledger_steps_appended [OF assms(1)]
    by (auto simp: pending_core_alt)
  then have "mid \<notin> set (sort (pending_set now v max_attempts backoff db'))"
    by (simp add: set_pending)
  then show ?thesis
    using assms(3) by (auto simp: PendingMemoryIDs_def split: if_splits dest: in_set_takeD)
qed

theorem settled_never_claimed_witness:
  "PendingMemoryIDs 500 1 5 1000000000 10 sample4 = Inr [2] \<and> (1 :: int) \<notin> set [2]"
proof -
  have "ledger_steps sample2 sample4" using sample_steps by (meson rtranclp_trans)
  moreover have p: "PendingMemoryIDs 500 1 5 1000000000 10 sample4 = Inr [2]" by code_simp
  ultimately have "(1 :: int) \<notin> set [2]"
    using sample_facts(4) by (intro settled_never_claimed [OF _ _ p]) auto
  with p show ?thesis by blast
qed

text \<open>C18. At any time each memory is in exactly one of four states at a version: done, dead-lettered,
  claimable, or waiting out the backoff of its latest failed attempt.\<close>

theorem memory_states_partition:
  "(if has_done v db mid then 1 else 0) + (if dead_at v max_attempts db mid then 1 else 0) +
   (if pending_core now v max_attempts base db mid then 1 else 0) +
   (if backing_off now v max_attempts base db mid then 1 else (0 :: nat)) = 1 \<and>
   (has_memory db mid \<longrightarrow>
     (dead_at v max_attempts db mid \<longleftrightarrow> IsDead mid v max_attempts db = Inr True))"
  using four_states [of v db mid max_attempts now base]
  by (auto simp: IsDead_def dead_letter_alt list_ex_iff has_memory_iff)

theorem memory_states_partition_witness:
  "has_memory sample2 1 \<and> (dead_at 1 5 sample2 1 \<longleftrightarrow> IsDead 1 1 5 sample2 = Inr True)"
proof -
  have "has_memory sample2 1" by code_simp
  then show ?thesis using memory_states_partition [of 1 sample2 1 5 0 0] by blast
qed

text \<open>The backlog count and the claim agree: the claim returns, in ascending order and without
  repetition, exactly as many ids as the count allows up to the limit, each of them pending; so a
  positive backlog always yields a claim.\<close>

theorem count_matches_claim:
  assumes "ledger_ok db" and "0 \<le> limit"
  shows "\<exists>n ids. CountPending now v max_attempts backoff db = Inr n \<and>
    PendingMemoryIDs now v max_attempts backoff limit db = Inr ids \<and>
    int (length ids) = min n limit \<and> sorted_wrt (<) ids \<and>
    (\<forall>mid\<in>set ids. IsPending now mid v max_attempts backoff db = Inr True)"
proof -
  let ?ps = "pending_set now v max_attempts backoff db"
  have "int (length (take (nat limit) ?ps)) = min (int (length ?ps)) limit"
    using assms(2) by simp
  moreover have "sorted_wrt (<) (take (nat limit) ?ps)"
    using pending_sorted [OF assms(1)] by (rule sorted_wrt_take)
  ultimately show ?thesis
    using assms by (auto simp: CountPending_def PendingMemoryIDs_def IsPending_def sort_pending
        list_ex_iff dest: in_set_takeD)
qed

theorem count_matches_claim_witness:
  "CountPending 200 1 5 1000000000 sample1 = Inr 1 \<and>
   PendingMemoryIDs 200 1 5 1000000000 10 sample1 = Inr [1] \<and>
   (\<exists>n ids. CountPending 200 1 5 1000000000 sample1 = Inr n \<and>
      PendingMemoryIDs 200 1 5 1000000000 10 sample1 = Inr ids \<and> int (length ids) = min n 10)"
proof -
  have "CountPending 200 1 5 1000000000 sample1 = Inr 1" by code_simp
  moreover have "PendingMemoryIDs 200 1 5 1000000000 10 sample1 = Inr [1]" by code_simp
  ultimately show ?thesis
    using count_matches_claim [OF sample_ok(1), of 10 200 1 5 1000000000] by auto
qed

text \<open>The backoff never exceeds 64 times its base.\<close>

lemma pending_when_waited:
  assumes "\<not> has_done v db mid" and "\<not> has_permanent_failure v db mid"
    and "int (length (fail_rows v db mid)) < max_attempts" and "0 \<le> backoff"
    and "\<And>e. e \<in> set (fail_rows v db mid) \<Longrightarrow> ev_created_at e + 64 * pgInterval backoff < now"
  shows "pending_core now v max_attempts (pgInterval backoff) db mid"
proof -
  have "last_fail f < now - pgInterval backoff * 2 ^ min (n_fail f) 6"
    if f: "fail_cte v db mid = Some f" for f
  proof -
    obtain e where "e \<in> set (fail_rows v db mid)" and "last_fail f = ev_created_at e"
      using fail_cte_SomeD(4) [OF f] by blast
    then show ?thesis
      using assms(5) [of e] backoff_cap [of "pgInterval backoff" "n_fail f"]
        pgInterval_nonneg [OF assms(4)] by linarith
  qed
  then show ?thesis using assms(1-3) by (simp add: pending_core_alt)
qed

text \<open>No retryable memory waits forever: one that is not done, has no permanent failure and has
  attempts left is claimable as soon as 64 times the backoff base has passed since every recorded
  failure of it.\<close>

theorem retry_becomes_due:
  assumes "has_memory db mid" and "\<not> has_done v db mid" and "\<not> has_permanent_failure v db mid"
    and "int (length (fail_rows v db mid)) < max_attempts" and "0 \<le> backoff"
    and "\<And>e. e \<in> set (fail_rows v db mid) \<Longrightarrow> ev_created_at e + 64 * pgInterval backoff < now"
  shows "IsPending now mid v max_attempts backoff db = Inr True"
  using pending_when_waited [OF assms(2-6)] assms(1) by (auto simp: IsPending_def list_ex_iff set_pending)

theorem retry_becomes_due_witness: "IsPending 100 1 1 5 1000000000 sample1 = Inr True"
  using retry_becomes_due [of sample1 1 1 5 1000000000 100] sample_facts
  by (simp add: has_permanent_failure_def)

text \<open>C22. The backoff is measured from the failure with the highest attempt number, and attempt numbers start again at one in
  every execution of the batch activity: once a memory has a failure of a higher attempt that is 64 backoff bases old, a new failure with a
  lower attempt number does not delay it at all. It is claimable again at the very instant it failed.\<close>

theorem restarted_attempt_skips_backoff:
  assumes "ledger_ok db" and "has_memory db (fMemoryID e)" and "\<not> has_done v db (fMemoryID e)"
    and "\<not> has_permanent_failure v db (fMemoryID e)" and "int (length (fail_rows v db (fMemoryID e))) + 1 < max_attempts"
    and "0 \<le> backoff" and "f \<in> set (fail_rows v db (fMemoryID e))"
    and "\<forall>g\<in>set (fail_rows v db (fMemoryID e)). (ev_attempt g, ev_id g) \<le> (ev_attempt f, ev_id f)"
    and "fVersion e = v" and "\<not> fPermanent e" and "fAttempt e < ev_attempt f"
    and "ev_created_at f + 64 * pgInterval backoff < now"
  shows "IsPending now (fMemoryID e) v max_attempts backoff (snd (InsertEnrichmentFailed now e db)) = Inr True"
proof -
  let ?m = "fMemoryID e" and ?row = "failed_row (ev_seq db) now e"
  let ?db = "snd (InsertEnrichmentFailed now e db)"
  have db: "?db = db\<lparr>events := events db @ [?row], ev_seq := ev_seq db + 1\<rparr>"
    using assms(2) by (simp add: InsertEnrichmentFailed_def)
  have rows: "fail_rows v ?db ?m = fail_rows v db ?m @ [?row]"
    using assms(9) by (simp add: db fail_rows_def failed_row_def)
  have "last_fail x < now - pgInterval backoff * 2 ^ min (n_fail x) 6" if x: "fail_cte v ?db ?m = Some x" for x
  proof -
    obtain l where l: "l \<in> set (fail_rows v ?db ?m)" "last_fail x = ev_created_at l"
      "\<forall>g\<in>set (fail_rows v ?db ?m). (ev_attempt g, ev_id g) \<le> (ev_attempt l, ev_id l)"
      using fail_cte_SomeD(4) [OF x] by blast
    have fl: "(ev_attempt f, ev_id f) \<le> (ev_attempt l, ev_id l)" using l(3) assms(7) by (simp add: rows)
    then have "l \<noteq> ?row" using assms(11) by (auto simp: failed_row_def)
    then have old: "l \<in> set (fail_rows v db ?m)" using l(1) by (simp add: rows)
    then have "(ev_attempt l, ev_id l) = (ev_attempt f, ev_id f)" using assms(8) fl by (intro antisym) auto
    then have "l = f" using event_unique [OF assms(1), of l f] old assms(7) by (simp add: fail_rows_def)
    then have "last_fail x = ev_created_at f" using l(2) by simp
    then show ?thesis
      using assms(12) backoff_cap [of "pgInterval backoff" "n_fail x"] pgInterval_nonneg [OF assms(6)] by linarith
  qed
  moreover have "\<not> has_done v ?db ?m" using assms(3) by (simp add: db has_done_def failed_row_def)
  moreover have "\<not> has_permanent_failure v ?db ?m"
    using assms(4,10) unfolding has_permanent_failure_def rows by (simp add: failed_row_def)
  ultimately have "pending_core now v max_attempts (pgInterval backoff) ?db ?m"
    using assms(5) by (simp add: pending_core_alt rows)
  moreover have "has_memory ?db ?m" using assms(2) by (simp add: db has_memory_iff)
  ultimately show ?thesis by (auto simp: IsPending_def list_ex_iff set_pending)
qed

text \<open>Five attempts failed during an outage; 100 seconds later a new execution fails once.\<close>

definition outage_ledger :: ledger where
  "outage_ledger = fold (\<lambda>k db. snd (InsertEnrichmentFailed (k * 1000000) ((sample_failed 1 False)\<lparr>fAttempt := k\<rparr>) db)) [1, 2, 3, 4, 5] sample1"

theorem restarted_attempt_skips_backoff_witness:
  "IsPending 100000000 1 1 200 1000000000 (snd (InsertEnrichmentFailed 100000000 (sample_failed 1 False) outage_ledger)) = Inr True"
proof -
  have "ledger_ok (snd (InsertEnrichmentFailed t e db))" if "ledger_ok db" for t e db
    using InsertEnrichmentFailed_ok [OF that] by (metis prod.collapse)
  then have ok: "ledger_ok outage_ledger" unfolding outage_ledger_def using sample_ok(1) by simp
  let ?f = "last (fail_rows 1 outage_ledger 1)"
  have s: "fMemoryID (sample_failed 1 False) = 1" "fVersion (sample_failed 1 False) = 1" "\<not> fPermanent (sample_failed 1 False)"
    by code_simp+
  have h: "has_memory outage_ledger 1" "\<not> has_done 1 outage_ledger 1" "\<not> has_permanent_failure 1 outage_ledger 1"
    "int (length (fail_rows 1 outage_ledger 1)) + 1 < 200" by code_simp+
  have m: "list_all (\<lambda>g. (ev_attempt g, ev_id g) \<le> (ev_attempt ?f, ev_id ?f)) (fail_rows 1 outage_ledger 1)" by code_simp
  have a: "fAttempt (sample_failed 1 False) < ev_attempt ?f" "ev_created_at ?f + 64 * pgInterval 1000000000 < 100000000" by code_simp+
  have "fail_rows 1 outage_ledger 1 \<noteq> []" by code_simp
  then have f: "?f \<in> set (fail_rows 1 outage_ledger 1)" by simp
  show ?thesis
    using restarted_attempt_skips_backoff [OF ok, of "sample_failed 1 False" 1 200 1000000000 ?f 100000000] s h m a f
    by (simp add: list_all_iff)
qed

text \<open>Bumping the enrichment version re-enqueues everything: at a version with no events the
  claim returns every memory of the ledger, in id order.\<close>

theorem version_bump_requeues:
  assumes "ledger_ok db" and "\<And>e. e \<in> set (events db) \<Longrightarrow> ev_version e \<noteq> v" and "0 < max_attempts"
  shows "PendingMemoryIDs now v max_attempts backoff (int (length (memories db))) db =
     Inr (map mr_id (memories db))"
proof -
  have "fail_rows v db mid = []" and "\<not> has_done v db mid" for mid
    using assms(2) by (auto simp: fail_rows_def filter_empty_conv has_done_def list_ex_iff)
  then have "pending_core now v max_attempts base db mid" for base mid
    using assms(3) by (simp add: pending_core_alt no_permanent_Nil fail_cte_None [THEN iffD2])
  then have "pending_set now v max_attempts backoff db = map mr_id (memories db)"
    by (simp add: pending_set_def)
  then show ?thesis
    using sorted_ids [OF assms(1)] by (simp add: PendingMemoryIDs_def sorted_sort_id)
qed

theorem version_bump_requeues_witness:
  "PendingMemoryIDs 400 2 5 1000000000 (int (length (memories sample3))) sample3 =
     Inr (map mr_id (memories sample3))"
proof (rule version_bump_requeues)
  have "list_all (\<lambda>e. ev_version e \<noteq> 2) (events sample3)" by code_simp
  then show "ev_version e \<noteq> 2" if "e \<in> set (events sample3)" for e
    using that by (auto simp: list_all_iff)
qed (simp_all add: sample_ok)

text \<open>C23. The version-pinned fetch of a conversation succeeds, in ascending id order, with exactly the
  memories of that conversation that are done at that version, each once; it is as long as the
  done count of the progress query, whose total is the sum of done and remaining.\<close>

theorem fetch_is_the_done_set:
  assumes "ledger_ok db"
  shows "\<exists>ems p. FetchAtVersion conv v db = Inr ems \<and> GetProgress conv v db = Inr p \<and>
    sorted_wrt (<) (map emMemoryID ems) \<and>
    set (map emMemoryID ems) =
      {mid. \<exists>m\<in>set (memories db). mr_id m = mid \<and> mr_conversation_id m = conv \<and> has_done v db mid} \<and>
    length ems = pDone p \<and> pTotal p = pDone p + pRemaining p"
proof -
  let ?rs = "filter (\<lambda>r. mr_conversation_id r = conv) (memories db)"
  let ?ds = "filter (\<lambda>r. has_done v db (mr_id r)) ?rs"
  obtain ems where f: "FetchAtVersion conv v db = Inr ems" and s: "sorted_wrt (<) (map emMemoryID ems)"
    and e: "set (map emMemoryID ems) = {mid. \<exists>m\<in>set (memories db). mr_id m = mid \<and>
      mr_conversation_id m = conv \<and> has_done v db mid}"
    using FetchAtVersion_ok [OF assms] by blast
  have "distinct (map emMemoryID ems)" using s by (simp add: strict_sorted_iff)
  then have "length ems = card (set (map emMemoryID ems))"
    using distinct_card [of "map emMemoryID ems"] by simp
  also have "\<dots> = card (set (map mr_id ?ds))" unfolding e by (rule arg_cong [of _ _ card]) auto
  also have "\<dots> = length (map mr_id ?ds)"
    using distinct_ids [OF assms] by (intro distinct_card) (auto simp: distinct_map inj_on_def)
  finally have "length ems = count_by (\<lambda>r. has_done v db (mr_id r)) ?rs"
    by (simp add: count_by_length_filter)
  then show ?thesis
    using f s e count_by_split [of "\<lambda>r. has_done v db (mr_id r)" ?rs]
    by (auto simp: GetProgress_def progress_of_def)
qed

theorem fetch_is_the_done_set_witness:
  "\<exists>ems p. FetchAtVersion ''7'' 1 sample3 = Inr ems \<and> GetProgress ''7'' 1 sample3 = Inr p \<and>
     length ems = pDone p"
  using fetch_is_the_done_set [OF sample_ok(3), of "''7''" 1] by blast

text \<open>The dead count of the progress query and the dead-letter set disagree: a memory that failed
  permanently and was enriched afterwards counts as dead in the progress although it is done and
  nothing remains, so \<^verbatim>\<open>remaining == 0\<close> does not imply \<^verbatim>\<open>dead == 0\<close>.\<close>

theorem progress_counts_done_as_dead:
  "\<exists>db. ledger_steps empty_ledger db \<and>
     GetProgress ''7'' 1 db = Inr \<lparr>pTotal = 1, pDone = 1, pRemaining = 0, pDead = 1\<rparr> \<and>
     DeadLetterIDs 1 5 db = Inr []"
proof (intro exI conjI)
  show "ledger_steps empty_ledger sample3" using sample_steps by (meson rtranclp_trans)
  show "GetProgress ''7'' 1 sample3 = Inr \<lparr>pTotal = 1, pDone = 1, pRemaining = 0, pDead = 1\<rparr>"
    by code_simp
  show "DeadLetterIDs 1 5 sample3 = Inr []" by code_simp
qed

text \<open>Ingest is idempotent for turn memories and only for them: inserting a memory with a turn id
  whose natural key is present is a unique violation that leaves both tables alone, while a memory
  without a turn id is always accepted, however often its conversation and session were inserted.\<close>

theorem reinsert_dedups_turns_only:
  "(mTurnID m \<noteq> [] \<and> (\<exists>r\<in>set (memories db). natural_key r =
        (mConversationID m, mSessionID m, Some (mTurnID m))) \<longrightarrow>
      fst (InsertMemory now m db) = Inl UniqueViolation \<and>
      memories (snd (InsertMemory now m db)) = memories db \<and>
      events (snd (InsertMemory now m db)) = events db) \<and>
   (mTurnID m = [] \<longrightarrow>
      fst (InsertMemory now m db) = Inr (mem_seq db) \<and>
      length (memories (snd (InsertMemory now m db))) = length (memories db) + 1)"
proof -
  have "list_ex (key_conflict m) (memories db)"
    if "mTurnID m \<noteq> []" "r \<in> set (memories db)"
      "natural_key r = (mConversationID m, mSessionID m, Some (mTurnID m))" for r
    using that by (auto simp: list_ex_iff key_conflict_def natural_key_def nullif_empty_def)
  moreover have "\<not> list_ex (key_conflict m) (memories db)" if "mTurnID m = []"
    using that by (auto simp: list_ex_iff key_conflict_def nullif_empty_def)
  ultimately show ?thesis by (auto simp: InsertMemory_def)
qed

theorem reinsert_dedups_turns_only_witness:
  "fst (InsertMemory 500 (sample_memory ''t1'') sample1) = Inl UniqueViolation \<and>
   fst (InsertMemory 500 (sample_memory []) sample1) = Inr (mem_seq sample1)"
proof -
  have "\<exists>r\<in>set (memories sample1). natural_key r = (''7'', ''s1'', Some ''t1'')" by code_simp
  then show ?thesis
    using reinsert_dedups_turns_only [of "sample_memory ''t1''" sample1 500]
      reinsert_dedups_turns_only [of "sample_memory []" sample1 500]
    by (simp add: sample_memory_def)
qed

end
