(* ===== verification/GoFloat.thy ===== *)
theory GoFloat
  imports Prelude "HOL-Library.Log_Nat"
begin

text \<open>
  IEEE 754 arithmetic as Go's \<^verbatim>\<open>float64\<close> has it: every operation is the exact rational
  operation followed by one rounding to nearest, ties to even. Subnormals, signed zeros,
  infinities and NaN are values of the type. Fused multiply-add, which the Go specification
  allows an implementation to use on some architectures, is not used (amd64 semantics).
  A \<^verbatim>\<open>float32\<close> is its 32-bit pattern.
\<close>

section \<open>Rounding a rational to a binary format\<close>

definition ilog2 :: "rat \<Rightarrow> int" where
  "ilog2 r = (let (a, b) = quotient_of r; k = bitlen a - bitlen b
              in if 2 powi k \<le> r then k else k - 1)"

definition rne :: "rat \<Rightarrow> int" where
  "rne r = (let f = \<lfloor>r\<rfloor>; d = r - of_int f
            in if d < 1 / 2 then f else if 1 / 2 < d then f + 1 else if even f then f else f + 1)"

text \<open>\<open>quantum p emin r\<close> is the exponent of the last bit of a number of magnitude \<open>r\<close> in the
  format with \<open>p\<close> significant bits and least exponent \<open>emin\<close>.\<close>

definition quantum :: "int \<Rightarrow> int \<Rightarrow> rat \<Rightarrow> int" where
  "quantum p emin r = max emin (ilog2 r - (p - 1))"

definition round_pos :: "int \<Rightarrow> int \<Rightarrow> rat \<Rightarrow> rat" where
  "round_pos p emin r = of_int (rne (r / 2 powi quantum p emin r)) * 2 powi quantum p emin r"

definition round_to :: "int \<Rightarrow> int \<Rightarrow> rat \<Rightarrow> rat" where
  "round_to p emin r =
     (if r = 0 then 0 else if 0 < r then round_pos p emin r else - round_pos p emin (- r))"

section \<open>The type \<^verbatim>\<open>float64\<close>\<close>

datatype f64 = NaN | PInf | NInf | NegZero | Num rat

definition rnd64 :: "rat \<Rightarrow> rat" where
  "rnd64 r = round_to 53 (-1074) r"

text \<open>The value an exact result \<open>r\<close> is rounded to; \<open>neg\<close> is the sign an exact zero takes.\<close>

definition mk64 :: "bool \<Rightarrow> rat \<Rightarrow> f64" where
  "mk64 neg r =
     (let x = rnd64 r in
      if x = 0 then (if r < 0 \<or> (r = 0 \<and> neg) then NegZero else Num 0)
      else if 1024 \<le> ilog2 \<bar>x\<bar> then (if x < 0 then NInf else PInf)
      else Num x)"

fun fval :: "f64 \<Rightarrow> rat" where
  "fval (Num r) = r"
| "fval _ = 0"

definition is_inf :: "f64 \<Rightarrow> bool" where
  "is_inf a \<longleftrightarrow> a = PInf \<or> a = NInf"

definition is_neg :: "f64 \<Rightarrow> bool" where
  "is_neg a \<longleftrightarrow> (case a of NInf \<Rightarrow> True | NegZero \<Rightarrow> True | Num r \<Rightarrow> r < 0 | _ \<Rightarrow> False)"

definition is_fin :: "f64 \<Rightarrow> bool" where
  "is_fin a \<longleftrightarrow> a \<noteq> NaN \<and> \<not> is_inf a"

definition f64_neg :: "f64 \<Rightarrow> f64" where
  "f64_neg a = (case a of NaN \<Rightarrow> NaN | PInf \<Rightarrow> NInf | NInf \<Rightarrow> PInf | NegZero \<Rightarrow> Num 0
     | Num r \<Rightarrow> (if r = 0 then NegZero else Num (- r)))"

definition f64_add :: "f64 \<Rightarrow> f64 \<Rightarrow> f64" where
  "f64_add a b =
     (if a = NaN \<or> b = NaN then NaN
      else if is_inf a then (if is_inf b \<and> a \<noteq> b then NaN else a)
      else if is_inf b then b
      else mk64 (a = NegZero \<and> b = NegZero) (fval a + fval b))"

definition f64_sub :: "f64 \<Rightarrow> f64 \<Rightarrow> f64" where
  "f64_sub a b = f64_add a (f64_neg b)"

definition f64_mul :: "f64 \<Rightarrow> f64 \<Rightarrow> f64" where
  "f64_mul a b =
     (let neg = (is_neg a \<noteq> is_neg b) in
      if a = NaN \<or> b = NaN then NaN
      else if is_inf a \<or> is_inf b then
        (if (is_fin a \<and> fval a = 0) \<or> (is_fin b \<and> fval b = 0) then NaN
         else if neg then NInf else PInf)
      else mk64 neg (fval a * fval b))"

definition f64_div :: "f64 \<Rightarrow> f64 \<Rightarrow> f64" where
  "f64_div a b =
     (let neg = (is_neg a \<noteq> is_neg b) in
      if a = NaN \<or> b = NaN then NaN
      else if is_inf a then (if is_inf b then NaN else if neg then NInf else PInf)
      else if is_inf b then (if neg then NegZero else Num 0)
      else if fval b = 0 then (if fval a = 0 then NaN else if neg then NInf else PInf)
      else mk64 neg (fval a / fval b))"

text \<open>A conversion from an integer, and the value of an untyped constant.\<close>

definition f64_of_int :: "int \<Rightarrow> f64" where
  "f64_of_int n = mk64 False (of_int n)"

definition f64_const :: "rat \<Rightarrow> f64" where
  "f64_const r = mk64 False r"

text \<open>Comparison: NaN is unordered, the two zeros are equal.\<close>

fun fkey :: "f64 \<Rightarrow> int \<times> rat" where
  "fkey PInf = (1, 0)"
| "fkey NInf = (- 1, 0)"
| "fkey (Num r) = (0, r)"
| "fkey NegZero = (0, 0)"
| "fkey NaN = (0, 0)"

definition f64_lt :: "f64 \<Rightarrow> f64 \<Rightarrow> bool" where
  "f64_lt a b \<longleftrightarrow> a \<noteq> NaN \<and> b \<noteq> NaN \<and> fkey a < fkey b"

definition f64_eq :: "f64 \<Rightarrow> f64 \<Rightarrow> bool" where
  "f64_eq a b \<longleftrightarrow> a \<noteq> NaN \<and> b \<noteq> NaN \<and> fkey a = fkey b"

definition f64_le :: "f64 \<Rightarrow> f64 \<Rightarrow> bool" where
  "f64_le a b \<longleftrightarrow> a \<noteq> NaN \<and> b \<noteq> NaN \<and> fkey a \<le> fkey b"

section \<open>Rounding is monotone and idempotent\<close>

lemma powi2_pos [simp]: "0 < (2 :: rat) powi k"
  by (simp add: zero_less_power_int)

lemma powi2_le_iff: "(2 :: rat) powi j \<le> 2 powi k \<longleftrightarrow> j \<le> k"
  by (metis linorder_not_le one_less_numeral_iff power_int_increasing power_int_strict_increasing
      one_le_numeral semiring_norm(76))

lemma powi2_less_iff: "(2 :: rat) powi j < 2 powi k \<longleftrightarrow> j < k"
  by (metis linorder_not_le powi2_le_iff)

lemma powi2_Suc: "(2 :: rat) powi (k + 1) = 2 * 2 powi k"
  by (simp add: power_int_add)

lemma powi2_diff: "(2 :: rat) powi j / 2 powi k = 2 powi (j - k)"
  by (simp add: power_int_diff)

lemma bitlen_powi_bounds:
  assumes "0 < a"
  shows "2 powi (bitlen a - 1) \<le> (of_int a :: rat)" and "(of_int a :: rat) < 2 powi bitlen a"
proof -
  have b1: "1 \<le> bitlen a"
    using assms bitlen_eq_zero_iff [of a] bitlen_nonneg [of a] by linarith
  have "(2 :: int) ^ nat (bitlen a - 1) \<le> a" and "a < 2 ^ nat (bitlen a)"
    using bitlen_bounds [OF assms] by auto
  then have "(of_int (2 ^ nat (bitlen a - 1)) :: rat) \<le> of_int a"
    and "(of_int a :: rat) < of_int (2 ^ nat (bitlen a))"
    by (simp_all only: of_int_le_iff of_int_less_iff)
  then show "2 powi (bitlen a - 1) \<le> (of_int a :: rat)" and "(of_int a :: rat) < 2 powi bitlen a"
    using b1 by (simp_all add: power_int_nonneg_exp)
qed

lemma ilog2_bounds:
  assumes "0 < r"
  shows "2 powi ilog2 r \<le> r" and "r < 2 powi (ilog2 r + 1)"
proof -
  obtain a b where q: "quotient_of r = (a, b)" by (cases "quotient_of r") auto
  have b: "0 < b" using q by (rule quotient_of_denom_pos)
  have r: "r = of_int a / of_int b" using q by (rule quotient_of_div)
  have a: "0 < a" using assms b unfolding r by (simp add: zero_less_divide_iff)
  define k where "k = bitlen a - bitlen b"
  have A: "2 powi (bitlen a - 1) \<le> (of_int a :: rat)" "(of_int a :: rat) < 2 powi bitlen a"
    and B: "2 powi (bitlen b - 1) \<le> (of_int b :: rat)" "(of_int b :: rat) < 2 powi bitlen b"
    using bitlen_powi_bounds [OF a] bitlen_powi_bounds [OF b] by auto
  have "r < 2 powi bitlen a / 2 powi (bitlen b - 1)"
    unfolding r using A(2) B(1) a b by (intro frac_less) auto
  then have hi: "r < 2 powi (k + 1)"
    by (simp add: powi2_diff k_def algebra_simps)
  have "2 powi (bitlen a - 1) / 2 powi bitlen b \<le> r"
    unfolding r using A(1) B(2) a b by (intro frac_le) auto
  then have lo: "2 powi (k - 1) \<le> r"
    by (simp add: powi2_diff k_def algebra_simps)
  have i: "ilog2 r = (if 2 powi k \<le> r then k else k - 1)"
    by (simp add: ilog2_def q k_def Let_def)
  show "2 powi ilog2 r \<le> r" and "r < 2 powi (ilog2 r + 1)"
    using hi lo by (auto simp: i)
qed

lemma ilog2_eqI:
  assumes "2 powi k \<le> r" and "r < 2 powi (k + 1)"
  shows "ilog2 r = k"
proof -
  have r: "0 < r" using assms(1) powi2_pos [of k] by linarith
  have "(2 :: rat) powi ilog2 r < 2 powi (k + 1)" and "(2 :: rat) powi k < 2 powi (ilog2 r + 1)"
    using ilog2_bounds [OF r] assms by linarith+
  then show ?thesis unfolding powi2_less_iff by linarith
qed

lemma ilog2_mono:
  assumes "0 < x" and "x \<le> y"
  shows "ilog2 x \<le> ilog2 y"
proof -
  have "(2 :: rat) powi ilog2 x < 2 powi (ilog2 y + 1)"
    using ilog2_bounds(1) [OF assms(1)] ilog2_bounds(2) [of y] assms by linarith
  then show ?thesis unfolding powi2_less_iff by linarith
qed

lemma rne_of_int [simp]: "rne (of_int n) = n"
  by (simp add: rne_def)

lemma rne_near: "\<lfloor>r\<rfloor> \<le> rne r \<and> rne r \<le> \<lfloor>r\<rfloor> + 1"
  by (simp add: rne_def Let_def)

lemma rne_mono:
  assumes "x \<le> y"
  shows "rne x \<le> rne y"
proof (cases "\<lfloor>x\<rfloor> = \<lfloor>y\<rfloor>")
  case True
  with assms show ?thesis by (auto simp: rne_def Let_def)
next
  case False
  then have "\<lfloor>x\<rfloor> + 1 \<le> \<lfloor>y\<rfloor>" using floor_mono [OF assms] by linarith
  then show ?thesis using rne_near [of x] rne_near [of y] by linarith
qed

lemma rne_le_int: "x \<le> of_int n \<Longrightarrow> rne x \<le> n"
  using rne_mono [of x "of_int n"] by simp

lemma int_le_rne: "of_int n \<le> x \<Longrightarrow> n \<le> rne x"
  using rne_mono [of "of_int n" x] by simp

lemma powi2_int: "0 \<le> k \<Longrightarrow> (2 :: rat) powi k = of_int (2 ^ nat k)"
  by (simp add: power_int_nonneg_exp)


lemma powi2_neg: "k < 0 \<Longrightarrow> (2 :: rat) powi k = 1 / of_int (2 ^ nat (- k))"
  using power_int_minus [of "2 :: rat" "- k"] powi2_int [of "- k"] by (simp add: inverse_eq_divide)

text \<open>A binary format with \<open>p\<close> significant bits and least exponent \<open>emin\<close>: what rounding to it
  guarantees, for any such format.\<close>

locale fp_format =
  fixes p emin :: int
  assumes p_pos: "1 \<le> p"
begin

lemma quantum_mono: "0 < x \<Longrightarrow> x \<le> y \<Longrightarrow> quantum p emin x \<le> quantum p emin y"
  using ilog2_mono [of x y] by (auto simp: quantum_def)

lemma below_quantum: "0 < r \<Longrightarrow> r < 2 powi (quantum p emin r + p)"
proof -
  assume "0 < r"
  then have "r < 2 powi (ilog2 r + 1)" by (rule ilog2_bounds)
  also have "(2 :: rat) powi (ilog2 r + 1) \<le> 2 powi (quantum p emin r + p)"
    unfolding powi2_le_iff by (simp add: quantum_def)
  finally show ?thesis .
qed

lemma round_pos_exact:
  assumes "r = of_int m * 2 powi e" and "quantum p emin r \<le> e"
  shows "round_pos p emin r = r"
proof -
  let ?q = "quantum p emin r"
  have "r / 2 powi ?q = of_int m * (2 powi e / 2 powi ?q)" using assms(1) by simp
  also have "\<dots> = of_int m * 2 powi (e - ?q)" by (simp add: powi2_diff)
  also have "\<dots> = of_int (m * 2 ^ nat (e - ?q))" using assms(2) by (simp add: powi2_int)
  finally have "rne (r / 2 powi ?q) = m * 2 ^ nat (e - ?q)"
    and s: "r / 2 powi ?q = of_int (m * 2 ^ nat (e - ?q))"
    by (simp_all only: rne_of_int)
  then have "of_int (rne (r / 2 powi ?q)) = r / 2 powi ?q" by simp
  then show ?thesis by (simp add: round_pos_def)
qed

lemma round_pos_nonneg: "0 < r \<Longrightarrow> 0 \<le> round_pos p emin r"
  using int_le_rne [of 0 "r / 2 powi quantum p emin r"] by (simp add: round_pos_def)

lemma round_pos_mono:
  assumes "0 < x" and "x \<le> y"
  shows "round_pos p emin x \<le> round_pos p emin y"
proof (cases "quantum p emin x = quantum p emin y")
  case True
  have "rne (x / 2 powi quantum p emin y) \<le> rne (y / 2 powi quantum p emin y)"
    using assms by (intro rne_mono divide_right_mono) auto
  then show ?thesis unfolding round_pos_def True by (intro mult_right_mono) auto
next
  case False
  let ?ex = "quantum p emin x" and ?ey = "quantum p emin y"
  define B :: rat where "B = 2 powi (?ey + p - 1)"
  have lt: "?ex < ?ey" using False quantum_mono [OF assms] by linarith
  then have ey: "?ey = ilog2 y - (p - 1)" by (auto simp: quantum_def split: if_splits)
  have By: "B \<le> y" using ilog2_bounds(1) [of y] assms by (simp add: B_def ey)
  have "x < 2 powi (?ex + p)" by (rule below_quantum [OF assms(1)])
  also have "(2 :: rat) powi (?ex + p) \<le> B" unfolding B_def powi2_le_iff using lt by simp
  finally have xB: "x \<le> B" by simp
  have Bx: "B / 2 powi ?ex = of_int (2 ^ nat (?ey + p - 1 - ?ex))"
    unfolding B_def powi2_diff using lt p_pos by (simp add: powi2_int)
  have "x / 2 powi ?ex \<le> B / 2 powi ?ex" using xB by (intro divide_right_mono) auto
  then have "rne (x / 2 powi ?ex) \<le> 2 ^ nat (?ey + p - 1 - ?ex)"
    unfolding Bx by (rule rne_le_int)
  then have "(of_int (rne (x / 2 powi ?ex)) :: rat) \<le> of_int (2 ^ nat (?ey + p - 1 - ?ex))"
    by (simp only: of_int_le_iff)
  then have "round_pos p emin x \<le> of_int (2 ^ nat (?ey + p - 1 - ?ex)) * 2 powi ?ex"
    unfolding round_pos_def by (intro mult_right_mono) auto
  also have "\<dots> = B" unfolding Bx [symmetric] by simp
  finally have 1: "round_pos p emin x \<le> B" .
  have By': "B / 2 powi ?ey = of_int (2 ^ nat (p - 1))"
    unfolding B_def powi2_diff using p_pos by (simp add: powi2_int)
  have "B / 2 powi ?ey \<le> y / 2 powi ?ey" using By by (intro divide_right_mono) auto
  then have "2 ^ nat (p - 1) \<le> rne (y / 2 powi ?ey)"
    unfolding By' by (rule int_le_rne)
  then have "(of_int (2 ^ nat (p - 1)) :: rat) \<le> of_int (rne (y / 2 powi ?ey))"
    by (simp only: of_int_le_iff)
  then have "of_int (2 ^ nat (p - 1)) * 2 powi ?ey \<le> round_pos p emin y"
    unfolding round_pos_def by (intro mult_right_mono) auto
  moreover have "of_int (2 ^ nat (p - 1)) * 2 powi ?ey = B"
    unfolding By' [symmetric] by simp
  ultimately show ?thesis using 1 by linarith
qed

lemma round_pos_idem:
  assumes "0 < r" and "round_pos p emin r \<noteq> 0"
  shows "round_pos p emin (round_pos p emin r) = round_pos p emin r"
proof -
  let ?q = "quantum p emin r"
  define m where "m = rne (r / 2 powi ?q)"
  have r': "round_pos p emin r = of_int m * 2 powi ?q" by (simp add: round_pos_def m_def)
  have pos: "0 < round_pos p emin r" using round_pos_nonneg [OF assms(1)] assms(2) by simp
  have "r / 2 powi ?q \<le> 2 powi (?q + p) / 2 powi ?q"
    using below_quantum [OF assms(1)] by (intro divide_right_mono) auto
  also have "\<dots> = of_int (2 ^ nat p)" unfolding powi2_diff using p_pos by (simp add: powi2_int)
  finally have m: "m \<le> 2 ^ nat p" unfolding m_def by (rule rne_le_int)
  have emin: "emin \<le> ?q" by (simp add: quantum_def)
  show ?thesis
  proof (cases "m = 2 ^ nat p")
    case True
    have eq: "round_pos p emin r = 2 powi (?q + p)"
      unfolding r' True using p_pos by (simp add: power_int_add powi2_int)
    then have "ilog2 (round_pos p emin r) = ?q + p" by (intro ilog2_eqI) (auto simp: powi2_less_iff)
    then have q': "quantum p emin (round_pos p emin r) \<le> ?q + 1"
      using emin by (simp add: quantum_def)
    have "round_pos p emin r = of_int (2 ^ nat (p - 1)) * 2 powi (?q + 1)"
    proof -
      have "(2 :: rat) powi (?q + p) = 2 powi (p - 1) * 2 powi (?q + 1)"
        by (subst power_int_add [symmetric]) (auto simp: algebra_simps)
      then show ?thesis unfolding eq using p_pos by (simp add: powi2_int)
    qed
    then show ?thesis using q' by (rule round_pos_exact)
  next
    case False
    then have "(of_int m :: rat) < of_int (2 ^ nat p)" using m by (simp only: of_int_less_iff)
    then have "(of_int m :: rat) * 2 powi ?q < of_int (2 ^ nat p) * 2 powi ?q"
      by (intro mult_strict_right_mono) auto
    then have "round_pos p emin r < 2 powi (?q + p)"
      unfolding r' using p_pos by (simp add: power_int_add powi2_int mult.commute)
    then have "(2 :: rat) powi ilog2 (round_pos p emin r) < 2 powi (?q + p)"
      using ilog2_bounds(1) [OF pos] by linarith
    then have "quantum p emin (round_pos p emin r) \<le> ?q"
      unfolding powi2_less_iff using emin by (simp add: quantum_def)
    then show ?thesis using r' by (intro round_pos_exact [of _ m ?q])
  qed
qed

lemma round_to_mono: "x \<le> y \<Longrightarrow> round_to p emin x \<le> round_to p emin y"
  using round_pos_mono [of x y] round_pos_mono [of "- y" "- x"] round_pos_nonneg [of y]
    round_pos_nonneg [of "- x"]
  by (auto simp: round_to_def)

lemma round_to_idem: "round_to p emin (round_to p emin r) = round_to p emin r"
  using round_pos_idem [of r] round_pos_idem [of "- r"] round_pos_nonneg [of r]
    round_pos_nonneg [of "- r"]
  by (auto simp: round_to_def)

lemma round_to_int:
  assumes "\<bar>n\<bar> < 2 ^ nat p" and "emin \<le> 0"
  shows "round_to p emin (of_int n) = of_int n"
proof -
  have *: "round_pos p emin (of_int m) = of_int m" if m: "0 < m" "m < 2 ^ nat p" for m
  proof -
    have "(of_int m :: rat) < of_int (2 ^ nat p)" using m(2) by (simp only: of_int_less_iff)
    also have "(of_int (2 ^ nat p) :: rat) = 2 powi p" using p_pos by (simp add: powi2_int)
    finally have "(2 :: rat) powi ilog2 (of_int m) < 2 powi p"
      using ilog2_bounds(1) [of "of_int m"] m(1) by simp
    then have "quantum p emin (of_int m) \<le> 0"
      unfolding powi2_less_iff using assms(2) by (simp add: quantum_def)
    then show ?thesis by (intro round_pos_exact [of _ m 0]) simp_all
  qed
  show ?thesis using *[of n] *[of "- n"] assms(1) by (auto simp: round_to_def)
qed

end

interpretation binary64: fp_format 53 "-1074"
  by unfold_locales simp

interpretation binary32: fp_format 24 "-149"
  by unfold_locales simp

text \<open>The same computations on the numerator and denominator, for evaluation.\<close>

lemma ilog2_code [code]:
  "ilog2 r = (let (a, b) = quotient_of r; k = bitlen a - bitlen b
     in if (if 0 \<le> k then b * 2 ^ nat k \<le> a else b \<le> a * 2 ^ nat (- k)) then k else k - 1)"
proof -
  obtain a b where q: "quotient_of r = (a, b)" by (cases "quotient_of r") auto
  have b: "0 < (of_int b :: rat)" using quotient_of_denom_pos [OF q] by simp
  have r: "r = of_int a / of_int b" using q by (rule quotient_of_div)
  have "2 powi k \<le> r \<longleftrightarrow> (if 0 \<le> k then b * 2 ^ nat k \<le> a else b \<le> a * 2 ^ nat (- k))" for k
  proof (cases "0 \<le> k")
    case True
    then have "2 powi k \<le> r \<longleftrightarrow> (of_int (b * 2 ^ nat k) :: rat) \<le> of_int a"
      unfolding r using b by (simp add: powi2_int field_simps)
    with True show ?thesis by (simp only: of_int_le_iff if_True)
  next
    case False
    then have inv: "(2 :: rat) powi k = 1 / of_int (2 ^ nat (- k))"
      by (intro powi2_neg) simp
    have "2 powi k \<le> r \<longleftrightarrow> (of_int b :: rat) \<le> of_int (a * 2 ^ nat (- k))"
      unfolding r inv using b by (simp add: field_simps)
    with False show ?thesis by (simp only: of_int_le_iff if_False)
  qed
  then show ?thesis by (simp add: ilog2_def q Let_def)
qed

lemma rat_less_half: "0 < b \<Longrightarrow> (of_int m :: rat) / of_int b < 1 / 2 \<longleftrightarrow> 2 * m < b"
proof -
  assume "0 < b"
  then have "(of_int m :: rat) / of_int b < 1 / 2 \<longleftrightarrow> (of_int (2 * m) :: rat) < of_int b"
    by (simp add: field_simps)
  then show ?thesis by (simp only: of_int_less_iff)
qed

lemma half_less_rat: "0 < b \<Longrightarrow> 1 / 2 < (of_int m :: rat) / of_int b \<longleftrightarrow> b < 2 * m"
proof -
  assume "0 < b"
  then have "1 / 2 < (of_int m :: rat) / of_int b \<longleftrightarrow> (of_int b :: rat) < of_int (2 * m)"
    by (simp add: field_simps)
  then show ?thesis by (simp only: of_int_less_iff)
qed

definition rne_div :: "int \<Rightarrow> int \<Rightarrow> int" where
  "rne_div a b = (let f = a div b; d = 2 * (a mod b)
     in if d < b then f else if b < d then f + 1 else if even f then f else f + 1)"

lemma rne_div:
  assumes "0 < b"
  shows "rne (of_int a / of_int b) = rne_div a b"
proof -
  have fl: "\<lfloor>(of_int a :: rat) / of_int b\<rfloor> = a div b" by (rule floor_divide_of_int_eq)
  have b: "0 < (of_int b :: rat)" using assms by simp
  have "(of_int a :: rat) = of_int (a div b) * of_int b + of_int (a mod b)"
    by (metis div_mult_mod_eq of_int_add of_int_mult)
  then have d: "(of_int a :: rat) / of_int b - of_int (a div b) = of_int (a mod b) / of_int b"
    using b by (simp add: field_simps)
  have lt: "(of_int (a mod b) :: rat) / of_int b < 1 / 2 \<longleftrightarrow> 2 * (a mod b) < b"
    using rat_less_half [OF assms] .
  have gt: "1 / 2 < (of_int (a mod b) :: rat) / of_int b \<longleftrightarrow> b < 2 * (a mod b)"
    using half_less_rat [OF assms] .
  show ?thesis unfolding rne_def rne_div_def fl Let_def d lt gt ..
qed

lemma round_pos_code [code]:
  "round_pos p emin r = (let (a, b) = quotient_of r; q = quantum p emin r
     in if 0 \<le> q then of_int (rne_div a (b * 2 ^ nat q) * 2 ^ nat q)
        else of_int (rne_div (a * 2 ^ nat (- q)) b) / of_int (2 ^ nat (- q)))"
proof -
  obtain a b where q: "quotient_of r = (a, b)" by (cases "quotient_of r") auto
  have b: "0 < b" using quotient_of_denom_pos [OF q] by simp
  have r: "r = of_int a / of_int b" using q by (rule quotient_of_div)
  define k where "k = quantum p emin r"
  have pos: "0 \<le> k \<Longrightarrow> rne (r / 2 powi k) = rne_div a (b * 2 ^ nat k)"
    unfolding r using b rne_div [of "b * 2 ^ nat k" a] by (simp add: powi2_int)
  have inv: "k < 0 \<Longrightarrow> (2 :: rat) powi k = 1 / of_int (2 ^ nat (- k))"
    by (rule powi2_neg)
  have neg: "k < 0 \<Longrightarrow> rne (r / 2 powi k) = rne_div (a * 2 ^ nat (- k)) b"
    unfolding r inv using rne_div [OF b, of "a * 2 ^ nat (- k)"] by simp
  show ?thesis
    unfolding round_pos_def k_def [symmetric] q Let_def prod.case
    using pos neg inv by (auto simp: powi2_int)
qed

section \<open>Laws of \<^verbatim>\<open>float64\<close>\<close>

text \<open>The values a \<^verbatim>\<open>float64\<close> can hold.\<close>

definition f64_ok :: "f64 \<Rightarrow> bool" where
  "f64_ok a \<longleftrightarrow>
     (case a of Num r \<Rightarrow> rnd64 r = r \<and> (r = 0 \<or> ilog2 \<bar>r\<bar> < 1024) | _ \<Rightarrow> True)"

lemma rnd64_mono: "x \<le> y \<Longrightarrow> rnd64 x \<le> rnd64 y"
  unfolding rnd64_def by (rule binary64.round_to_mono)

lemma rnd64_idem [simp]: "rnd64 (rnd64 r) = rnd64 r"
  unfolding rnd64_def by (rule binary64.round_to_idem)

lemma rnd64_0 [simp]: "rnd64 0 = 0"
  by (simp add: rnd64_def round_to_def)

lemma rnd64_int: "\<bar>n\<bar> < 2 ^ 53 \<Longrightarrow> rnd64 (of_int n) = of_int n"
  unfolding rnd64_def by (rule binary64.round_to_int) simp_all

lemma rnd64_1 [simp]: "rnd64 1 = 1"
  using rnd64_int [of 1] by simp

lemma rnd64_nonneg: "0 \<le> r \<Longrightarrow> 0 \<le> rnd64 r"
  using rnd64_mono [of 0 r] by simp

lemma mk64_ok: "f64_ok (mk64 neg r)"
  by (auto simp: mk64_def f64_ok_def Let_def)

lemma mk64_not_NaN [simp]: "mk64 neg r \<noteq> NaN"
  by (simp add: mk64_def Let_def)

lemma mk64_exact: "rnd64 r = r \<Longrightarrow> ilog2 \<bar>r\<bar> < 1024 \<Longrightarrow> r \<noteq> 0 \<Longrightarrow> mk64 neg r = Num r"
  by (auto simp: mk64_def Let_def)

lemma f64_add_ok: "f64_ok a \<Longrightarrow> f64_ok b \<Longrightarrow> f64_ok (f64_add a b)"
  by (auto simp: f64_add_def mk64_ok) (auto simp: f64_ok_def)

lemma f64_mul_ok: "f64_ok (f64_mul a b)"
  by (auto simp: f64_mul_def mk64_ok Let_def) (auto simp: f64_ok_def)

lemma f64_div_ok: "f64_ok (f64_div a b)"
  by (auto simp: f64_div_def mk64_ok Let_def) (auto simp: f64_ok_def)

text \<open>Adding to the zero value of a variable changes nothing, except that \<open>-0\<close> becomes \<open>+0\<close>.\<close>

lemma f64_add_0_left: "f64_ok a \<Longrightarrow> a \<noteq> NegZero \<Longrightarrow> f64_add (Num 0) a = a"
  by (cases a) (auto simp: f64_add_def is_inf_def f64_ok_def mk64_def Let_def)

text \<open>Away from NaN, \<open><\<close> is a linear order up to the sign of zero.\<close>

lemma f64_lt_irrefl [simp]: "\<not> f64_lt a a"
  by (simp add: f64_lt_def)

lemma f64_lt_trans: "f64_lt a b \<Longrightarrow> f64_lt b c \<Longrightarrow> f64_lt a c"
  by (auto simp: f64_lt_def)

lemma f64_lt_asym: "f64_lt a b \<Longrightarrow> \<not> f64_lt b a"
  by (auto simp: f64_lt_def)

lemma f64_lt_total: "a \<noteq> NaN \<Longrightarrow> b \<noteq> NaN \<Longrightarrow> f64_lt a b \<or> f64_eq a b \<or> f64_lt b a"
  by (auto simp: f64_lt_def f64_eq_def)

lemma f64_not_lt: "a \<noteq> NaN \<Longrightarrow> b \<noteq> NaN \<Longrightarrow> \<not> f64_lt a b \<longleftrightarrow> f64_le b a"
  by (auto simp: f64_lt_def f64_le_def)

lemma f64_le_trans: "f64_le a b \<Longrightarrow> f64_le b c \<Longrightarrow> f64_le a c"
  by (auto simp: f64_le_def)

text \<open>Rounding preserves order, so addition of a common term and division by a larger
  positive number behave as expected.\<close>

lemma mk64_mono: "x \<le> y \<Longrightarrow> f64_le (mk64 m x) (mk64 n y)"
proof -
  assume xy: "x \<le> y"
  have key: "fkey (mk64 n r) =
      (if rnd64 r \<noteq> 0 \<and> 1024 \<le> ilog2 \<bar>rnd64 r\<bar> then (if rnd64 r < 0 then (- 1, 0) else (1, 0))
       else (0, rnd64 r))" for n r
    by (simp add: mk64_def Let_def)
  show ?thesis
    using rnd64_mono [OF xy] ilog2_mono [of "rnd64 x" "rnd64 y"]
      ilog2_mono [of "- rnd64 y" "- rnd64 x"]
    by (auto simp: f64_le_def key less_eq_prod_def abs_if)
qed

end
