(* ===== verification/Float32.thy ===== *)
theory Float32
  imports GoFloat
begin

text \<open>
  \<^verbatim>\<open>float32\<close> values as their bit patterns (\<^verbatim>\<open>math.Float32bits\<close> is the identity on them), the
  exact conversion to \<^verbatim>\<open>float64\<close>, the rounding conversion back, and \<^verbatim>\<open>math.Sqrt\<close>, which IEEE 754
  requires to be correctly rounded. The payload of a NaN is not tracked: converting a NaN to
  \<^verbatim>\<open>float32\<close> gives the default quiet NaN.
\<close>

type_synonym f32 = "32 word"

section \<open>Conversions\<close>

definition f32_to_f64 :: "f32 \<Rightarrow> f64" where
  "f32_to_f64 w =
     (let n = uint w; s = (2147483648 \<le> n); e = n div 8388608 mod 256; m = n mod 8388608 in
      if e = 255 then (if m = 0 then (if s then NInf else PInf) else NaN)
      else if e = 0 \<and> m = 0 then (if s then NegZero else Num 0)
      else let r = (if e = 0 then of_int m * 2 powi - 149
                    else of_int (8388608 + m) * 2 powi (e - 150))
           in Num (if s then - r else r))"

text \<open>The bits of a magnitude that is representable in binary32.\<close>

definition f32_bits :: "rat \<Rightarrow> int" where
  "f32_bits r =
     (if r = 0 then 0
      else let k = ilog2 r in
        if 128 \<le> k then 2139095040
        else if k < - 126 then \<lfloor>r / 2 powi - 149\<rfloor>
        else (k + 127) * 8388608 + (\<lfloor>r / 2 powi (k - 23)\<rfloor> - 8388608))"

definition f32_make :: "bool \<Rightarrow> rat \<Rightarrow> f32" where
  "f32_make s r = word_of_int ((if s then 2147483648 else 0) + f32_bits (round_to 24 (- 149) r))"

definition f64_to_f32 :: "f64 \<Rightarrow> f32" where
  "f64_to_f32 a =
     (case a of NaN \<Rightarrow> 2143289344 | PInf \<Rightarrow> 2139095040 | NInf \<Rightarrow> 4286578688 | NegZero \<Rightarrow> 2147483648
      | Num r \<Rightarrow> f32_make (r < 0) \<bar>r\<bar>)"

section \<open>\<^verbatim>\<open>math.Sqrt\<close>\<close>

function isqrt :: "int \<Rightarrow> int" where
  "isqrt n = (if n \<le> 0 then 0
              else let s = 2 * isqrt (n div 4) in if (s + 1) * (s + 1) \<le> n then s + 1 else s)"
  by pat_completeness auto
termination
  by (relation "measure nat") auto

declare isqrt.simps [simp del]

definition f64_sqrt :: "f64 \<Rightarrow> f64" where
  "f64_sqrt a =
     (case a of NaN \<Rightarrow> NaN | PInf \<Rightarrow> PInf | NInf \<Rightarrow> NaN | NegZero \<Rightarrow> NegZero
      | Num r \<Rightarrow>
          if r < 0 then NaN else if r = 0 then Num 0
          else let e = ilog2 r div 2 - 52; x = r / 2 powi (2 * e); m = isqrt \<lfloor>x\<rfloor>;
                   h = (of_int m + 1 / 2) * (of_int m + 1 / 2)
               in Num (of_int (if x < h \<or> (x = h \<and> even m) then m else m + 1) * 2 powi e))"

section \<open>The conversions are faithful\<close>

lemma isqrt_bounds: "0 \<le> n \<Longrightarrow> 0 \<le> isqrt n \<and> isqrt n * isqrt n \<le> n \<and> n < (isqrt n + 1) * (isqrt n + 1)"
proof (induction n rule: isqrt.induct)
  case (1 n)
  show ?case
  proof (cases "n = 0")
    case True
    then show ?thesis by (simp add: isqrt.simps)
  next
    case False
    define t where "t = isqrt (n div 4)"
    have IH: "0 \<le> t" "t * t \<le> n div 4" "n div 4 < (t + 1) * (t + 1)"
      using 1 False unfolding t_def by auto
    have "4 * (t * t) \<le> n" and "n < 4 * ((t + 1) * (t + 1))" using IH by linarith+
    moreover have "isqrt n = (if (2 * t + 1) * (2 * t + 1) \<le> n then 2 * t + 1 else 2 * t)"
      using False 1(2) isqrt.simps [of n] by (simp add: Let_def t_def)
    ultimately show ?thesis using IH(1) by (auto simp: algebra_simps)
  qed
qed

lemma f32_fields:
  "uint (w :: f32) = (if 2147483648 \<le> uint w then 2147483648 else 0) +
     (uint w div 8388608 mod 256) * 8388608 + uint w mod 8388608"
proof -
  have "uint w < 4294967296" and "0 \<le> uint w" using uint_lt2p [of w] by simp_all
  then have d: "0 \<le> uint w div 8388608" "uint w div 8388608 < 512" by linarith+
  have n: "uint w = uint w div 8388608 * 8388608 + uint w mod 8388608" by simp
  have s: "2147483648 \<le> uint w \<longleftrightarrow> 256 \<le> uint w div 8388608" by linarith
  have "x = (if 256 \<le> x then 256 else 0) + x mod 256" if "0 \<le> x" "x < 512" for x :: int
    using that mod_pos_pos_trivial [of "x - 256" 256] by auto
  note this [OF d]
  then have "uint w = ((if 2147483648 \<le> uint w then 256 else 0) + uint w div 8388608 mod 256) * 8388608 +
      uint w mod 8388608"
    unfolding s using n by (rule subst)
  moreover have "((if c then 256 else 0) + y) * 8388608 = (if c then 2147483648 else 0) + y * 8388608"
    for c and y :: int by simp
  ultimately show ?thesis by (simp only:)
qed

lemma round24_exact:
  assumes "r = of_int m * 2 powi e" and "0 < m" and "m < 16777216" and "- 149 \<le> e"
  shows "round_to 24 (- 149) r = r"
proof -
  have r: "0 < r" using assms by simp
  have "(of_int m :: rat) < 2 powi 24" using assms(3) by simp
  then have "r < 2 powi 24 * 2 powi e" unfolding assms(1) by (intro mult_strict_right_mono) auto
  also have "\<dots> = 2 powi (24 + e)" by (rule power_int_add [symmetric]) simp
  finally have "(2 :: rat) powi ilog2 r < 2 powi (24 + e)" using ilog2_bounds(1) [OF r] by linarith
  then have "quantum 24 (- 149) r \<le> e"
    unfolding powi2_less_iff using assms(4) by (simp add: quantum_def)
  then show ?thesis using binary32.round_pos_exact [OF assms(1)] r by (simp add: round_to_def)
qed

lemma ilog2_scaled:
  assumes "8388608 \<le> m" and "m < 16777216"
  shows "ilog2 (of_int m * 2 powi e) = e + 23"
proof (rule ilog2_eqI)
  have "(8388608 :: rat) * 2 powi e \<le> of_int m * 2 powi e"
    using assms(1) by (intro mult_right_mono) auto
  then show "2 powi (e + 23) \<le> of_int m * (2 :: rat) powi e" by (simp add: power_int_add mult.commute)
  have "of_int m * (2 :: rat) powi e < 16777216 * 2 powi e"
    using assms(2) by (intro mult_strict_right_mono) auto
  then show "of_int m * (2 :: rat) powi e < 2 powi (e + 23 + 1)" by (simp add: power_int_add mult.commute)
qed

lemma f32_bits_normal:
  assumes "0 < e" and "e < 255" and "0 \<le> m" and "m < 8388608"
  shows "f32_bits (of_int (8388608 + m) * 2 powi (e - 150)) = e * 8388608 + m"
proof -
  define M :: int where "M = 8388608 + m"
  have i: "ilog2 (of_int M * 2 powi (e - 150)) = e - 127"
    using ilog2_scaled [of M "e - 150"] assms by (simp add: M_def)
  have pos: "0 < M" using assms(3) by (simp add: M_def)
  have "of_int M * (2 :: rat) powi (e - 150) / 2 powi (e - 127 - 23) = of_int M"
    by simp
  then have "f32_bits (of_int M * 2 powi (e - 150)) = e * 8388608 + (M - 8388608)"
    using assms pos by (simp add: f32_bits_def i Let_def)
  then show ?thesis by (simp add: M_def)
qed

lemma f32_bits_subnormal:
  assumes "0 < m" and "m < 8388608"
  shows "f32_bits (of_int m * 2 powi - 149) = m"
proof -
  let ?r = "(of_int m :: rat) * 2 powi - 149"
  have r: "0 < ?r" using assms by simp
  have "(of_int m :: rat) < 2 powi 23" using assms(2) by simp
  then have "?r < 2 powi 23 * 2 powi - 149" by (intro mult_strict_right_mono) auto
  also have "\<dots> = 2 powi (23 + - 149)" by (rule power_int_add [symmetric]) simp
  finally have "(2 :: rat) powi ilog2 ?r < 2 powi (- 126)" using ilog2_bounds(1) [OF r] by simp
  then have "ilog2 ?r < - 126" by (simp only: powi2_less_iff)
  then show ?thesis using r assms by (simp add: f32_bits_def)
qed

text \<open>The same computation with one division, for evaluation.\<close>

definition scale2 :: "int \<Rightarrow> int \<Rightarrow> rat" where
  "scale2 m k = (if 0 \<le> k then of_int (m * 2 ^ nat k) else of_int m / of_int (2 ^ nat (- k)))"

lemma scale2: "scale2 m k = of_int m * 2 powi k"
  by (simp add: scale2_def powi2_int powi2_neg)

lemma f32_to_f64_code [code]:
  "f32_to_f64 w =
     (let n = uint w; s = (2147483648 \<le> n); e = n div 8388608 mod 256; m = n mod 8388608 in
      if e = 255 then (if m = 0 then (if s then NInf else PInf) else NaN)
      else if e = 0 \<and> m = 0 then (if s then NegZero else Num 0)
      else let r = (if e = 0 then scale2 m (- 149) else scale2 (8388608 + m) (e - 150))
           in Num (if s then - r else r))"
  unfolding f32_to_f64_def scale2 by (simp add: Let_def)

definition floor_scale :: "rat \<Rightarrow> int \<Rightarrow> int" where
  "floor_scale r k = (case quotient_of r of (a, b) \<Rightarrow>
     if 0 \<le> k then a div (b * 2 ^ nat k) else (a * 2 ^ nat (- k)) div b)"

lemma floor_scale: "floor_scale r k = \<lfloor>r / 2 powi k\<rfloor>"
proof -
  obtain a b where q: "quotient_of r = (a, b)" by (cases "quotient_of r") auto
  have r: "r = of_int a / of_int b" using q by (rule quotient_of_div)
  have "r / 2 powi k = of_int a / of_int (b * 2 ^ nat k)" if "0 \<le> k"
    using that by (simp add: r powi2_int)
  moreover have "r / 2 powi k = of_int (a * 2 ^ nat (- k)) / of_int b" if "k < 0"
    using that by (simp add: r powi2_neg)
  ultimately show ?thesis
    unfolding floor_scale_def q prod.case by (metis floor_divide_of_int_eq not_le)
qed

lemma f32_bits_code [code]:
  "f32_bits r =
     (if r = 0 then 0
      else let k = ilog2 r in
        if 128 \<le> k then 2139095040
        else if k < - 126 then floor_scale r (- 149)
        else (k + 127) * 8388608 + (floor_scale r (k - 23) - 8388608))"
  unfolding f32_bits_def floor_scale ..

lemma f64_sqrt_code [code]:
  "f64_sqrt a =
     (case a of NaN \<Rightarrow> NaN | PInf \<Rightarrow> PInf | NInf \<Rightarrow> NaN | NegZero \<Rightarrow> NegZero
      | Num r \<Rightarrow>
          if r < 0 then NaN else if r = 0 then Num 0
          else let e = ilog2 r div 2 - 52; x = r * scale2 1 (- 2 * e); m = isqrt (floor_scale r (2 * e));
                   h = of_int ((2 * m + 1) * (2 * m + 1)) / 4
               in Num (scale2 (if x < h \<or> (x = h \<and> even m) then m else m + 1) e))"
proof -
  have "r * scale2 1 (- 2 * e) = r / 2 powi (2 * e)" for r e
    by (simp add: scale2 power_int_minus_divide)
  moreover have "of_int ((2 * m + 1) * (2 * m + 1)) / 4 = (of_int m + 1 / 2) * (of_int m + (1 / 2 :: rat))" for m
    by (simp add: field_simps)
  ultimately show ?thesis unfolding f64_sqrt_def scale2 floor_scale by (simp only: Let_def)
qed

text \<open>Converting a \<^verbatim>\<open>float32\<close> to \<^verbatim>\<open>float64\<close> and back gives the same bits.\<close>

lemma f32_roundtrip:
  assumes "f32_to_f64 w \<noteq> NaN"
  shows "f64_to_f32 (f32_to_f64 w) = w"
proof -
  define n where "n = uint w"
  define s where "s = (2147483648 \<le> n)"
  define e where "e = n div 8388608 mod 256"
  define m where "m = n mod 8388608"
  have m: "0 \<le> m" "m < 8388608" and e: "0 \<le> e" "e < 256" by (simp_all add: m_def e_def)
  have n: "n = (if s then 2147483648 else 0) + e * 8388608 + m"
    using f32_fields [of w] by (simp add: n_def s_def e_def m_def)
  have w: "w = word_of_int n" by (simp add: n_def)
  have d: "f32_to_f64 w =
     (if e = 255 then (if m = 0 then (if s then NInf else PInf) else NaN)
      else if e = 0 \<and> m = 0 then (if s then NegZero else Num 0)
      else let r = (if e = 0 then of_int m * 2 powi - 149
                    else of_int (8388608 + m) * 2 powi (e - 150))
           in Num (if s then - r else r))"
    by (simp add: f32_to_f64_def Let_def n_def s_def e_def m_def)
  define r :: rat where
    "r = (if e = 0 then of_int m * 2 powi - 149 else of_int (8388608 + m) * 2 powi (e - 150))"
  consider (inf) "e = 255" "m = 0" | (zero) "e = 0" "m = 0" | (sub) "e = 0" "0 < m"
    | (norm) "0 < e" "e < 255"
    using assms e m by (auto simp: d split: if_splits)
  then show ?thesis
  proof cases
    case inf
    then have "f64_to_f32 (f32_to_f64 w) = word_of_int n" by (simp add: d f64_to_f32_def n)
    then show ?thesis using w by simp
  next
    case zero
    then have "f64_to_f32 (f32_to_f64 w) = word_of_int n"
      by (simp add: d f64_to_f32_def n f32_make_def f32_bits_def round_to_def)
    then show ?thesis using w by simp
  next
    case sub
    then have r: "r = of_int m * 2 powi - 149" by (simp add: r_def)
    have x: "round_to 24 (- 149) r = r" by (rule round24_exact [OF r]) (use sub m in auto)
    have "0 < r" unfolding r using sub by simp
    then have "f64_to_f32 (f32_to_f64 w) = f32_make s r"
      using sub by (auto simp: d f64_to_f32_def r_def Let_def)
    also have "\<dots> = word_of_int ((if s then 2147483648 else 0) + m)"
      unfolding f32_make_def x using f32_bits_subnormal [of m] sub m unfolding r by simp
    finally show ?thesis using sub by (simp add: w n)
  next
    case norm
    then have r: "r = of_int (8388608 + m) * 2 powi (e - 150)" by (simp add: r_def)
    have x: "round_to 24 (- 149) r = r" by (rule round24_exact [OF r]) (use norm m in auto)
    have "0 < r" unfolding r using m by simp
    moreover have "f32_to_f64 w = Num (if s then - r else r)" using norm by (simp add: d r_def)
    ultimately have "f64_to_f32 (f32_to_f64 w) = f32_make s r" by (auto simp: f64_to_f32_def)
    also have "\<dots> = word_of_int ((if s then 2147483648 else 0) + (e * 8388608 + m))"
      unfolding f32_make_def x using f32_bits_normal [of e m] norm m unfolding r by simp
    finally show ?thesis by (simp add: w n add.assoc)
  qed
qed

end
