(* ===== verification/Vector.thy ===== *)
theory Vector
  imports Store Float32
begin

text \<open>
  Error chains and their classification (\<^verbatim>\<open>internal/embed/errors.go\<close>), the packed vector layout
  and L2 normalisation (\<^verbatim>\<open>internal/embed/vector.go\<close>). Error messages are not rendered: an error
  keeps the format string and the arguments it was built from.
\<close>

unbundle bit_operations_syntax

section \<open>Errors\<close>

datatype farg = AInt int | AStr string

datatype go_error =
    Errorf string "farg list"
  | Wrapf string "farg list" go_error        \<comment> \<open>\<^verbatim>\<open>fmt.Errorf\<close> with \<^verbatim>\<open>%w\<close>\<close>
  | PermanentError go_error
  | StatusError nat string                   \<comment> \<open>a gRPC status: code and message format\<close>
  | PgError pg_error
  | CtxError                                 \<comment> \<open>\<^verbatim>\<open>ctx.Err()\<close>\<close>

definition Permanentf :: "string \<Rightarrow> farg list \<Rightarrow> go_error" where
  "Permanentf fmt args = PermanentError (Errorf fmt args)"

fun IsPermanent :: "go_error \<Rightarrow> bool" where
  "IsPermanent (PermanentError e) = True"
| "IsPermanent (Wrapf fmt args e) = IsPermanent e"
| "IsPermanent _ = False"

text \<open>\<^verbatim>\<open>status.Code\<close>: the code of the first status in the chain, \<^verbatim>\<open>Unknown\<close> (2) without one.\<close>

fun status_code :: "go_error \<Rightarrow> nat" where
  "status_code (StatusError c m) = c"
| "status_code (Wrapf fmt args e) = status_code e"
| "status_code (PermanentError e) = status_code e"
| "status_code _ = 2"

abbreviation (input) codes_Internal :: nat where
  "codes_Internal \<equiv> 13"

section \<open>Vectors\<close>

definition le_bytes :: "f32 \<Rightarrow> bytes" where
  "le_bytes w = [ucast w, ucast (drop_bit 8 w), ucast (drop_bit 16 w), ucast (drop_bit 24 w)]"

definition le_word :: "8 word \<Rightarrow> 8 word \<Rightarrow> 8 word \<Rightarrow> 8 word \<Rightarrow> f32" where
  "le_word a b c d =
     ucast a OR push_bit 8 (ucast b) OR push_bit 16 (ucast c) OR push_bit 24 (ucast d)"

definition PackVector :: "f32 list \<Rightarrow> bytes" where
  "PackVector v = concat (map le_bytes v)"

fun unpack_words :: "bytes \<Rightarrow> f32 list" where
  "unpack_words (a # b # c # d # bs) = le_word a b c d # unpack_words bs"
| "unpack_words _ = []"

definition UnpackVector :: "bytes \<Rightarrow> (go_error, f32 list) result" where
  "UnpackVector b =
     (if length b mod 4 \<noteq> 0
      then Inl (Errorf ''embed: packed vector length %d is not a multiple of 4'' [AInt (int (length b))])
      else Inr (unpack_words b))"

definition sum_squares :: "f32 list \<Rightarrow> f64" where
  "sum_squares v = foldl (\<lambda>s f. f64_add s (f64_mul (f32_to_f64 f) (f32_to_f64 f))) (Num 0) v"

definition L2Normalize :: "f32 list \<Rightarrow> f32 list" where
  "L2Normalize v =
     (let sum = sum_squares v in
      if f64_eq sum (Num 0) then v
      else let inv = f64_div (Num 1) (f64_sqrt sum)
           in map (\<lambda>f. f64_to_f32 (f64_mul (f32_to_f64 f) inv)) v)"

section \<open>The packed layout\<close>

lemma le_word_bytes [simp]:
  "le_word (ucast w) (ucast (drop_bit 8 w)) (ucast (drop_bit 16 w)) (ucast (drop_bit 24 w)) = w"
proof (rule bit_word_eqI)
  fix n assume "n < LENGTH(32)"
  then have "n < 8 \<or> (8 \<le> n \<and> n < 16) \<or> (16 \<le> n \<and> n < 24) \<or> (24 \<le> n \<and> n < 32)" by auto
  then show "bit (le_word (ucast w) (ucast (drop_bit 8 w)) (ucast (drop_bit 16 w)) (ucast (drop_bit 24 w))) n =
      bit w n"
    by (auto simp: le_word_def bit_simps)
qed

lemma le_bytes_word [simp]: "le_bytes (le_word a b c d) = [a, b, c, d]"
proof -
  have "ucast (le_word a b c d) = a" and "ucast (drop_bit 8 (le_word a b c d)) = b"
    and "ucast (drop_bit 16 (le_word a b c d)) = c" and "ucast (drop_bit 24 (le_word a b c d)) = d"
    by (rule bit_word_eqI; auto simp: le_word_def bit_simps dest: bit_imp_le_length)+
  then show ?thesis by (simp add: le_bytes_def)
qed

lemma length_PackVector: "length (PackVector v) = 4 * length v"
  by (induction v) (auto simp: PackVector_def le_bytes_def)

lemma unpack_pack: "unpack_words (PackVector v) = v"
  by (induction v) (auto simp: PackVector_def le_bytes_def)

lemma UnpackVector_Pack [simp]: "UnpackVector (PackVector v) = Inr v"
  by (simp add: UnpackVector_def length_PackVector unpack_pack)

lemma pack_unpack: "length b mod 4 = 0 \<Longrightarrow> PackVector (unpack_words b) = b"
proof (induction b rule: unpack_words.induct)
  case (1 a b c d bs)
  then show ?case by (simp add: PackVector_def)
qed (auto simp: PackVector_def)

lemma length_unpack: "length (unpack_words b) = length b div 4"
  by (induction b rule: unpack_words.induct) auto

section \<open>Normalisation never makes a NaN\<close>

lemma powi_int_mult_ge: "0 < r \<Longrightarrow> r = of_int m * 2 powi q \<Longrightarrow> (2 :: rat) powi q \<le> r"
proof -
  assume r: "0 < r" "r = of_int m * 2 powi q"
  then have "0 < m" by (metis mult_le_0_iff not_less of_int_le_0_iff powi2_pos less_imp_le)
  then have "(1 :: rat) \<le> of_int m" by simp
  then have "1 * (2 :: rat) powi q \<le> of_int m * 2 powi q" by (intro mult_right_mono) auto
  then show ?thesis using r by simp
qed

lemma f64_ok_lower:
  assumes "f64_ok (Num r)" and "0 < r"
  shows "- 1074 \<le> ilog2 r"
proof -
  let ?q = "quantum 53 (- 1074) r"
  have "r = of_int (rne (r / 2 powi ?q)) * 2 powi ?q"
    using assms by (simp add: f64_ok_def rnd64_def round_to_def round_pos_def)
  then have "(2 :: rat) powi ?q \<le> r" by (rule powi_int_mult_ge [OF assms(2)])
  moreover have "(2 :: rat) powi - 1074 \<le> 2 powi ?q" unfolding powi2_le_iff by (simp add: quantum_def)
  ultimately have "(2 :: rat) powi - 1074 < 2 powi (ilog2 r + 1)"
    using ilog2_bounds(2) [OF assms(2)] by linarith
  then show ?thesis unfolding powi2_less_iff by linarith
qed

lemma f64_sqrt_lower:
  assumes "0 < r"
  obtains q where "f64_sqrt (Num r) = Num q" and "2 powi (ilog2 r div 2) \<le> q"
proof -
  define e where "e = ilog2 r div 2 - 52"
  define x where "x = r / 2 powi (2 * e)"
  define m where "m = isqrt \<lfloor>x\<rfloor>"
  define n where "n = (if x < (of_int m + 1 / 2) * (of_int m + 1 / 2) \<or>
    (x = (of_int m + 1 / 2) * (of_int m + 1 / 2) \<and> even m) then m else m + 1)"
  have "(2 :: rat) powi (ilog2 r) / 2 powi (2 * e) \<le> x"
    unfolding x_def using ilog2_bounds(1) [OF assms] by (intro divide_right_mono) auto
  moreover have "(2 :: rat) powi 104 \<le> 2 powi (ilog2 r - 2 * e)"
    unfolding powi2_le_iff e_def by presburger
  ultimately have "of_int (2 ^ 104) \<le> x" by (simp add: powi2_diff)
  then have fl: "2 ^ 104 \<le> \<lfloor>x\<rfloor>" by (simp only: le_floor_iff)
  then have "\<lfloor>x\<rfloor> < (m + 1) * (m + 1)" and "0 \<le> m" using isqrt_bounds [of "\<lfloor>x\<rfloor>"] by (auto simp: m_def)
  then have m: "2 ^ 52 \<le> m"
  proof -
    have "2 ^ 104 < (m + 1) * (m + 1)" using fl \<open>\<lfloor>x\<rfloor> < (m + 1) * (m + 1)\<close> by (rule le_less_trans)
    then have "(2 ^ 52) * (2 ^ 52) < (m + 1) * (m + 1)" by simp
    then show ?thesis using \<open>0 \<le> m\<close> mult_mono [of "m + 1" "2 ^ 52" "m + 1" "2 ^ 52"] by linarith
  qed
  have "f64_sqrt (Num r) = Num (of_int n * 2 powi e)"
    using assms by (simp add: f64_sqrt_def Let_def e_def x_def m_def n_def)
  moreover have "2 powi (ilog2 r div 2) \<le> of_int n * (2 :: rat) powi e"
  proof -
    have "(of_int (2 ^ 52) :: rat) \<le> of_int n" using m unfolding of_int_le_iff by (simp add: n_def)
    then have "of_int (2 ^ 52) * (2 :: rat) powi e \<le> of_int n * 2 powi e" by (intro mult_right_mono) auto
    moreover have "of_int (2 ^ 52) * (2 :: rat) powi e = 2 powi (ilog2 r div 2)"
      using power_int_add [of "2 :: rat" 52 e] by (simp add: e_def)
    ultimately show ?thesis by (simp only:)
  qed
  ultimately show ?thesis by (rule that)
qed

lemma mk64_fin:
  assumes "\<bar>r\<bar> \<le> 2 powi k" and "0 \<le> k" and "k \<le> 1000"
  shows "is_fin (mk64 n r)"
proof -
  have "rnd64 (2 powi k) = 2 powi k"
  proof -
    have "ilog2 (2 powi k) = k" by (rule ilog2_eqI) (auto simp: powi2_less_iff)
    then have "quantum 53 (- 1074) (2 powi k) \<le> k" using assms(2) by (simp add: quantum_def)
    then show ?thesis
      using binary64.round_pos_exact [of "2 powi k" 1 k] by (simp add: rnd64_def round_to_def)
  qed
  moreover have "rnd64 (- x) = - rnd64 x" if "0 < x" for x
    using that by (simp add: rnd64_def round_to_def)
  note this [OF powi2_pos [of k]]
  ultimately have "\<bar>rnd64 r\<bar> \<le> 2 powi k"
    using rnd64_mono [of r "2 powi k"] rnd64_mono [of "- (2 powi k)" r] assms(1) by (simp add: abs_le_iff)
  then have "ilog2 \<bar>rnd64 r\<bar> < 1024" if "rnd64 r \<noteq> 0"
  proof -
    have "(2 :: rat) powi ilog2 \<bar>rnd64 r\<bar> \<le> 2 powi k"
      using ilog2_bounds(1) [of "\<bar>rnd64 r\<bar>"] that \<open>\<bar>rnd64 r\<bar> \<le> 2 powi k\<close> by simp
    then show ?thesis unfolding powi2_le_iff using assms(3) by simp
  qed
  then show ?thesis by (cases "rnd64 r = 0") (auto simp: mk64_def Let_def is_fin_def is_inf_def)
qed

lemma inverse_sqrt_fin:
  assumes "f64_ok (Num r)" and "0 < r"
  shows "is_fin (f64_div (Num 1) (f64_sqrt (Num r)))"
proof -
  obtain q where q: "f64_sqrt (Num r) = Num q" "2 powi (ilog2 r div 2) \<le> q"
    using f64_sqrt_lower [OF assms(2)] .
  have "- 537 \<le> ilog2 r div 2" using f64_ok_lower [OF assms] by linarith
  then have "(2 :: rat) powi - 537 \<le> q" using q(2) powi2_le_iff [of "- 537" "ilog2 r div 2"] by linarith
  then have "0 < q" and "1 / q \<le> 1 / 2 powi - 537"
    using powi2_pos [of "- 537"] by (linarith, intro divide_left_mono) auto
  moreover have "1 / (2 :: rat) powi - 537 = 2 powi 537" by (simp add: power_int_minus_divide)
  ultimately have "is_fin (mk64 False (1 / q))" by (intro mk64_fin [of _ 537]) auto
  then show ?thesis using \<open>0 < q\<close> by (simp add: q f64_div_def is_inf_def is_neg_def not_less)
qed

definition f32_finite :: "f32 \<Rightarrow> bool" where
  "f32_finite w \<longleftrightarrow> is_fin (f32_to_f64 w)"

definition nonneg_sum :: "f64 \<Rightarrow> bool" where
  "nonneg_sum a \<longleftrightarrow> f64_ok a \<and> (case a of PInf \<Rightarrow> True | Num r \<Rightarrow> 0 \<le> r | _ \<Rightarrow> False)"

lemma mk64_nonneg: "0 \<le> r \<Longrightarrow> nonneg_sum (mk64 False r)"
  using rnd64_nonneg [of r] mk64_ok [of False r] by (auto simp: nonneg_sum_def mk64_def Let_def)

lemma square_nonneg_sum: "is_fin a \<Longrightarrow> nonneg_sum (f64_mul a a)"
  using mk64_nonneg [of "fval a * fval a"] by (auto simp: f64_mul_def is_fin_def)

lemma nonneg_sumD: "nonneg_sum a \<Longrightarrow> a = PInf \<or> (\<exists>r. a = Num r \<and> 0 \<le> r \<and> f64_ok (Num r))"
  by (cases a) (auto simp: nonneg_sum_def)

lemma add_nonneg_sum:
  assumes "nonneg_sum a" and "nonneg_sum b"
  shows "nonneg_sum (f64_add a b)"
proof -
  have "nonneg_sum PInf" by (simp add: nonneg_sum_def f64_ok_def)
  then show ?thesis
    using nonneg_sumD [OF assms(1)] nonneg_sumD [OF assms(2)]
    by (elim disjE exE conjE) (simp_all add: f64_add_def is_inf_def mk64_nonneg)
qed

lemma sum_squares_nonneg:
  assumes "list_all f32_finite v"
  shows "nonneg_sum (sum_squares v)"
proof -
  have "nonneg_sum (foldl (\<lambda>s f. f64_add s (f64_mul (f32_to_f64 f) (f32_to_f64 f))) s v)"
    if "nonneg_sum s" for s
    using assms that
    by (induction v arbitrary: s) (auto simp: f32_finite_def add_nonneg_sum square_nonneg_sum)
  moreover have "nonneg_sum (Num 0)" by (simp add: nonneg_sum_def f64_ok_def)
  ultimately show ?thesis by (simp add: sum_squares_def)
qed

lemma f32_bits_range:
  assumes "0 \<le> r"
  shows "0 \<le> f32_bits r \<and> f32_bits r \<le> 2139095040"
proof (cases "r = 0")
  case False
  with assms have r: "0 < r" by simp
  define k where "k = ilog2 r"
  have b: "2 powi k \<le> r" "r < 2 powi (k + 1)" using ilog2_bounds [OF r] by (simp_all add: k_def)
  have hi: "\<lfloor>r / 2 powi j\<rfloor> < 2 ^ nat (k + 1 - j)" if "j \<le> k + 1" for j
  proof -
    have "r / 2 powi j < 2 powi (k + 1) / 2 powi j" using b by (intro divide_strict_right_mono) auto
    also have "\<dots> = of_int (2 ^ nat (k + 1 - j))" unfolding powi2_diff using that by (simp add: powi2_int)
    finally show ?thesis by (simp only: floor_less_iff)
  qed
  have lo: "0 \<le> \<lfloor>r / 2 powi j\<rfloor>" for j using r by simp
  consider (big) "128 \<le> k" | (sub) "k < - 126" | (norm) "- 126 \<le> k" "k < 128" by linarith
  then show ?thesis
  proof cases
    case sub
    have "r < 2 powi (- 126)" using b(2) sub powi2_le_iff [of "k + 1" "- 126"] by linarith
    then have "r / 2 powi - 149 < 2 powi - 126 / 2 powi - 149" by (intro divide_strict_right_mono) auto
    also have "\<dots> = of_int (2 ^ 23)" by (simp add: powi2_diff)
    finally have "\<lfloor>r / 2 powi - 149\<rfloor> < 2 ^ 23" by (simp only: floor_less_iff)
    moreover have "f32_bits r = \<lfloor>r / 2 powi - 149\<rfloor>" using sub r by (simp add: f32_bits_def k_def)
    moreover have "F \<le> 2139095040" if "F < 2 ^ 23" for F :: int using that by simp
    ultimately show ?thesis using lo [of "- 149"] by (simp only:)
  next
    case norm
    have "2 powi k / 2 powi (k - 23) \<le> r / 2 powi (k - 23)" using b by (intro divide_right_mono) auto
    then have "of_int 8388608 \<le> r / 2 powi (k - 23)" by (simp add: powi2_diff)
    then have "8388608 \<le> \<lfloor>r / 2 powi (k - 23)\<rfloor>" by (simp only: le_floor_iff)
    moreover have "\<lfloor>r / 2 powi (k - 23)\<rfloor> < 16777216" using hi [of "k - 23"] by simp
    moreover have "f32_bits r = (k + 127) * 8388608 + (\<lfloor>r / 2 powi (k - 23)\<rfloor> - 8388608)"
      using norm r by (simp add: f32_bits_def k_def Let_def)
    moreover have "0 \<le> B \<and> B \<le> 2139095040"
      if "8388608 \<le> F" "F < 16777216" "B = (k + 127) * 8388608 + (F - 8388608)" for F B
      using that norm by auto
    ultimately show ?thesis by blast
  qed (use r in \<open>simp add: f32_bits_def k_def\<close>)
qed (simp add: f32_bits_def)

lemma f32_not_NaN:
  assumes "0 \<le> n \<and> n \<le> 2139095040"
  shows "f32_to_f64 (word_of_int ((if s then 2147483648 else 0) + n)) \<noteq> NaN"
proof -
  define N where "N = (if s then 2147483648 else 0) + n"
  have lt: "0 \<le> N" "N < 4294967296" using assms by (simp_all add: N_def)
  then have u: "uint (word_of_int N :: f32) = N" by (simp add: uint_word_of_int)
  have "N mod 8388608 = 0" if "N div 8388608 mod 256 = 255"
  proof -
    have "N div 8388608 = (if s then 256 else 0) + n div 8388608" by (auto simp: N_def)
    moreover have le: "0 \<le> n div 8388608" "n div 8388608 \<le> 255" using assms by auto
    ultimately have "n div 8388608 = 255" using that by (cases s) simp_all
    then have "n = 2139095040" using assms by linarith
    then show ?thesis by (simp add: N_def)
  qed
  then show ?thesis unfolding N_def [symmetric] f32_to_f64_def u by (simp add: Let_def)
qed

lemma f64_to_f32_not_NaN: "a \<noteq> NaN \<Longrightarrow> f32_to_f64 (f64_to_f32 a) \<noteq> NaN"
proof (cases a)
  case (Num r)
  have "0 \<le> round_to 24 (- 149) \<bar>r\<bar>"
    using binary32.round_to_mono [of 0 "\<bar>r\<bar>"] by (simp add: round_to_def [of _ _ 0])
  then show ?thesis unfolding Num f64_to_f32_def f64.case f32_make_def
    by (intro f32_not_NaN f32_bits_range)
qed (simp_all add: f64_to_f32_def f32_to_f64_def)

text \<open>Normalising a vector of finite floats keeps its length and produces no NaN, whatever the
  magnitudes (a sum of squares that overflows included); a vector whose sum of squares is zero is
  returned unchanged.\<close>

theorem L2Normalize_no_NaN:
  assumes "list_all f32_finite v"
  shows "length (L2Normalize v) = length v \<and>
    list_all (\<lambda>f. f32_to_f64 f \<noteq> NaN) (L2Normalize v) \<and>
    (f64_eq (sum_squares v) (Num 0) \<longrightarrow> L2Normalize v = v)"
proof (cases "f64_eq (sum_squares v) (Num 0)")
  case True
  then show ?thesis using assms
    by (auto simp: L2Normalize_def list_all_iff f32_finite_def is_fin_def)
next
  case False
  define inv where "inv = f64_div (Num 1) (f64_sqrt (sum_squares v))"
  have "is_fin inv"
    using nonneg_sumD [OF sum_squares_nonneg [OF assms]]
  proof (elim disjE exE conjE)
    assume "sum_squares v = PInf"
    then show ?thesis by (simp add: inv_def f64_sqrt_def f64_div_def is_fin_def is_inf_def)
  next
    fix r assume r: "sum_squares v = Num r" "0 \<le> r" "f64_ok (Num r)"
    with False have "0 < r" by (auto simp: f64_eq_def)
    then show ?thesis using r inverse_sqrt_fin by (simp add: inv_def)
  qed
  then have "f64_mul (f32_to_f64 f) inv \<noteq> NaN" if "f \<in> set v" for f
    using assms that by (auto simp: list_all_iff f32_finite_def is_fin_def f64_mul_def Let_def)
  then have "list_all (\<lambda>f. f32_to_f64 f \<noteq> NaN) (map (\<lambda>f. f64_to_f32 (f64_mul (f32_to_f64 f) inv)) v)"
    by (auto simp: list_all_iff f64_to_f32_not_NaN)
  then show ?thesis using False by (simp add: L2Normalize_def inv_def Let_def)
qed

theorem L2Normalize_no_NaN_witness:
  "list_all (\<lambda>f. f32_to_f64 f \<noteq> NaN) (L2Normalize [1077936128, 1082130432])"
proof -
  have "list_all f32_finite [1077936128, 1082130432]" by code_simp
  then show ?thesis by (rule L2Normalize_no_NaN [THEN conjunct2, THEN conjunct1])
qed

text \<open>C24. Packing and unpacking are inverse: unpacking a packed vector gives its floats bit for bit,
  packing what a blob unpacks to gives the blob, and a blob unpacks exactly when its length is a
  multiple of four, to a quarter as many floats.\<close>

theorem pack_roundtrip:
  "UnpackVector (PackVector v) = Inr v \<and> length (PackVector v) = 4 * length v \<and>
   (case UnpackVector b of
      Inr u \<Rightarrow> PackVector u = b \<and> 4 * length u = length b
    | Inl e \<Rightarrow> length b mod 4 \<noteq> 0 \<and> \<not> IsPermanent e)"
  using pack_unpack [of b] length_unpack [of b]
  by (auto simp: length_PackVector unpack_pack UnpackVector_def)

lemma L2Normalize_length [simp]: "length (L2Normalize v) = length v"
  by (simp add: L2Normalize_def Let_def)

end
