(* ===== verification/Embed.thy ===== *)
theory Embed
  imports Vector Sha256
begin

text \<open>
  Turning text into vectors (\<^verbatim>\<open>internal/embed\<close> and the retry wrappers of \<^verbatim>\<open>cmd/server\<close> and
  \<^verbatim>\<open>cmd/client\<close>): the persistent embedding cache, the prefixing client, the gRPC transport and the
  bounded retries around it. A transport is a state-passing function from a text to a result: the
  state stands for everything behind the connection, so the number and the arguments of the calls
  are visible in it.
\<close>

section \<open>The embedding cache\<close>

text \<open>A row of \<^verbatim>\<open>embedding_cache\<close>, without its \<^verbatim>\<open>created_at\<close>, which no statement reads.\<close>

record cache_row =
  cr_content_hash :: bytes
  cr_model :: string
  cr_task_prefix :: string
  cr_dims :: int16
  cr_vector :: bytes

definition CacheKey :: "string \<Rightarrow> bytes" where
  "CacheKey prefixedText = sha256 (string_bytes prefixedText)"

definition cache_match :: "bytes \<Rightarrow> string \<Rightarrow> string \<Rightarrow> cache_row \<Rightarrow> bool" where
  "cache_match key model taskPrefix r \<longleftrightarrow>
     cr_content_hash r = key \<and> cr_model r = model \<and> cr_task_prefix r = taskPrefix"

text \<open>The fault argument is the error of the statement, if the database answers with one.\<close>

definition CacheGet ::
  "pg_error option \<Rightarrow> bytes \<Rightarrow> string \<Rightarrow> string \<Rightarrow> cache_row list \<Rightarrow> (go_error, f32 list option) result" where
  "CacheGet fault key model taskPrefix t =
     (case fault of
        Some e \<Rightarrow> Inl (Wrapf ''embed: cache get: %w'' [] (PgError e))
      | None \<Rightarrow>
         (case find (cache_match key model taskPrefix) t of
            None \<Rightarrow> Inr None
          | Some r \<Rightarrow>
             (case UnpackVector (cr_vector r) of Inl e \<Rightarrow> Inl e | Inr vec \<Rightarrow> Inr (Some vec))))"

definition CachePut ::
  "pg_error option \<Rightarrow> bytes \<Rightarrow> string \<Rightarrow> string \<Rightarrow> f32 list \<Rightarrow> cache_row list \<Rightarrow>
     (go_error, unit) result \<times> cache_row list" where
  "CachePut fault key model taskPrefix vec t =
     (case fault of
        Some e \<Rightarrow> (Inl (Wrapf ''embed: cache put: %w'' [] (PgError e)), t)
      | None \<Rightarrow>
         (Inr (),
          if list_ex (cache_match key model taskPrefix) t then t
          else t @ [\<lparr>cr_content_hash = key, cr_model = model, cr_task_prefix = taskPrefix,
                     cr_dims = of_nat (length vec), cr_vector = PackVector vec\<rparr>]))"

section \<open>The prefixing client\<close>

type_synonym 's embedder = "string \<Rightarrow> 's \<Rightarrow> (go_error, f32 list) result \<times> 's"

definition DocumentPrefix :: string where
  "DocumentPrefix = ''search_document: ''"

definition QueryPrefix :: string where
  "QueryPrefix = ''search_query: ''"

definition Dims :: nat where
  "Dims = 768"

definition Model :: string where
  "Model = ''nomic-embed-text-v1.5''"

definition HasPrefix :: "string \<Rightarrow> string \<Rightarrow> bool" where
  "HasPrefix s p \<longleftrightarrow> extends p s"

text \<open>\<^verbatim>\<open>cDB\<close> says whether the persistent cache is there (\<^verbatim>\<open>db != nil\<close>); its table is in the state.\<close>

record 's Client =
  cTransport :: "'s embedder"
  cDB :: bool
  cModel :: string

definition NewClient :: "'s embedder \<Rightarrow> bool \<Rightarrow> 's Client" where
  "NewClient transport db = \<lparr>cTransport = transport, cDB = db, cModel = Model\<rparr>"

record db_faults =
  get_fault :: "pg_error option"
  put_fault :: "pg_error option"

definition embed ::
  "'s Client \<Rightarrow> db_faults \<Rightarrow> string \<Rightarrow> string \<Rightarrow> cache_row list \<times> 's \<Rightarrow>
     (go_error, f32 list) result \<times> (cache_row list \<times> 's)" where
  "embed c fl raw prefix w =
     (case w of (t, s) \<Rightarrow>
      if HasPrefix raw DocumentPrefix \<or> HasPrefix raw QueryPrefix then
        (Inl (Permanentf ''embed: text already carries a nomic task prefix; pass raw text: %.40q''
                [AStr raw]), (t, s))
      else
        let prefixed = prefix @ raw; key = CacheKey prefixed;
            cached = (if cDB c then CacheGet (get_fault fl) key (cModel c) prefix t else Inr None)
        in (case cached of
              Inl e \<Rightarrow> (Inl e, (t, s))
            | Inr (Some vec) \<Rightarrow> (Inr vec, (t, s))
            | Inr None \<Rightarrow>
                (case cTransport c prefixed s of
                   (Inl e, s') \<Rightarrow> (Inl e, (t, s'))
                 | (Inr vec, s') \<Rightarrow>
                     if length vec \<noteq> Dims then
                       (Inl (Permanentf ''embed: embedder returned %d dims, want %d''
                               [AInt (int (length vec)), AInt (int Dims)]), (t, s'))
                     else let vec' = L2Normalize vec
                          in (Inr vec',
                              (if cDB c then snd (CachePut (put_fault fl) key (cModel c) prefix vec' t)
                               else t, s')))))"

definition EmbedDocument ::
  "'s Client \<Rightarrow> db_faults \<Rightarrow> string \<Rightarrow> cache_row list \<times> 's \<Rightarrow>
     (go_error, f32 list) result \<times> (cache_row list \<times> 's)" where
  "EmbedDocument c fl raw = embed c fl raw DocumentPrefix"

definition EmbedQuery ::
  "'s Client \<Rightarrow> db_faults \<Rightarrow> string \<Rightarrow> cache_row list \<times> 's \<Rightarrow>
     (go_error, f32 list) result \<times> (cache_row list \<times> 's)" where
  "EmbedQuery c fl raw = embed c fl raw QueryPrefix"

section \<open>The gRPC transport and the retry wrappers\<close>

text \<open>\<open>limiter\<close> is the rate limiter: \<^const>\<open>None\<close> when there is none, else the outcome of waiting for it;
  \<open>cli\<close> is the generated client, which answers a text and a task type.\<close>

definition GRPCEmbedder_Embed ::
  "(go_error, unit) result option \<Rightarrow> (string \<times> string \<Rightarrow> 's \<Rightarrow> (go_error, f32 list) result \<times> 's) \<Rightarrow> 's embedder"
  where
  "GRPCEmbedder_Embed limiter cli text s =
     (case limiter of
        Some (Inl e) \<Rightarrow> (Inl e, s)
      | _ \<Rightarrow>
         let task = (if HasPrefix text QueryPrefix then ''search_query'' else ''search_document'')
         in (case cli (text, task) s of
               (Inl err, s') \<Rightarrow>
                  (if status_code err = codes_Internal then (Inl (PermanentError err), s') else (Inl err, s'))
             | (Inr vec, s') \<Rightarrow>
                  (if length vec \<noteq> Dims
                   then (Inl (Permanentf ''embed: rpc returned %d dims, want %d''
                                [AInt (int (length vec)), AInt (int Dims)]), s')
                   else (Inr vec, s'))))"

text \<open>The result of \<^verbatim>\<open>return nil, lastErr\<close>: a nil error is a success with the nil slice.\<close>

definition nil_or_err :: "go_error option \<Rightarrow> (go_error, f32 list) result" where
  "nil_or_err lastErr = (case lastErr of None \<Rightarrow> Inr [] | Some e \<Rightarrow> Inl e)"

fun dims_loop :: "nat \<Rightarrow> 's embedder \<Rightarrow> string \<Rightarrow> go_error option \<Rightarrow> 's \<Rightarrow> (go_error, f32 list) result \<times> 's" where
  "dims_loop 0 inner text lastErr s = (nil_or_err lastErr, s)"
| "dims_loop (Suc n) inner text lastErr s =
     (case inner text s of
        (Inr vec, s') \<Rightarrow> (Inr vec, s')
      | (Inl e, s') \<Rightarrow> if IsPermanent e then dims_loop n inner text (Some e) s' else (Inl e, s'))"

definition dimsRetryEmbedder_Embed :: "int \<Rightarrow> 's embedder \<Rightarrow> 's embedder" where
  "dimsRetryEmbedder_Embed retries inner text s = dims_loop (nat (retries + 1)) inner text None s"

text \<open>\<open>cancelled i\<close> says that the context ends during the pause before try \<open>i\<close>.\<close>

fun transient_loop ::
  "nat \<Rightarrow> nat \<Rightarrow> (nat \<Rightarrow> bool) \<Rightarrow> 's embedder \<Rightarrow> string \<Rightarrow> go_error option \<Rightarrow> 's \<Rightarrow> (go_error, f32 list) result \<times> 's"
  where
  "transient_loop 0 i cancelled inner text lastErr s = (nil_or_err lastErr, s)"
| "transient_loop (Suc n) i cancelled inner text lastErr s =
     (if 0 < i \<and> cancelled i then (Inl CtxError, s)
      else case inner text s of
        (Inr vec, s') \<Rightarrow> (Inr vec, s')
      | (Inl e, s') \<Rightarrow>
          if IsPermanent e then (Inl e, s')
          else transient_loop n (i + 1) cancelled inner text (Some e) s')"

definition transientRetryEmbedder_Embed :: "int \<Rightarrow> (nat \<Rightarrow> bool) \<Rightarrow> 's embedder \<Rightarrow> 's embedder" where
  "transientRetryEmbedder_Embed retries cancelled inner text s =
     transient_loop (nat (retries + 1)) 0 cancelled inner text None s"

section \<open>The contract of a vector source\<close>

text \<open>What the callers of an embedder rely on: a success has \<^const>\<open>Dims\<close> floats, as long as the
  state it runs in is good, and every call keeps the state good.\<close>

locale vec_source =
  fixes emb :: "string \<Rightarrow> 'w \<Rightarrow> (go_error, f32 list) result \<times> 'w" and ok :: "'w \<Rightarrow> bool"
  assumes dims: "ok w \<Longrightarrow> fst (emb raw w) = Inr v \<Longrightarrow> length v = Dims"
    and keeps: "ok w \<Longrightarrow> ok (snd (emb raw w))"
begin

lemma dims_loop_dims:
  "ok w \<Longrightarrow> fst (dims_loop n emb raw lastErr w) = Inr v \<Longrightarrow> lastErr \<noteq> None \<or> 0 < n \<Longrightarrow> length v = Dims"
proof (induction n arbitrary: w lastErr)
  case 0
  then show ?case by (auto simp: nil_or_err_def)
next
  case (Suc n)
  then show ?case using keeps [of w raw] dims [of w raw v]
    by (auto split: prod.splits sum.splits if_splits)
qed

lemma dims_loop_keeps: "ok w \<Longrightarrow> ok (snd (dims_loop n emb raw lastErr w))"
proof (induction n arbitrary: w lastErr)
  case (Suc n)
  then show ?case using keeps [of w raw] by (auto split: prod.splits sum.splits)
qed simp

lemma transient_loop_dims:
  "ok w \<Longrightarrow> fst (transient_loop n i cancelled emb raw lastErr w) = Inr v \<Longrightarrow>
     lastErr \<noteq> None \<or> 0 < n \<Longrightarrow> length v = Dims"
proof (induction n arbitrary: w i lastErr)
  case 0
  then show ?case by (auto simp: nil_or_err_def)
next
  case (Suc n)
  then show ?case using keeps [of w raw] dims [of w raw v]
    by (auto split: prod.splits sum.splits if_splits)
qed

lemma transient_loop_keeps: "ok w \<Longrightarrow> ok (snd (transient_loop n i cancelled emb raw lastErr w))"
proof (induction n arbitrary: w i lastErr)
  case (Suc n)
  then show ?case using keeps [of w raw] by (auto split: prod.splits sum.splits)
qed simp

end

text \<open>The retry wrappers keep the contract when they try at least once.\<close>

locale retried_source = vec_source +
  fixes retries :: int
  assumes tries: "0 \<le> retries"

sublocale retried_source \<subseteq> re_ask: vec_source "dimsRetryEmbedder_Embed retries emb" ok
proof
  show "length v = Dims" if "ok w" "fst (dimsRetryEmbedder_Embed retries emb raw w) = Inr v" for w raw v
    using dims_loop_dims [OF that(1), of "nat (retries + 1)" raw None v] that(2) tries
    by (simp add: dimsRetryEmbedder_Embed_def)
  show "ok (snd (dimsRetryEmbedder_Embed retries emb raw w))" if "ok w" for w raw
    using dims_loop_keeps [OF that] by (simp add: dimsRetryEmbedder_Embed_def)
qed

sublocale retried_source \<subseteq> re_try: vec_source "transientRetryEmbedder_Embed retries cancelled emb" ok
  for cancelled
proof
  show "length v = Dims"
    if "ok w" "fst (transientRetryEmbedder_Embed retries cancelled emb raw w) = Inr v" for w raw v
    using transient_loop_dims [OF that(1), of "nat (retries + 1)" 0 cancelled raw None v] that(2) tries
    by (simp add: transientRetryEmbedder_Embed_def)
  show "ok (snd (transientRetryEmbedder_Embed retries cancelled emb raw w))" if "ok w" for w raw
    using transient_loop_keeps [OF that] by (simp add: transientRetryEmbedder_Embed_def)
qed

interpretation grpc: vec_source "GRPCEmbedder_Embed limiter cli" "\<lambda>_. True" for limiter cli
proof
  show "length v = Dims" if "fst (GRPCEmbedder_Embed limiter cli raw w) = Inr v" for w raw v
    using that
    by (auto simp: GRPCEmbedder_Embed_def Let_def split: option.splits sum.splits prod.splits if_splits)
qed simp

text \<open>The server's transport re-asks twice.\<close>

interpretation server_transport: retried_source "GRPCEmbedder_Embed None cli" "\<lambda>_. True" 2 for cli
  by unfold_locales simp

section \<open>The cache\<close>

definition row_key :: "cache_row \<Rightarrow> bytes \<times> string \<times> string" where
  "row_key r = (cr_content_hash r, cr_model r, cr_task_prefix r)"

definition cache_ok :: "cache_row list \<Rightarrow> bool" where
  "cache_ok t \<longleftrightarrow> distinct (map row_key t) \<and> list_all (\<lambda>r. length (cr_vector r) = 4 * Dims) t"

definition double_prefixed :: "string \<Rightarrow> bool" where
  "double_prefixed raw \<longleftrightarrow> HasPrefix raw DocumentPrefix \<or> HasPrefix raw QueryPrefix"

lemma cache_match_key: "cache_match k m p r \<longleftrightarrow> row_key r = (k, m, p)"
  by (auto simp: cache_match_def row_key_def)

lemma CachePut_ok: "cache_ok t \<Longrightarrow> length v = Dims \<Longrightarrow> cache_ok (snd (CachePut f k m p v t))"
  by (auto simp: cache_ok_def CachePut_def list_ex_iff cache_match_key length_PackVector row_key_def
      split: option.splits)

lemma CachePut_extends: "extends t (snd (CachePut f k m p v t))"
  by (auto simp: CachePut_def split: option.splits)

lemma CacheGet_extends:
  "CacheGet None k m p t = Inr (Some v) \<Longrightarrow> extends t t' \<Longrightarrow> CacheGet None k m p t' = Inr (Some v)"
  by (auto simp: CacheGet_def extends_iff find_append split: option.splits)

lemma CacheGet_dims: "cache_ok t \<Longrightarrow> CacheGet f k m p t = Inr (Some v) \<Longrightarrow> length v = Dims"
  by (auto simp: CacheGet_def cache_ok_def list_all_iff UnpackVector_def length_unpack Dims_def find_Some_iff
      split: option.splits if_splits)

lemma CacheGet_put:
  "CacheGet f k m p t = Inr None \<Longrightarrow> CacheGet None k m p (snd (CachePut None k m p v t)) = Inr (Some v)"
proof -
  assume "CacheGet f k m p t = Inr None"
  then have n: "find (cache_match k m p) t = None"
    by (auto simp: CacheGet_def split: option.splits sum.splits)
  then have "\<not> list_ex (cache_match k m p) t" by (auto simp: list_ex_iff find_None_iff)
  then show ?thesis by (simp add: CacheGet_def CachePut_def find_append n cache_match_def)
qed

text \<open>The three ways \<^const>\<open>embed\<close> can go, once the text is raw.\<close>

lemma embed_raw_cases:
  assumes "\<not> double_prefixed raw"
  obtains (hit) v where "cDB c" and "CacheGet (get_fault fl) (CacheKey (prefix @ raw)) (cModel c) prefix t = Inr (Some v)"
      and "embed c fl raw prefix (t, s) = (Inr v, (t, s))"
    | (cache_error) e where "cDB c"
      and "CacheGet (get_fault fl) (CacheKey (prefix @ raw)) (cModel c) prefix t = Inl e"
      and "embed c fl raw prefix (t, s) = (Inl e, (t, s))"
    | (failed) e where "embed c fl raw prefix (t, s) = (Inl e, (t, snd (cTransport c (prefix @ raw) s)))"
      and "fst (cTransport c (prefix @ raw) s) = Inl e"
    | (bad_dims) u where "fst (cTransport c (prefix @ raw) s) = Inr u" and "length u \<noteq> Dims"
      and "embed c fl raw prefix (t, s) =
        (Inl (Permanentf ''embed: embedder returned %d dims, want %d'' [AInt (int (length u)), AInt (int Dims)]),
         (t, snd (cTransport c (prefix @ raw) s)))"
    | (fresh) u where "fst (cTransport c (prefix @ raw) s) = Inr u" and "length u = Dims"
      and "cDB c \<Longrightarrow> CacheGet (get_fault fl) (CacheKey (prefix @ raw)) (cModel c) prefix t = Inr None"
      and "embed c fl raw prefix (t, s) =
        (Inr (L2Normalize u),
         (if cDB c then snd (CachePut (put_fault fl) (CacheKey (prefix @ raw)) (cModel c) prefix (L2Normalize u) t)
          else t, snd (cTransport c (prefix @ raw) s)))"
proof -
  let ?g = "if cDB c then CacheGet (get_fault fl) (CacheKey (prefix @ raw)) (cModel c) prefix t else Inr None"
  obtain r s' where tr: "cTransport c (prefix @ raw) s = (r, s')" by force
  have e: "embed c fl raw prefix (t, s) =
      (case ?g of
         Inl e \<Rightarrow> (Inl e, (t, s))
       | Inr (Some vec) \<Rightarrow> (Inr vec, (t, s))
       | Inr None \<Rightarrow> (case r of Inl e \<Rightarrow> (Inl e, (t, s')) | Inr vec \<Rightarrow>
           if length vec \<noteq> Dims then
             (Inl (Permanentf ''embed: embedder returned %d dims, want %d'' [AInt (int (length vec)), AInt (int Dims)]), (t, s'))
           else (Inr (L2Normalize vec),
             (if cDB c then snd (CachePut (put_fault fl) (CacheKey (prefix @ raw)) (cModel c) prefix (L2Normalize vec) t)
              else t, s'))))"
    using assms unfolding embed_def double_prefixed_def Let_def prod.case tr
    by (cases ?g) (auto split: option.splits)
  show thesis
  proof (cases ?g)
    case (Inl er)
    then show thesis using e by (intro cache_error [of er]) (auto split: if_splits)
  next
    case (Inr o1)
    show thesis
    proof (cases o1)
      case (Some v)
      then show thesis using e Inr by (intro hit [of v]) (auto split: if_splits)
    next
      case None
      show thesis
      proof (cases r)
        case (Inl er)
        then show thesis using e Inr None tr by (intro failed [of er]) simp_all
      next
        case (Inr u)
        then show thesis using e \<open>?g = Inr o1\<close> None tr
          by (cases "length u = Dims") (auto intro: fresh [of u] bad_dims [of u] split: if_splits)
      qed
    qed
  qed
qed

lemma embed_double [simp]:
  "double_prefixed raw \<Longrightarrow> embed c fl raw prefix w =
     (Inl (Permanentf ''embed: text already carries a nomic task prefix; pass raw text: %.40q'' [AStr raw]), w)"
  by (cases w) (simp add: embed_def double_prefixed_def)

lemma embed_dims: "cache_ok (fst w) \<Longrightarrow> fst (embed c fl raw prefix w) = Inr v \<Longrightarrow> length v = Dims"
proof (cases "double_prefixed raw")
  case False
  assume ok: "cache_ok (fst w)" and r: "fst (embed c fl raw prefix w) = Inr v"
  obtain t s where w: "w = (t, s)" by force
  from False show ?thesis
    by (rule embed_raw_cases [of raw c fl prefix t s]) (use ok r w CacheGet_dims in auto)
qed simp

lemma embed_keeps: "cache_ok (fst w) \<Longrightarrow> cache_ok (fst (snd (embed c fl raw prefix w)))"
proof (cases "double_prefixed raw")
  case False
  assume ok: "cache_ok (fst w)"
  obtain t s where w: "w = (t, s)" by force
  from False show ?thesis
    by (rule embed_raw_cases [of raw c fl prefix t s]) (use ok w CachePut_ok in auto)
qed simp

interpretation doc: vec_source "EmbedDocument c fl" "\<lambda>w. cache_ok (fst w)" for c fl
  by unfold_locales (auto simp: EmbedDocument_def intro: embed_dims embed_keeps)

interpretation query: vec_source "EmbedQuery c fl" "\<lambda>w. cache_ok (fst w)" for c fl
  by unfold_locales (auto simp: EmbedQuery_def intro: embed_dims embed_keeps)

section \<open>Properties\<close>

text \<open>The outcomes of calling a transport \<open>n\<close> times on one text.\<close>

fun outcomes :: "nat \<Rightarrow> 's embedder \<Rightarrow> string \<Rightarrow> 's \<Rightarrow> ((go_error, f32 list) result \<times> 's) list" where
  "outcomes 0 inner msg s = []"
| "outcomes (Suc n) inner msg s = inner msg s # outcomes n inner msg (snd (inner msg s))"

definition permanent_failure :: "(go_error, f32 list) result \<times> 's \<Rightarrow> bool" where
  "permanent_failure r \<longleftrightarrow> (case fst r of Inl e \<Rightarrow> IsPermanent e | Inr _ \<Rightarrow> False)"

definition transient_failure :: "(go_error, f32 list) result \<times> 's \<Rightarrow> bool" where
  "transient_failure r \<longleftrightarrow> (case fst r of Inl e \<Rightarrow> \<not> IsPermanent e | Inr _ \<Rightarrow> False)"

text \<open>The first outcome that is not worth another try, or the last one.\<close>

definition first_settled ::
  "((go_error, f32 list) result \<times> 's \<Rightarrow> bool) \<Rightarrow> ((go_error, f32 list) result \<times> 's) list \<Rightarrow> (go_error, f32 list) result \<times> 's"
  where
  "first_settled again rs = (case find (\<lambda>r. \<not> again r) rs of Some r \<Rightarrow> r | None \<Rightarrow> last rs)"

lemma outcomes_ne [simp]: "outcomes (Suc n) inner msg s \<noteq> []"
  by simp

lemma first_settled_Cons:
  "first_settled again (r # rs) = (if again r \<and> rs \<noteq> [] then first_settled again rs else r)"
  by (simp add: first_settled_def split: option.split)

lemma failure_simps [simp]:
  "permanent_failure (Inl e, s) = IsPermanent e" "\<not> permanent_failure (Inr v, s)"
  "transient_failure (Inl e, s) = (\<not> IsPermanent e)" "\<not> transient_failure (Inr v, s)"
  by (simp_all add: permanent_failure_def transient_failure_def)

lemma dims_loop_settled:
  "dims_loop (Suc n) inner msg lastErr s = first_settled permanent_failure (outcomes (Suc n) inner msg s)"
proof (induction n arbitrary: lastErr s)
  case 0
  then show ?case
    by (auto simp: first_settled_Cons nil_or_err_def split: prod.splits sum.splits)
next
  case (Suc n)
  obtain r s' where i: "inner msg s = (r, s')" by force
  show ?case
    unfolding dims_loop.simps(2) [of "Suc n"] outcomes.simps(2) [of "Suc n"] i first_settled_Cons
    by (cases r) (simp_all add: Suc del: dims_loop.simps outcomes.simps)
qed

lemma transient_loop_settled:
  "(\<And>j. \<not> cancelled j) \<Longrightarrow>
   transient_loop (Suc n) i cancelled inner msg lastErr s =
     first_settled transient_failure (outcomes (Suc n) inner msg s)"
proof (induction n arbitrary: lastErr s i)
  case 0
  then show ?case
    by (auto simp: first_settled_Cons nil_or_err_def split: prod.splits sum.splits)
next
  case (Suc n)
  obtain r s' where r: "inner msg s = (r, s')" by force
  show ?case
    unfolding transient_loop.simps(2) [of "Suc n"] outcomes.simps(2) [of "Suc n"] r first_settled_Cons
    using Suc(2) by (cases r) (simp_all add: Suc(1) del: transient_loop.simps outcomes.simps)
qed

text \<open>The retry wrappers make at most \<^verbatim>\<open>retries + 1\<close> calls with the unchanged text and return
  the first outcome they do not retry, or else the outcome of the last call: the re-asking wrapper
  retries permanent failures only, the transient one (whose context is not cancelled) transient
  failures only.\<close>

theorem retries_settle:
  assumes "0 \<le> retries" and "\<And>i. \<not> cancelled i"
  shows "dimsRetryEmbedder_Embed retries inner msg s =
      first_settled permanent_failure (outcomes (nat retries + 1) inner msg s) \<and>
    transientRetryEmbedder_Embed retries cancelled inner msg s =
      first_settled transient_failure (outcomes (nat retries + 1) inner msg s)"
proof -
  have "nat (retries + 1) = Suc (nat retries)" using assms(1) by simp
  then show ?thesis
    using dims_loop_settled [of "nat retries" inner msg None s]
      transient_loop_settled [of cancelled "nat retries" 0 inner msg None s] assms(2)
    by (simp add: dimsRetryEmbedder_Embed_def transientRetryEmbedder_Embed_def)
qed

text \<open>A transport that counts its calls and answers with a permanent failure \<open>k\<close> times.\<close>

definition flaky :: "nat \<Rightarrow> nat embedder" where
  "flaky k msg n =
     ((if n < k then Inl (Permanentf ''embed: rpc returned %d dims, want %d'' [AInt 512, AInt 768])
       else Inr (replicate Dims 0)), n + 1)"

theorem retries_settle_witness:
  "snd (dimsRetryEmbedder_Embed 2 (flaky 1) ''x'' 0) = 2 \<and>
   snd (transientRetryEmbedder_Embed 2 (\<lambda>_. False) (flaky 1) ''x'' 0) = 1"
  using retries_settle [of 2 "\<lambda>_. False" "flaky 1" "''x''" 0]
  by (simp add: numeral_eq_Suc first_settled_Cons flaky_def
      Permanentf_def)

text \<open>A call of the gRPC transport that fails is classified permanent exactly when the RPC failed
  with status INTERNAL or with an error that is permanent already, or answered with a vector that
  has not 768 floats; every other failure stays transient, and a success has 768 floats.\<close>

theorem grpc_classification:
  "case fst (GRPCEmbedder_Embed None cli msg s) of
     Inr v \<Rightarrow> length v = Dims \<and>
       (\<exists>task. fst (cli (msg, task) s) = Inr v)
   | Inl e \<Rightarrow> \<exists>task. IsPermanent e \<longleftrightarrow>
       (case fst (cli (msg, task) s) of
          Inl re \<Rightarrow> status_code re = codes_Internal \<or> IsPermanent re
        | Inr v \<Rightarrow> length v \<noteq> Dims)"
proof -
  define task where "task = (if HasPrefix msg QueryPrefix then ''search_query'' else ''search_document'')"
  obtain r s' where "cli (msg, task) s = (r, s')" by force
  then show ?thesis
    by (cases r) (auto simp: GRPCEmbedder_Embed_def Let_def task_def [symmetric] Permanentf_def
      intro!: exI [of _ task])
qed

text \<open>C9. A text that already carries a task prefix is refused with a permanent error before anything
  is called or stored. Any other text reaches the transport at most once, with the prefix prepended
  exactly once, and the cache only grows.\<close>

theorem embed_prefixes_once:
  "(double_prefixed raw \<longrightarrow>
      (\<exists>e. fst (embed c fl raw prefix (t, s)) = Inl e \<and> IsPermanent e) \<and>
      snd (embed c fl raw prefix (t, s)) = (t, s)) \<and>
   (snd (snd (embed c fl raw prefix (t, s))) = s \<or>
    snd (snd (embed c fl raw prefix (t, s))) = snd (cTransport c (prefix @ raw) s)) \<and>
   extends t (fst (snd (embed c fl raw prefix (t, s))))"
proof (cases "double_prefixed raw")
  case False
  then show ?thesis
    by (rule embed_raw_cases [of raw c fl prefix t s]) (auto simp: CachePut_extends False)
qed (simp add: Permanentf_def)

theorem embed_prefixes_once_witness:
  "snd (embed (NewClient (flaky 0) True) \<lparr>get_fault = None, put_fault = None\<rparr>
          ''search_query: hi'' DocumentPrefix ([], 0)) = ([], 0)"
proof -
  have "double_prefixed ''search_query: hi''" by code_simp
  then show ?thesis by (rule embed_prefixes_once [THEN conjunct1, rule_format, THEN conjunct2])
qed

text \<open>What was embedded once is served from the cache from then on: after a success whose
  statements did not fail, the same text under the same prefix gives the identical vector, without
  a call of the transport and without a write, on every later state of the append-only cache, also
  for another client of the same model with another transport.\<close>

theorem embed_then_hit:
  assumes "embed c fl raw prefix (t, s) = (Inr v, (t', s'))"
    and "cDB c" and "put_fault fl = None"
    and "cDB c2" and "cModel c2 = cModel c" and "get_fault fl2 = None" and "extends t' t2"
  shows "embed c2 fl2 raw prefix (t2, s2) = (Inr v, (t2, s2))"
proof -
  let ?k = "CacheKey (prefix @ raw)"
  have raw: "\<not> double_prefixed raw" using assms(1) by auto
  from raw have "CacheGet None ?k (cModel c) prefix t' = Inr (Some v)"
  proof (rule embed_raw_cases [of raw c fl prefix t s])
    fix u assume "CacheGet (get_fault fl) ?k (cModel c) prefix t = Inr (Some u)"
      "embed c fl raw prefix (t, s) = (Inr u, t, s)"
    then show ?thesis using assms(1) by (cases "get_fault fl") (auto simp: CacheGet_def)
  next
    fix u assume n: "cDB c \<Longrightarrow> CacheGet (get_fault fl) ?k (cModel c) prefix t = Inr None"
      and e: "embed c fl raw prefix (t, s) =
        (Inr (L2Normalize u), (if cDB c then snd (CachePut (put_fault fl) ?k (cModel c) prefix (L2Normalize u) t)
          else t, snd (cTransport c (prefix @ raw) s)))"
    have "t' = snd (CachePut None ?k (cModel c) prefix v t)" using e assms(1-3) by auto
    then show ?thesis using CacheGet_put [OF n [OF assms(2)]] by simp
  qed (use assms in auto)
  then have "CacheGet None ?k (cModel c) prefix t2 = Inr (Some v)" using assms(7) by (rule CacheGet_extends)
  then show ?thesis using raw assms(4-6) by (simp add: embed_def double_prefixed_def Let_def)
qed

abbreviation (input) no_faults :: db_faults where
  "no_faults \<equiv> \<lparr>get_fault = None, put_fault = None\<rparr>"

lemma sum_squares_zero: "sum_squares (replicate n 0) = Num 0"
proof -
  have z: "f32_to_f64 0 = Num 0" by (simp add: f32_to_f64_def)
  have "f64_add (Num 0) (f64_mul (Num 0) (Num 0)) = Num 0"
    by (simp add: f64_mul_def f64_add_def mk64_def is_inf_def is_neg_def)
  then have "foldl (\<lambda>s f. f64_add s (f64_mul (f32_to_f64 f) (f32_to_f64 f))) (Num 0) (replicate n 0) = Num 0"
    by (induction n) (simp_all add: z)
  then show ?thesis by (simp add: sum_squares_def)
qed

lemma L2Normalize_zero: "L2Normalize (replicate n 0) = replicate n 0"
  by (simp add: L2Normalize_def sum_squares_zero f64_eq_def)

definition hi_row :: cache_row where
  "hi_row = \<lparr>cr_content_hash = CacheKey (DocumentPrefix @ ''hi''), cr_model = Model,
     cr_task_prefix = DocumentPrefix, cr_dims = 768, cr_vector = PackVector (replicate Dims 0)\<rparr>"

lemma embed_hi:
  "embed (NewClient (flaky 0) True) no_faults ''hi'' DocumentPrefix ([], 0) =
     (Inr (replicate Dims 0), ([hi_row], 1))"
proof -
  have "\<not> double_prefixed ''hi''" by code_simp
  then show ?thesis
    by (simp add: embed_def double_prefixed_def NewClient_def CacheGet_def CachePut_def flaky_def
        L2Normalize_zero hi_row_def Dims_def Let_def)
qed

theorem embed_then_hit_witness:
  "embed (NewClient (flaky 9) True) no_faults ''hi'' DocumentPrefix ([hi_row], 5) =
     (Inr (replicate Dims 0), ([hi_row], 5))"
  by (rule embed_then_hit [OF embed_hi]) (simp_all add: NewClient_def)

text \<open>Every success of the prefixing client has 768 floats, and the cache stays a table with unique
  keys whose vectors all have 768 floats.\<close>

theorem embed_yields_dims:
  assumes "cache_ok (fst w)"
  shows "(\<forall>v. fst (EmbedDocument c fl raw w) = Inr v \<longrightarrow> length v = Dims) \<and>
    (\<forall>v. fst (EmbedQuery c fl raw w) = Inr v \<longrightarrow> length v = Dims) \<and>
    cache_ok (fst (snd (EmbedDocument c fl raw w))) \<and> cache_ok (fst (snd (EmbedQuery c fl raw w)))"
  using doc.dims [OF assms] query.dims [OF assms] doc.keeps [OF assms] query.keeps [OF assms] by blast

theorem embed_yields_dims_witness:
  "cache_ok (fst (snd (EmbedDocument (NewClient (flaky 0) True) no_faults ''hi'' ([], 0))))"
proof -
  have "cache_ok (fst ([], 0))" by (simp add: cache_ok_def)
  then show ?thesis using embed_yields_dims by blast
qed

text \<open>The rows of the cache hold what a deterministic transport \<open>f\<close> answers for texts of \<open>T\<close>.\<close>

definition cache_sound :: "(string \<Rightarrow> (go_error, f32 list) result) \<Rightarrow> string set \<Rightarrow> cache_row list \<Rightarrow> bool" where
  "cache_sound f T t \<longleftrightarrow>
     (\<forall>r\<in>set t. \<exists>x\<in>T. \<exists>u. cr_content_hash r = CacheKey x \<and> f x = Inr u \<and> length u = Dims \<and>
        cr_vector r = PackVector (L2Normalize u))"

lemma CacheGet_sound:
  assumes "cache_sound f T t" and "inj_on CacheKey T" and "x \<in> T"
    and "CacheGet None (CacheKey x) m p t = Inr (Some v)"
  shows "\<exists>u. f x = Inr u \<and> length u = Dims \<and> v = L2Normalize u"
proof -
  obtain r where r: "find (cache_match (CacheKey x) m p) t = Some r" "UnpackVector (cr_vector r) = Inr v"
    using assms(4) by (auto simp: CacheGet_def split: option.splits sum.splits)
  then have "r \<in> set t" "cr_content_hash r = CacheKey x"
    by (auto simp: find_Some_iff cache_match_def)
  then obtain y u where y: "y \<in> T" "CacheKey x = CacheKey y" "f y = Inr u" "length u = Dims"
      "cr_vector r = PackVector (L2Normalize u)"
    using assms(1) by (auto simp: cache_sound_def dest!: bspec)
  then have "x = y" using assms(2,3) by (auto dest: inj_onD)
  then show ?thesis using y r(2) by auto
qed

lemma CacheGet_sound_ok:
  assumes "cache_sound f T t"
  shows "CacheGet None k m p t \<noteq> Inl e"
proof
  assume "CacheGet None k m p t = Inl e"
  then obtain r where "find (cache_match k m p) t = Some r" "UnpackVector (cr_vector r) = Inl e"
    by (auto simp: CacheGet_def split: option.splits sum.splits)
  then show False using assms by (auto simp: cache_sound_def find_Some_iff dest!: nth_mem bspec)
qed

text \<open>C8. The cache is transparent: over a deterministic transport and as long as SHA-256 does not
  collide on the texts that are embedded, the client with the cache gives the results of the client
  without it, and keeps the cache sound.\<close>

theorem cache_transparent:
  assumes "\<And>x s. cTransport c x s = (f x, s)" and "inj_on CacheKey T" and "prefix @ raw \<in> T"
    and "cache_sound f T t" and "get_fault fl = None" and "cDB c"
  shows "fst (embed c fl raw prefix (t, s)) = fst (embed (c\<lparr>cDB := False\<rparr>) fl raw prefix (t, s)) \<and>
    cache_sound f T (fst (snd (embed c fl raw prefix (t, s))))"
proof (cases "double_prefixed raw")
  case True
  then show ?thesis using assms(4) by simp
next
  case False
  let ?k = "CacheKey (prefix @ raw)"
  have off: "fst (embed (c\<lparr>cDB := False\<rparr>) fl raw prefix (t, s)) =
      (case f (prefix @ raw) of Inl e \<Rightarrow> Inl e | Inr u \<Rightarrow>
         if length u \<noteq> Dims then Inl (Permanentf ''embed: embedder returned %d dims, want %d''
           [AInt (int (length u)), AInt (int Dims)]) else Inr (L2Normalize u))"
    using False by (simp add: embed_def double_prefixed_def Let_def assms(1) split: sum.splits)
  from False show ?thesis
  proof (rule embed_raw_cases [of raw c fl prefix t s])
    fix v assume h: "CacheGet (get_fault fl) ?k (cModel c) prefix t = Inr (Some v)"
      "embed c fl raw prefix (t, s) = (Inr v, t, s)"
    then have "\<exists>u. f (prefix @ raw) = Inr u \<and> length u = Dims \<and> v = L2Normalize u"
      using CacheGet_sound [OF assms(4,2,3)] assms(5) by simp
    then show ?thesis using h(2) off assms(4) by auto
  next
    fix e assume "CacheGet (get_fault fl) ?k (cModel c) prefix t = Inl e"
    then show ?thesis using CacheGet_sound_ok [OF assms(4)] assms(5) by simp
  next
    fix u assume u: "fst (cTransport c (prefix @ raw) s) = Inr u" "length u = Dims"
      and e: "embed c fl raw prefix (t, s) =
        (Inr (L2Normalize u), (if cDB c then snd (CachePut (put_fault fl) ?k (cModel c) prefix (L2Normalize u) t)
          else t, snd (cTransport c (prefix @ raw) s)))"
    then have "cache_sound f T (snd (CachePut (put_fault fl) ?k (cModel c) prefix (L2Normalize u) t))"
      using assms(1,3,4) by (fastforce simp: CachePut_def cache_sound_def split: option.splits)
    then show ?thesis using u e off assms(1,6) by simp
  qed (use off assms(1,4) in auto)
qed

theorem cache_transparent_witness:
  "fst (embed (NewClient (\<lambda>_ s. (Inr (replicate Dims 0), s)) True) no_faults ''hi'' DocumentPrefix ([hi_row], ())) =
   fst (embed ((NewClient (\<lambda>_ s. (Inr (replicate Dims 0), s)) True)\<lparr>cDB := False\<rparr>) no_faults ''hi''
     DocumentPrefix ([hi_row], ()))"
proof -
  let ?c = "NewClient (\<lambda>_ s. (Inr (replicate Dims 0), s)) True" and ?f = "\<lambda>_ :: string. Inr (replicate Dims 0)"
  let ?T = "{DocumentPrefix @ ''hi''}"
  have tr: "cTransport ?c x s = (?f x, s)" for x and s :: unit by (simp add: NewClient_def)
  have snd: "cache_sound ?f ?T [hi_row]" by (simp add: cache_sound_def hi_row_def L2Normalize_zero)
  have db: "cDB ?c" by (simp add: NewClient_def)
  show ?thesis
    by (rule cache_transparent [where f = ?f and T = ?T, OF tr _ _ snd _ db, THEN conjunct1]) simp_all
qed

end
