(* ===== verification/Utf8.thy ===== *)
theory Utf8
  imports Prelude
begin

text \<open>
  What the program uses of Go's \<^verbatim>\<open>unicode/utf8\<close>, \<^verbatim>\<open>unicode.IsSpace\<close> and the \<^verbatim>\<open>strings\<close> package: decoding a
  string into runes as \<^verbatim>\<open>range\<close> does, encoding a rune as \<^verbatim>\<open>strings.Builder.WriteRune\<close> does,
  \<^verbatim>\<open>FieldsFunc\<close>, \<^verbatim>\<open>Fields\<close>, \<^verbatim>\<open>TrimSpace\<close> and the decimal rendering of integers.
\<close>

section \<open>Runes\<close>

type_synonym rune = int

definition byte_of :: "char \<Rightarrow> int" where
  "byte_of c = of_char c"

definition cont :: "int \<Rightarrow> bool" where
  "cont b \<longleftrightarrow> 128 \<le> b \<and> b \<le> 191"

text \<open>The first rune of a byte sequence and its width, as \<^verbatim>\<open>range\<close> over a string decodes it: an invalid
  byte is U+FFFD with width one.\<close>

fun decode_rune :: "int list \<Rightarrow> rune \<times> nat" where
  "decode_rune [] = (65533, 0)"
| "decode_rune (b0 # bs) =
     (if b0 < 128 then (b0, 1)
      else case bs of
        b1 # bs1 \<Rightarrow>
          if 194 \<le> b0 \<and> b0 \<le> 223 \<and> cont b1 then ((b0 - 192) * 64 + (b1 - 128), 2)
          else (case bs1 of
            b2 # bs2 \<Rightarrow>
              if 224 \<le> b0 \<and> b0 \<le> 239 \<and> cont b1 \<and> cont b2 \<and>
                 (b0 = 224 \<longrightarrow> 160 \<le> b1) \<and> (b0 = 237 \<longrightarrow> b1 \<le> 159)
              then ((b0 - 224) * 4096 + (b1 - 128) * 64 + (b2 - 128), 3)
              else (case bs2 of
                b3 # bs3 \<Rightarrow>
                  if 240 \<le> b0 \<and> b0 \<le> 244 \<and> cont b1 \<and> cont b2 \<and> cont b3 \<and>
                     (b0 = 240 \<longrightarrow> 144 \<le> b1) \<and> (b0 = 244 \<longrightarrow> b1 \<le> 143)
                  then ((b0 - 240) * 262144 + (b1 - 128) * 4096 + (b2 - 128) * 64 + (b3 - 128), 4)
                  else (65533, 1)
              | [] \<Rightarrow> (65533, 1))
          | [] \<Rightarrow> (65533, 1))
      | [] \<Rightarrow> (65533, 1))"

lemma decode_rune_width: "bs \<noteq> [] \<Longrightarrow> 1 \<le> snd (decode_rune bs) \<and> snd (decode_rune bs) \<le> length bs"
  by (cases bs) (auto split: list.splits)

function decode_bytes :: "int list \<Rightarrow> rune list" where
  "decode_bytes bs =
     (if bs = [] then [] else let (r, w) = decode_rune bs in r # decode_bytes (drop w bs))"
  by pat_completeness auto
termination
proof (relation "measure length")
  fix bs :: "int list" and x and r :: rune and w
  assume "bs \<noteq> []" "x = decode_rune bs" "(r, w) = x"
  then have "1 \<le> w \<and> w \<le> length bs" using decode_rune_width [of bs] by (metis snd_conv)
  then show "(drop w bs, bs) \<in> measure length" using \<open>bs \<noteq> []\<close> by simp
qed simp

declare decode_bytes.simps [simp del]

text \<open>A string cut into its runes, each with the bytes it was decoded from (an invalid byte keeps its
  byte beside U+FFFD): what is sliced out of a string keeps its bytes.\<close>

function chunks :: "string \<Rightarrow> (rune \<times> string) list" where
  "chunks s =
     (if s = [] then []
      else let (r, w) = decode_rune (map byte_of s) in (r, take w s) # chunks (drop w s))"
  by pat_completeness auto
termination
proof (relation "measure length")
  fix s :: string and x and r :: rune and w
  assume "s \<noteq> []" "x = decode_rune (map byte_of s)" "(r, w) = x"
  then have "1 \<le> w" using decode_rune_width [of "map byte_of s"] by (metis map_is_Nil_conv snd_conv)
  then show "(drop w s, s) \<in> measure length" using \<open>s \<noteq> []\<close> by simp
qed simp

declare chunks.simps [simp del]

definition unchunk :: "(rune \<times> string) list \<Rightarrow> string" where
  "unchunk cs = concat (map snd cs)"

definition runes :: "string \<Rightarrow> rune list" where
  "runes s = map fst (chunks s)"

lemma unchunk_chunks: "unchunk (chunks s) = s"
proof (induction s rule: chunks.induct)
  case (1 s)
  show ?case
  proof (cases "s = []")
    case False
    obtain r w where d: "decode_rune (map byte_of s) = (r, w)" by force
    have "unchunk (chunks (drop w s)) = drop w s" using 1 [OF False d [symmetric] refl] .
    then show ?thesis using False d by (subst chunks.simps) (simp add: unchunk_def)
  qed (simp add: unchunk_def chunks.simps)
qed

lemma runes_decode: "runes s = decode_bytes (map byte_of s)"
proof (induction s rule: chunks.induct)
  case (1 s)
  show ?case
  proof (cases "s = []")
    case True
    then show ?thesis by (simp add: runes_def chunks.simps decode_bytes.simps)
  next
    case False
    obtain r w where d: "decode_rune (map byte_of s) = (r, w)" by force
    have "runes (drop w s) = decode_bytes (map byte_of (drop w s))" using 1 [OF False d [symmetric] refl] .
    then show ?thesis
      unfolding runes_def using False d
      by (subst chunks.simps, subst decode_bytes.simps) (simp add: drop_map)
  qed
qed

definition scalar :: "rune \<Rightarrow> bool" where
  "scalar r \<longleftrightarrow> 0 \<le> r \<and> r \<le> 1114111 \<and> \<not> (55296 \<le> r \<and> r \<le> 57343)"

definition encode_scalar :: "rune \<Rightarrow> int list" where
  "encode_scalar r =
     (if r < 128 then [r]
      else if r < 2048 then [192 + r div 64, 128 + r mod 64]
      else if r < 65536 then [224 + r div 4096, 128 + r div 64 mod 64, 128 + r mod 64]
      else [240 + r div 262144, 128 + r div 4096 mod 64, 128 + r div 64 mod 64, 128 + r mod 64])"

definition encode_rune :: "rune \<Rightarrow> int list" where
  "encode_rune r = (if scalar r then encode_scalar r else encode_scalar 65533)"

definition of_bytes :: "int list \<Rightarrow> string" where
  "of_bytes bs = map char_of bs"

definition of_runes :: "rune list \<Rightarrow> string" where
  "of_runes rs = of_bytes (concat (map encode_rune rs))"

section \<open>White space and fields\<close>

definition IsSpace :: "rune \<Rightarrow> bool" where
  "IsSpace r \<longleftrightarrow> (9 \<le> r \<and> r \<le> 13) \<or> r = 32 \<or> r = 133 \<or> r = 160 \<or> r = 5760 \<or>
     (8192 \<le> r \<and> r \<le> 8202) \<or> r = 8232 \<or> r = 8233 \<or> r = 8239 \<or> r = 8287 \<or> r = 12288"

text \<open>The loop of \<^verbatim>\<open>FieldsFunc\<close>: the current field is kept in \<open>cur\<close>.\<close>

fun fields_loop :: "('a \<Rightarrow> bool) \<Rightarrow> 'a list \<Rightarrow> 'a list \<Rightarrow> 'a list list" where
  "fields_loop sep cur [] = (if cur = [] then [] else [cur])"
| "fields_loop sep cur (r # rs) =
     (if sep r then (if cur = [] then [] else [cur]) @ fields_loop sep [] rs
      else fields_loop sep (cur @ [r]) rs)"

definition FieldsFunc :: "(rune \<Rightarrow> bool) \<Rightarrow> string \<Rightarrow> string list" where
  "FieldsFunc sep s = map unchunk (fields_loop (\<lambda>c. sep (fst c)) [] (chunks s))"

definition trim :: "('a \<Rightarrow> bool) \<Rightarrow> 'a list \<Rightarrow> 'a list" where
  "trim P xs = rev (dropWhile P (rev (dropWhile P xs)))"

definition TrimSpace :: "string \<Rightarrow> string" where
  "TrimSpace s = unchunk (trim (\<lambda>c. IsSpace (fst c)) (chunks s))"

fun join_with :: "'a list \<Rightarrow> 'a list list \<Rightarrow> 'a list" where
  "join_with sep [] = []"
| "join_with sep [w] = w"
| "join_with sep (w # ws) = w @ sep @ join_with sep ws"

text \<open>Simple case folding onto the lower case ASCII letters: the long s and the Kelvin sign fold too.\<close>

definition fold_rune :: "rune \<Rightarrow> rune" where
  "fold_rune r = (if 65 \<le> r \<and> r \<le> 90 then r + 32 else if r = 383 then 115 else if r = 8490 then 107 else r)"

section \<open>Decimal rendering\<close>

fun digits :: "nat \<Rightarrow> string" where
  "digits n = (if n < 10 then [char_of (48 + n)] else digits (n div 10) @ [char_of (48 + n mod 10)])"

declare digits.simps [simp del]

definition dec :: "nat \<Rightarrow> string" where
  "dec n = digits n"

fun undigits :: "nat \<Rightarrow> string \<Rightarrow> nat" where
  "undigits acc [] = acc"
| "undigits acc (c # cs) = undigits (10 * acc + (of_char c - 48)) cs"

lemma undigits_snoc: "undigits acc (s @ [c]) = 10 * undigits acc s + (of_char c - 48)"
  by (induction acc s rule: undigits.induct) simp_all

lemma digit_char: "d < 10 \<Longrightarrow> of_char (char_of (48 + d) :: char) = 48 + d" for d :: nat
  by simp

lemma undigits_digits: "undigits 0 (digits n) = n"
proof (induction n rule: digits.induct)
  case (1 n)
  show ?case
  proof (cases "n < 10")
    case True
    then show ?thesis using digit_char [of n] by (subst digits.simps) simp
  next
    case False
    then show ?thesis
      using 1 digit_char [of "n mod 10"] by (subst digits.simps) (simp add: undigits_snoc)
  qed
qed

lemma dec_inj [simp]: "dec m = dec n \<longleftrightarrow> m = n"
  unfolding dec_def by (metis undigits_digits)

lemma digits_range: "c \<in> set (digits n) \<Longrightarrow> 48 \<le> (of_char c :: nat) \<and> (of_char c :: nat) \<le> 57"
proof (induction n rule: digits.induct)
  case (1 n)
  show ?case
  proof (cases "n < 10")
    case True
    then show ?thesis using 1(2) by (subst (asm) digits.simps) simp
  next
    case False
    then have "c \<in> set (digits (n div 10)) \<or> c = char_of (48 + n mod 10)"
      using 1(2) by (subst (asm) digits.simps) auto
    then show ?thesis using 1(1) [OF False] digit_char [of "n mod 10"] by auto
  qed
qed

lemma dec_no_colon: "CHR '':'' \<notin> set (dec n)"
  using digits_range [of "CHR '':''" n] by (auto simp: dec_def)

section \<open>Decoding what was encoded\<close>

lemma decode_rune_2:
  "2 \<le> p \<Longrightarrow> p < 32 \<Longrightarrow> 0 \<le> q \<Longrightarrow> q < 64 \<Longrightarrow>
   decode_rune ((192 + p) # (128 + q) # bs) = (p * 64 + q, 2)"
  by (simp add: cont_def)

lemma decode_rune_3:
  "0 \<le> p \<Longrightarrow> p < 16 \<Longrightarrow> 0 \<le> q \<Longrightarrow> q < 64 \<Longrightarrow> 0 \<le> u \<Longrightarrow> u < 64 \<Longrightarrow>
   (p = 0 \<longrightarrow> 32 \<le> q) \<Longrightarrow> (p = 13 \<longrightarrow> q \<le> 31) \<Longrightarrow>
   decode_rune ((224 + p) # (128 + q) # (128 + u) # bs) = (p * 4096 + q * 64 + u, 3)"
  by (simp add: cont_def)

lemma decode_rune_4:
  "0 \<le> p \<Longrightarrow> p \<le> 4 \<Longrightarrow> 0 \<le> q \<Longrightarrow> q < 64 \<Longrightarrow> 0 \<le> u \<Longrightarrow> u < 64 \<Longrightarrow> 0 \<le> v \<Longrightarrow> v < 64 \<Longrightarrow>
   (p = 0 \<longrightarrow> 16 \<le> q) \<Longrightarrow> (p = 4 \<longrightarrow> q \<le> 15) \<Longrightarrow>
   decode_rune ((240 + p) # (128 + q) # (128 + u) # (128 + v) # bs) = (p * 262144 + q * 4096 + u * 64 + v, 4)"
  by (simp add: cont_def)

lemma decode_rune_encode:
  assumes "scalar r"
  shows "decode_rune (encode_scalar r @ bs) = (r, length (encode_scalar r))"
proof -
  have hi: "r \<le> 1114111" and sur: "\<not> (55296 \<le> r \<and> r \<le> 57343)" using assms by (simp_all add: scalar_def)
  define a b c where "a = r div 64" and "b = a div 64" and "c = b div 64"
  have abc: "r div 4096 = b" "r div 262144 = c" unfolding a_def b_def c_def by (simp_all add: zdiv_zmult2_eq [symmetric])
  have ra: "r = a * 64 + r mod 64" and ab: "a = b * 64 + a mod 64" and bc: "b = c * 64 + b mod 64"
    unfolding a_def b_def c_def by simp_all
  have m: "0 \<le> r mod 64" "r mod 64 < 64" "0 \<le> a mod 64" "a mod 64 < 64" "0 \<le> b mod 64" "b mod 64 < 64"
    by simp_all
  consider "r < 128" | "128 \<le> r" "r < 2048" | "2048 \<le> r" "r < 65536" | "65536 \<le> r" by linarith
  then show ?thesis
  proof cases
    case 1
    then show ?thesis by (simp add: encode_scalar_def)
  next
    case 2
    have e: "encode_scalar r = [192 + a, 128 + r mod 64]" using 2 by (simp add: encode_scalar_def a_def)
    have "2 \<le> a" "a < 32" using 2 ra m by linarith+
    from decode_rune_2 [OF this m(1,2)] ra show ?thesis by (simp add: e del: decode_rune.simps)
  next
    case 3
    have e: "encode_scalar r = [224 + b, 128 + a mod 64, 128 + r mod 64]"
      using 3 abc by (simp add: encode_scalar_def a_def)
    have b: "0 \<le> b" "b < 16" using 3 ra ab m by linarith+
    have c: "b = 0 \<longrightarrow> 32 \<le> a mod 64" "b = 13 \<longrightarrow> a mod 64 \<le> 31"
      using 3 ra ab m sur by linarith+
    have "b * 4096 + a mod 64 * 64 + r mod 64 = r" using ra ab by linarith
    with decode_rune_3 [OF b m(3,4) m(1,2) c] show ?thesis by (simp add: e del: decode_rune.simps)
  next
    case 4
    have e: "encode_scalar r = [240 + c, 128 + b mod 64, 128 + a mod 64, 128 + r mod 64]"
      using 4 abc by (simp add: encode_scalar_def a_def)
    have b: "0 \<le> c" "c \<le> 4" using 4 hi ra ab bc m by linarith+
    have c: "c = 0 \<longrightarrow> 16 \<le> b mod 64" "c = 4 \<longrightarrow> b mod 64 \<le> 15"
      using 4 hi ra ab bc m by linarith+
    have "c * 262144 + b mod 64 * 4096 + a mod 64 * 64 + r mod 64 = r" using ra ab bc by linarith
    with decode_rune_4 [OF b m(5,6) m(3,4) m(1,2) c] show ?thesis by (simp add: e del: decode_rune.simps)
  qed
qed

lemma encode_scalar_bytes: "scalar r \<Longrightarrow> b \<in> set (encode_scalar r) \<Longrightarrow> 0 \<le> b \<and> b < 256"
  by (auto simp: encode_scalar_def scalar_def split: if_splits)

lemma encode_scalar_ne [simp]: "encode_scalar r \<noteq> []"
  by (simp add: encode_scalar_def)

lemma decode_bytes_encode: "\<forall>r\<in>set rs. scalar r \<Longrightarrow> decode_bytes (concat (map encode_rune rs)) = rs"
proof (induction rs)
  case Nil
  then show ?case by (simp add: decode_bytes.simps)
next
  case (Cons r rs)
  then have e: "encode_rune r = encode_scalar r" by (simp add: encode_rune_def)
  show ?case
    by (subst decode_bytes.simps) (use Cons in \<open>simp add: e decode_rune_encode\<close>)
qed

lemma byte_of_char_of: "0 \<le> b \<Longrightarrow> b < 256 \<Longrightarrow> byte_of (char_of b) = b"
  by (simp add: byte_of_def)

lemma runes_of_runes: "\<forall>r\<in>set rs. scalar r \<Longrightarrow> runes (of_runes rs) = rs"
proof -
  assume s: "\<forall>r\<in>set rs. scalar r"
  have "map byte_of (of_bytes bs) = bs" if "\<forall>b\<in>set bs. 0 \<le> b \<and> b < 256" for bs
    using that by (induction bs) (simp_all add: of_bytes_def byte_of_char_of)
  moreover have "\<forall>b\<in>set (concat (map encode_rune rs)). 0 \<le> b \<and> b < 256"
    using s encode_scalar_bytes by (auto simp: encode_rune_def)
  ultimately show ?thesis
    using decode_bytes_encode [OF s] by (simp add: runes_decode of_runes_def)
qed

text \<open>Whatever the bytes, decoding yields scalar values: an invalid sequence is U+FFFD.\<close>

lemma scalarI: "0 \<le> r \<Longrightarrow> r \<le> 1114111 \<Longrightarrow> (55296 \<le> r \<Longrightarrow> 57343 < r) \<Longrightarrow> scalar r"
  by (auto simp: scalar_def)

lemma fst_if: "(c \<Longrightarrow> P (fst a)) \<Longrightarrow> (\<not> c \<Longrightarrow> P (fst b)) \<Longrightarrow> P (fst (if c then a else b))"
  by simp

lemma fst_case: "P (fst a) \<Longrightarrow> (\<And>x xs. P (fst (f x xs))) \<Longrightarrow> P (fst (case l of [] \<Rightarrow> a | x # xs \<Rightarrow> f x xs))"
  by (cases l) simp_all

lemma decode_rune_scalar: "\<forall>b\<in>set bs. 0 \<le> b \<and> b < 256 \<Longrightarrow> scalar (fst (decode_rune bs))"
proof (cases bs rule: decode_rune.cases)
  case 1
  then show ?thesis by (simp add: scalar_def)
next
  case (2 b0 bs0)
  assume bytes: "\<forall>b\<in>set bs. 0 \<le> b \<and> b < 256"
  have bad: "scalar 65533" by (simp add: scalar_def)
  have two: "scalar ((b0 - 192) * 64 + (b1 - 128))" if "194 \<le> b0" "b0 \<le> 223" "cont b1" for b1
  proof -
    have "128 \<le> b1" "b1 \<le> 191" using that(3) by (simp_all add: cont_def)
    with that(1,2) show ?thesis by - (unfold left_diff_distrib, rule scalarI; linarith)
  qed
  have three: "scalar ((b0 - 224) * 4096 + (b1 - 128) * 64 + (b2 - 128))"
    if "224 \<le> b0" "b0 \<le> 239" "cont b1" "cont b2" "b0 = 237 \<longrightarrow> b1 \<le> 159" for b1 b2
  proof -
    have c: "128 \<le> b1" "b1 \<le> 191" "128 \<le> b2" "b2 \<le> 191" using that(3,4) by (simp_all add: cont_def)
    consider "b0 \<le> 236" | "b0 = 237" | "238 \<le> b0" by linarith
    then show ?thesis unfolding left_diff_distrib
      by cases (rule scalarI; use that(1,2,5) c in linarith)+
  qed
  have four: "scalar ((b0 - 240) * 262144 + (b1 - 128) * 4096 + (b2 - 128) * 64 + (b3 - 128))"
    if "240 \<le> b0" "b0 \<le> 244" "cont b1" "cont b2" "cont b3" "b0 = 240 \<longrightarrow> 144 \<le> b1" "b0 = 244 \<longrightarrow> b1 \<le> 143" for b1 b2 b3
  proof -
    have c: "128 \<le> b1" "b1 \<le> 191" "128 \<le> b2" "b2 \<le> 191" "128 \<le> b3" "b3 \<le> 191"
      using that(3-5) by (simp_all add: cont_def)
    consider "b0 = 240" | "241 \<le> b0" "b0 \<le> 243" | "b0 = 244" using \<open>240 \<le> b0\<close> \<open>b0 \<le> 244\<close> by linarith
    then show ?thesis unfolding left_diff_distrib
      by cases (rule scalarI; use that(1,2,6,7) c in linarith)+
  qed
  have one: "b0 < 128 \<Longrightarrow> scalar b0" using bytes 2 by (simp add: scalar_def)
  show ?thesis
    unfolding 2 decode_rune.simps
    by (intro fst_if [of _ scalar] fst_case [of scalar]; unfold fst_conv;
        (rule bad | erule one | (elim conjE, rule two; assumption)
         | (elim conjE, rule three; assumption) | (elim conjE, rule four; assumption)))
qed

lemma decode_bytes_scalar: "\<forall>b\<in>set bs. 0 \<le> b \<and> b < 256 \<Longrightarrow> r \<in> set (decode_bytes bs) \<Longrightarrow> scalar r"
proof (induction bs rule: decode_bytes.induct)
  case (1 bs)
  show ?case
  proof (cases "bs = []")
    case True
    then show ?thesis using 1(3) by (simp add: decode_bytes.simps)
  next
    case False
    obtain r' w where d: "decode_rune bs = (r', w)" by force
    have "scalar r'" using decode_rune_scalar [OF 1(2)] d by simp
    moreover have "\<forall>b\<in>set (drop w bs). 0 \<le> b \<and> b < 256" using 1(2) by (meson in_set_dropD)
    moreover have "r = r' \<or> r \<in> set (decode_bytes (drop w bs))"
      using 1(3) False d by (subst (asm) decode_bytes.simps) auto
    ultimately show ?thesis using 1(1) [OF False d [symmetric] refl] by blast
  qed
qed

lemma runes_scalar: "r \<in> set (runes s) \<Longrightarrow> scalar r"
proof -
  have b: "0 \<le> byte_of c \<and> byte_of c < 256" for c
    by (cases c) (simp add: byte_of_def of_char_def split: bool.splits)
  assume "r \<in> set (runes s)"
  then show ?thesis using decode_bytes_scalar [of "map byte_of s" r] b by (simp add: runes_decode)
qed

section \<open>Valid text\<close>

definition valid_utf8 :: "string \<Rightarrow> bool" where
  "valid_utf8 s \<longleftrightarrow> of_runes (runes s) = s"

lemma valid_of_runes: "\<forall>r\<in>set rs. scalar r \<Longrightarrow> valid_utf8 (of_runes rs)"
  by (simp add: valid_utf8_def runes_of_runes)

lemma of_runes_Cons: "of_runes (r # rs) = of_bytes (encode_rune r) @ of_runes rs"
  by (simp add: of_runes_def of_bytes_def)

lemma of_runes_Nil [simp]: "of_runes [] = []"
  by (simp add: of_runes_def of_bytes_def)

lemma map_byte_of_bytes: "\<forall>b\<in>set bs. 0 \<le> b \<and> b < 256 \<Longrightarrow> map byte_of (of_bytes bs) = bs"
  by (induction bs) (simp_all add: of_bytes_def byte_of_char_of)

lemma map_byte_encode: "scalar r \<Longrightarrow> map byte_of (of_bytes (encode_rune r)) = encode_scalar r"
  using encode_scalar_bytes [of r] map_byte_of_bytes [of "encode_scalar r"] by (simp add: encode_rune_def)

lemma chunks_of_runes:
  "\<forall>r\<in>set rs. scalar r \<Longrightarrow> chunks (of_runes rs) = map (\<lambda>r. (r, of_bytes (encode_rune r))) rs"
proof (induction rs)
  case Nil
  then show ?case by (simp add: chunks.simps)
next
  case (Cons r rs)
  let ?e = "of_bytes (encode_rune r)"
  have r: "scalar r" using Cons.prems by simp
  have len: "length ?e = length (encode_scalar r)" using r by (simp add: of_bytes_def encode_rune_def)
  then have ne: "?e \<noteq> []" by (metis encode_scalar_ne length_0_conv)
  have "decode_rune (map byte_of (?e @ of_runes rs)) = (r, length ?e)"
    using decode_rune_encode [OF r] map_byte_encode [OF r] len by simp
  then show ?case
    unfolding of_runes_Cons using Cons ne by (subst chunks.simps) simp
qed

end
