(* ===== verification/Bridge.thy ===== *)
theory Bridge
  imports Embed Utf8
begin

text \<open>
  The embedding bridge (\<^verbatim>\<open>tools/nomicbridge\<close>): unary RPCs are truncated, queued, collected into
  micro-batches by one goroutine, and answered from one array-input request to the upstream model.
  The upstream endpoint is an argument: what a request of several texts is answered with, and what a
  JSON body decodes to. A waiting RPC is its number in order of arrival and its text; delivering to its
  reply channel appends to the list of replies.
\<close>

section \<open>Truncation\<close>

definition maxEmbedChars :: nat where "maxEmbedChars = 1200"
definition batchMax :: nat where "batchMax = 32"
definition queueDepth :: nat where "queueDepth = 512"

definition RuneStart :: "char \<Rightarrow> bool" where
  "RuneStart c \<longleftrightarrow> \<not> cont (byte_of c)"

fun cut_back :: "string \<Rightarrow> nat \<Rightarrow> nat" where
  "cut_back s 0 = 0"
| "cut_back s (Suc n) = (if RuneStart (s ! Suc n) then Suc n else cut_back s n)"

definition truncate_text :: "string \<Rightarrow> string" where
  "truncate_text s = (if maxEmbedChars < length s then take (cut_back s maxEmbedChars) s else s)"

definition truncate_body :: "string \<Rightarrow> nat \<Rightarrow> string" where
  "truncate_body b n = (let s = TrimSpace b in if n < length s then take n s @ ''...'' else s)"

section \<open>The upstream request\<close>

text \<open>The outcome of the HTTP exchange: the request could not be built or failed, the body could not be
  read, or a status with a body.\<close>

datatype http_reply = BuildError string | DoError string | ReadError string | Response int string

record 's upstream =
  post :: "string list \<Rightarrow> 's \<Rightarrow> http_reply \<times> 's"
  decode :: "string \<Rightarrow> (string, (int \<times> f32 list) list) result"

datatype batch_error = TooLargeError string | StatusErr go_error

definition l2Normalize :: "f32 list \<Rightarrow> f32 list" where
  "l2Normalize v =
     (let norm = f64_sqrt (sum_squares v) in
      if f64_eq norm (Num 0) then v
      else map (\<lambda>x. f64_to_f32 (f64_div (f32_to_f64 x) norm)) v)"

text \<open>\<^verbatim>\<open>bytes.Contains(bytes.ToLower(raw), "too large")\<close>: no other rune has a lower case letter of that
  text, so folding the ASCII letters decides it.\<close>

definition lower_char :: "char \<Rightarrow> char" where
  "lower_char c = (if 65 \<le> byte_of c \<and> byte_of c \<le> 90 then char_of (byte_of c + 32) else c)"

fun contains :: "string \<Rightarrow> string \<Rightarrow> bool" where
  "contains [] p = (p = [])"
| "contains (c # cs) p = (take (length p) (c # cs) = p \<or> contains cs p)"

definition mentions_too_large :: "string \<Rightarrow> bool" where
  "mentions_too_large raw = contains (map lower_char raw) ''too large''"

text \<open>The loop that files each datum under its index; a nil vector is \<open>None\<close>.\<close>

fun place :: "nat \<Rightarrow> (int \<times> f32 list) list \<Rightarrow> f32 list option list \<Rightarrow> (go_error, f32 list option list) result" where
  "place n [] vecs = Inr vecs"
| "place n ((idx, e) # ds) vecs =
     (if idx < 0 \<or> int n \<le> idx \<or> vecs ! nat idx \<noteq> None
      then Inl (StatusError codes_Internal ''upstream returned bad/duplicate index %d (item %d of %d)'')
      else if length e \<noteq> Dims then Inl (StatusError codes_Internal ''upstream returned %d dims, want %d'')
      else place n ds (vecs[nat idx := Some (l2Normalize e)]))"

definition check_reply :: "'s upstream \<Rightarrow> nat \<Rightarrow> http_reply \<Rightarrow> (batch_error, f32 list option list) result" where
  "check_reply u n r =
     (case r of
        BuildError m \<Rightarrow> Inl (StatusErr (StatusError codes_Internal ''build request: %v''))
      | DoError m \<Rightarrow> Inl (StatusErr (StatusError 14 ''upstream request failed: %v''))
      | ReadError m \<Rightarrow> Inl (StatusErr (StatusError 14 ''read upstream response: %v''))
      | Response code raw \<Rightarrow>
          if 500 \<le> code then
            (if code = 500 \<and> mentions_too_large raw then Inl (TooLargeError (truncate_body raw 200))
             else Inl (StatusErr (StatusError 14 ''upstream HTTP %d: %s'')))
          else if code \<noteq> 200 then Inl (StatusErr (StatusError codes_Internal ''upstream HTTP %d: %s''))
          else (case decode u raw of
              Inl m \<Rightarrow> Inl (StatusErr (StatusError codes_Internal ''malformed upstream response: %v''))
            | Inr ds \<Rightarrow>
                if length ds \<noteq> n
                then Inl (StatusErr (StatusError codes_Internal ''upstream returned %d embeddings, want %d''))
                else (case place n ds (replicate n None) of
                        Inl e \<Rightarrow> Inl (StatusErr e)
                      | Inr vecs \<Rightarrow> Inr vecs)))"

definition embedBatch ::
  "'s upstream \<Rightarrow> string list \<Rightarrow> 's \<Rightarrow> (batch_error, f32 list option list) result \<times> 's" where
  "embedBatch u texts s = (case post u texts s of (r, s') \<Rightarrow> (check_reply u (length texts) r, s'))"

section \<open>Flushing a batch\<close>

type_synonym embedResult = "(go_error, f32 list) result"

definition vec_result :: "f32 list option \<Rightarrow> embedResult" where
  "vec_result v = Inr (case v of None \<Rightarrow> [] | Some x \<Rightarrow> x)"

fun flushIndividually :: "'s upstream \<Rightarrow> (nat \<times> string) list \<Rightarrow> 's \<Rightarrow> (nat \<times> embedResult) list \<times> 's" where
  "flushIndividually u [] s = ([], s)"
| "flushIndividually u ((i, t) # ps) s =
     (case embedBatch u [t] s of (r, s') \<Rightarrow>
        let reply = (case r of
              Inr vecs \<Rightarrow> vec_result (vecs ! 0)
            | Inl (TooLargeError b) \<Rightarrow>
                Inl (StatusError codes_Internal ''text exceeds embedder token limit even after truncation'')
            | Inl (StatusErr e) \<Rightarrow> Inl e);
            (rs, s'') = flushIndividually u ps s'
        in ((i, reply) # rs, s''))"

definition flush :: "'s upstream \<Rightarrow> (nat \<times> string) list \<Rightarrow> 's \<Rightarrow> (nat \<times> embedResult) list \<times> 's" where
  "flush u batch s =
     (case embedBatch u (map snd batch) s of
        (Inr vecs, s') \<Rightarrow> (map (\<lambda>((i, t), v). (i, vec_result v)) (zip batch vecs), s')
      | (Inl (TooLargeError b), s') \<Rightarrow> flushIndividually u batch s'
      | (Inl (StatusErr e), s') \<Rightarrow> (map (\<lambda>(i, t). (i, Inl e)) batch, s'))"

section \<open>The collector\<close>

record 's bridge =
  brQueue :: "(nat \<times> string) list"
  brBatch :: "(nat \<times> string) list"
  brNext :: nat
  brReplies :: "(nat \<times> embedResult) list"
  brBatches :: nat
  brItems :: nat
  brUp :: 's

text \<open>An RPC enters the queue when there is room (it blocks otherwise); the collector takes the first
  item, gathers more while the batch is not full, and flushes.\<close>

definition enqueue :: "string \<Rightarrow> 's bridge \<Rightarrow> 's bridge option" where
  "enqueue msg b =
     (if length (brQueue b) < queueDepth
      then Some (b\<lparr>brQueue := brQueue b @ [(brNext b, truncate_text msg)], brNext := brNext b + 1\<rparr>)
      else None)"

definition collect_start :: "'s bridge \<Rightarrow> 's bridge option" where
  "collect_start b =
     (case (brBatch b, brQueue b) of
        ([], p # q) \<Rightarrow> Some (b\<lparr>brBatch := [p], brQueue := q\<rparr>)
      | _ \<Rightarrow> None)"

definition collect_gather :: "'s bridge \<Rightarrow> 's bridge option" where
  "collect_gather b =
     (if brBatch b \<noteq> [] \<and> length (brBatch b) < batchMax
      then (case brQueue b of p # q \<Rightarrow> Some (b\<lparr>brBatch := brBatch b @ [p], brQueue := q\<rparr>) | [] \<Rightarrow> None)
      else None)"

text \<open>The flush happens when the batch is full or the window has passed, at any length from one up.\<close>

definition collect_flush :: "'s upstream \<Rightarrow> 's bridge \<Rightarrow> 's bridge option" where
  "collect_flush u b =
     (if brBatch b = [] then None
      else case flush u (brBatch b) (brUp b) of
        (rs, s') \<Rightarrow> Some (b\<lparr>brBatch := [], brReplies := brReplies b @ rs, brBatches := brBatches b + 1,
                          brItems := brItems b + length (brBatch b), brUp := s'\<rparr>))"

inductive bridge_step :: "'s upstream \<Rightarrow> 's bridge \<Rightarrow> 's bridge \<Rightarrow> bool" for u where
  "enqueue msg b = Some b' \<Longrightarrow> bridge_step u b b'"
| "collect_start b = Some b' \<Longrightarrow> bridge_step u b b'"
| "collect_gather b = Some b' \<Longrightarrow> bridge_step u b b'"
| "collect_flush u b = Some b' \<Longrightarrow> bridge_step u b b'"

definition new_bridge :: "'s \<Rightarrow> 's bridge" where
  "new_bridge s = \<lparr>brQueue = [], brBatch = [], brNext = 0, brReplies = [], brBatches = 0, brItems = 0, brUp = s\<rparr>"

inductive bridge_run :: "'s upstream \<Rightarrow> 's \<Rightarrow> 's bridge \<Rightarrow> bool" for u s where
  run_start: "bridge_run u s (new_bridge s)"
| run_step: "bridge_run u s b \<Longrightarrow> bridge_step u b b' \<Longrightarrow> bridge_run u s b'"

text \<open>A lone RPC: its text is queued, taken as a batch of one, and flushed when the window has passed.\<close>

definition lone_embed :: "'s upstream \<Rightarrow> string \<times> string \<Rightarrow> 's \<Rightarrow> (go_error, f32 list) result \<times> 's" where
  "lone_embed u req s =
     (case flush u [(0, truncate_text (fst req))] s of (rs, s') \<Rightarrow> (snd (hd rs), s'))"

section \<open>Placement\<close>

lemma l2Normalize_length [simp]: "length (l2Normalize v) = length v"
  by (simp add: l2Normalize_def Let_def)

lemma place_shape:
  "length vecs = n \<Longrightarrow> place n ds vecs = Inr out \<Longrightarrow>
   length out = n \<and> distinct (map fst ds) \<and>
   (\<forall>(idx, e)\<in>set ds. 0 \<le> idx \<and> idx < int n \<and> length e = Dims \<and> vecs ! nat idx = None \<and>
      out ! nat idx = Some (l2Normalize e)) \<and>
   (\<forall>i<n. int i \<notin> fst ` set ds \<longrightarrow> out ! i = vecs ! i)"
proof (induction n ds vecs rule: place.induct)
  case (2 n idx e ds vecs)
  let ?v = "vecs[nat idx := Some (l2Normalize e)]"
  have ok: "0 \<le> idx" "idx < int n" "vecs ! nat idx = None" "length e = Dims" and pl: "place n ds ?v = Inr out"
    using 2(3) by (auto split: if_splits)
  have IH: "length out = n" "distinct (map fst ds)"
    "\<forall>(j, f)\<in>set ds. 0 \<le> j \<and> j < int n \<and> length f = Dims \<and> ?v ! nat j = None \<and> out ! nat j = Some (l2Normalize f)"
    "\<forall>i<n. int i \<notin> fst ` set ds \<longrightarrow> out ! i = ?v ! i"
    using 2(1) [OF _ _ _ pl] ok 2(2) by auto
  have lt: "nat idx < n" using ok by simp
  have new: "idx \<notin> fst ` set ds"
  proof
    assume "idx \<in> fst ` set ds"
    then obtain f where "(idx, f) \<in> set ds" by auto
    then have "?v ! nat idx = None" using IH(3) by auto
    then show False using lt 2(2) by simp
  qed
  have head: "out ! nat idx = Some (l2Normalize e)" using IH(4) lt new ok 2(2) by simp
  have old: "vecs ! nat j = None" if "(j, f) \<in> set ds" for j f
  proof -
    have "j \<noteq> idx" using new that by force
    moreover have "?v ! nat j = None" "0 \<le> j" using IH(3) that by auto
    ultimately show ?thesis using ok by (simp add: nth_list_update eq_nat_nat_iff split: if_splits)
  qed
  have rest: "out ! i = vecs ! i" if "i < n" "int i \<notin> fst ` set ((idx, e) # ds)" for i
  proof -
    have "nat idx \<noteq> i" "int i \<notin> fst ` set ds" using that ok by auto
    then show ?thesis using IH(4) that(1) by simp
  qed
  show ?case using IH(1,2,3) new head ok old rest by auto
qed simp

text \<open>As many data as places, with distinct indices in range, fill every place.\<close>

lemma indices_full:
  assumes "distinct (map fst ds)" "\<forall>(idx, e)\<in>set ds. 0 \<le> idx \<and> idx < int n" "length ds = n"
  shows "fst ` set ds = {0..<int n}"
proof (rule card_subset_eq)
  show "fst ` set ds \<subseteq> {0..<int n}" using assms(2) by auto
  show "card (fst ` set ds) = card {0..<int n}"
    using distinct_card [OF assms(1)] assms(3) by simp
qed simp

lemma place_complete:
  assumes "distinct (map fst ds)" "\<forall>(idx, e)\<in>set ds. 0 \<le> idx \<and> idx < int n \<and> length e = Dims \<and> vecs ! nat idx = None"
    "length vecs = n"
  shows "\<exists>out. place n ds vecs = Inr out"
  using assms
proof (induction n ds vecs rule: place.induct)
  case (2 n idx e ds vecs)
  have ok: "\<not> (idx < 0 \<or> int n \<le> idx \<or> vecs ! nat idx \<noteq> None)" "length e = Dims" using 2(3) by auto
  have "vecs[nat idx := Some (l2Normalize e)] ! nat j = None" if "(j, f) \<in> set ds" for j f
  proof -
    have "j \<noteq> idx" using that 2(2) by force
    moreover have "0 \<le> j" "vecs ! nat j = None" using that 2(3) by auto
    ultimately show ?thesis using ok by (simp add: nth_list_update eq_nat_nat_iff)
  qed
  then have "\<forall>(j, f)\<in>set ds. 0 \<le> j \<and> j < int n \<and> length f = Dims \<and>
      vecs[nat idx := Some (l2Normalize e)] ! nat j = None" using 2(3) by fastforce
  then have "\<exists>out. place n ds (vecs[nat idx := Some (l2Normalize e)]) = Inr out"
    using 2(2,4) ok(2) by (intro 2(1) [OF ok(1)]) auto
  then show ?case using ok by simp
qed simp

text \<open>What a good reply says: one vector of 768 floats for every position, in any order.\<close>

definition good_data :: "nat \<Rightarrow> (int \<times> f32 list) list \<Rightarrow> bool" where
  "good_data n ds \<longleftrightarrow> length ds = n \<and> distinct (map fst ds) \<and>
     list_all (\<lambda>(idx, e). 0 \<le> idx \<and> idx < int n \<and> length e = Dims) ds"

definition aligned :: "nat \<Rightarrow> (int \<times> f32 list) list \<Rightarrow> f32 list option list" where
  "aligned n ds = map (\<lambda>i. map_option l2Normalize (map_of ds (int i))) [0..<n]"

lemma place_aligned: "place n ds (replicate n None) = Inr out \<Longrightarrow> out = aligned n ds"
proof -
  assume p: "place n ds (replicate n None) = Inr out"
  note sh = place_shape [OF length_replicate p]
  have "out ! i = map_option l2Normalize (map_of ds (int i))" if "i < n" for i
  proof (cases "map_of ds (int i)")
    case None
    then have "int i \<notin> fst ` set ds" by (simp add: map_of_eq_None_iff)
    then show ?thesis using sh that None by simp
  next
    case (Some e)
    then have "(int i, e) \<in> set ds" by (rule map_of_SomeD)
    then show ?thesis using sh Some by fastforce
  qed
  then show ?thesis using sh by (intro nth_equalityI) (simp_all add: aligned_def)
qed

lemma place_iff:
  assumes "length ds = n"
  shows "place n ds (replicate n None) = Inr out \<longleftrightarrow> good_data n ds \<and> out = aligned n ds"
proof
  assume p: "place n ds (replicate n None) = Inr out"
  have "good_data n ds" using place_shape [OF length_replicate p] assms by (auto simp: good_data_def list_all_iff)
  then show "good_data n ds \<and> out = aligned n ds" using place_aligned [OF p] by blast
next
  assume a: "good_data n ds \<and> out = aligned n ds"
  then have "\<forall>(idx, e)\<in>set ds. 0 \<le> idx \<and> idx < int n \<and> length e = Dims \<and> replicate n None ! nat idx = (None :: f32 list option)"
    by (auto simp: good_data_def list_all_iff)
  then obtain out' where p: "place n ds (replicate n None) = Inr out'"
    using place_complete [of ds n "replicate n None"] a by (auto simp: good_data_def)
  then show "place n ds (replicate n None) = Inr out" using place_aligned [OF p] a by simp
qed

section \<open>The answer to a batch\<close>

lemma aligned_full: "good_data n ds \<Longrightarrow> i < n \<Longrightarrow> \<exists>e. (int i, e) \<in> set ds \<and> length e = Dims \<and> aligned n ds ! i = Some (l2Normalize e)"
proof -
  assume g: "good_data n ds" and i: "i < n"
  have "fst ` set ds = {0..<int n}"
    by (rule indices_full) (use g in \<open>auto simp: good_data_def list_all_iff\<close>)
  then have "int i \<in> fst ` set ds" using i by simp
  then obtain e where e: "map_of ds (int i) = Some e" by (metis map_of_eq_None_iff not_None_eq)
  then have "(int i, e) \<in> set ds" by (rule map_of_SomeD)
  then show ?thesis using g e i by (auto simp: good_data_def list_all_iff aligned_def)
qed

text \<open>C32. One upstream request answers a batch index for index: it succeeds exactly when the reply has
  status 200 and decodes to one datum per text, with distinct indices in range and 768 floats each, in
  any order; then the \<open>i\<close>-th vector is the normalised embedding of the datum with index \<open>i\<close>, and
  none is missing.\<close>

theorem embedBatch_aligned:
  "embedBatch u texts s = (Inr vecs, s') \<longleftrightarrow>
     (\<exists>raw ds. post u texts s = (Response 200 raw, s') \<and> decode u raw = Inr ds \<and>
        good_data (length texts) ds \<and> vecs = aligned (length texts) ds \<and>
        (\<forall>i<length texts. \<exists>e. (int i, e) \<in> set ds \<and> length e = Dims \<and> vecs ! i = Some (l2Normalize e)))"
proof -
  obtain r t where p: "post u texts s = (r, t)" by force
  have "check_reply u n r = Inr vecs \<longleftrightarrow>
      (\<exists>raw ds. r = Response 200 raw \<and> decode u raw = Inr ds \<and> good_data n ds \<and> vecs = aligned n ds)" for n
  proof (cases r)
    case (Response code raw)
    show ?thesis
    proof (cases "decode u raw")
      case (Inr ds)
      have "good_data n ds \<longrightarrow> length ds = n" by (simp add: good_data_def)
      then show ?thesis using place_iff [of ds n vecs] Response Inr
        by (auto simp: check_reply_def split: sum.split)
    qed (use Response in \<open>auto simp: check_reply_def\<close>)
  qed (auto simp: check_reply_def)
  then show ?thesis using p aligned_full [of "length texts"] by (auto simp: embedBatch_def)
qed

definition echo_upstream :: "nat upstream" where
  "echo_upstream = \<lparr>post = (\<lambda>ts n. (Response 200 (replicate (length ts) (CHR ''x'')), n + 1)),
     decode = (\<lambda>raw. Inr (rev (map (\<lambda>i. (int i, replicate Dims 0)) [0..<length raw])))\<rparr>"

lemma echo_good: "good_data n (rev (map (\<lambda>i. (int i, replicate Dims 0)) [0..<n]))"
  by (auto simp: good_data_def list_all_iff comp_def distinct_map inj_on_def rev_map [symmetric])

theorem embedBatch_aligned_witness:
  "embedBatch echo_upstream [''a'', ''b''] 0 =
     (Inr (aligned 2 (rev (map (\<lambda>i. (int i, replicate Dims 0)) [0..<2]))), 1)"
proof (rule embedBatch_aligned [THEN iffD2], intro exI conjI)
  let ?ds = "rev (map (\<lambda>i. (int i, replicate Dims (0 :: f32))) [0..<2])"
  have l: "length [''a'', ''b''] = 2" by simp
  show "post echo_upstream [''a'', ''b''] 0 = (Response 200 ''xx'', 1)" by (simp add: echo_upstream_def)
  show "decode echo_upstream ''xx'' = Inr ?ds" by (simp add: echo_upstream_def numeral_2_eq_2)
  show "good_data (length [''a'', ''b'']) ?ds" unfolding l by (rule echo_good)
  show "aligned 2 ?ds = aligned (length [''a'', ''b'']) ?ds" by (simp only: l)
  show "\<forall>i<length [''a'', ''b'']. \<exists>e. (int i, e) \<in> set ?ds \<and> length e = Dims \<and> aligned 2 ?ds ! i = Some (l2Normalize e)"
    unfolding l using aligned_full [OF echo_good, of _ 2] by blast
qed

section \<open>Every call is answered once, in order\<close>

lemma flushIndividually_ids: "map fst (fst (flushIndividually u ps s)) = map fst ps"
  by (induction u ps s rule: flushIndividually.induct) (auto simp: Let_def split: prod.splits)

lemma embedBatch_length: "embedBatch u texts s = (Inr vecs, s') \<Longrightarrow> length vecs = length texts"
proof -
  assume e: "embedBatch u texts s = (Inr vecs, s')"
  obtain r t where p: "post u texts s = (r, t)" by force
  then have "check_reply u (length texts) r = Inr vecs" using e by (simp add: embedBatch_def)
  then obtain ds where "place (length texts) ds (replicate (length texts) None) = Inr vecs"
    by (auto simp: check_reply_def split: http_reply.splits if_splits sum.splits)
  then show ?thesis using place_shape [OF length_replicate] by blast
qed

lemma flush_ids: "map fst (fst (flush u batch s)) = map fst batch"
proof -
  obtain r s' where e: "embedBatch u (map snd batch) s = (r, s')" by force
  show ?thesis
  proof (cases r)
    case (Inl x)
    then show ?thesis using e flushIndividually_ids [of u batch s']
      by (cases x) (auto simp: flush_def comp_def case_prod_beta)
  next
    case (Inr vecs)
    then have "length vecs = length batch" using embedBatch_length e by fastforce
    then have "map (fst \<circ> (\<lambda>((i, t), v). (i, vec_result v))) (zip batch vecs) = map fst batch"
      by (intro nth_equalityI) (simp_all add: case_prod_beta)
    then show ?thesis using e Inr by (simp add: flush_def)
  qed
qed

definition bridge_ok :: "'s bridge \<Rightarrow> bool" where
  "bridge_ok b \<longleftrightarrow>
     map fst (brReplies b) @ map fst (brBatch b) @ map fst (brQueue b) = [0..<brNext b] \<and>
     length (brBatch b) \<le> batchMax \<and> length (brQueue b) \<le> queueDepth \<and>
     brItems b = length (brReplies b) \<and> brBatches b \<le> brItems b \<and>
     list_all (\<lambda>p. length (snd p) \<le> maxEmbedChars) (brBatch b @ brQueue b)"

lemma cut_back_le: "cut_back s n \<le> n"
  by (induction n) (auto intro: le_SucI)

lemma truncate_text_length: "length (truncate_text s) \<le> maxEmbedChars"
  using cut_back_le [of s maxEmbedChars] by (simp add: truncate_text_def)

lemma bridge_step_ok: "bridge_step u b b' \<Longrightarrow> bridge_ok b \<Longrightarrow> bridge_ok b'"
proof (induction rule: bridge_step.induct)
  case (1 msg b b')
  then show ?case
    using truncate_text_length [of msg]
    by (auto simp: enqueue_def bridge_ok_def append_assoc [symmetric] simp del: append_assoc split: if_splits)
next
  case (2 b b')
  then show ?case by (auto simp: collect_start_def bridge_ok_def batchMax_def split: list.splits)
next
  case (3 b b')
  then show ?case by (auto simp: collect_gather_def bridge_ok_def split: list.splits if_splits)
next
  case (4 b b')
  obtain rs s' where f: "flush u (brBatch b) (brUp b) = (rs, s')" by force
  have ids: "map fst rs = map fst (brBatch b)" using flush_ids [of u "brBatch b" "brUp b"] f by simp
  then have "length rs = length (brBatch b)" by (metis length_map)
  moreover have "brBatch b \<noteq> []" using 4(1) by (auto simp: collect_flush_def)
  then have "1 \<le> length (brBatch b)" by (cases "brBatch b") auto
  moreover have "b' = b\<lparr>brBatch := [], brReplies := brReplies b @ rs, brBatches := brBatches b + 1,
      brItems := brItems b + length (brBatch b), brUp := s'\<rparr>"
    using 4(1) f by (simp add: collect_flush_def split: if_splits)
  ultimately show ?case using 4(2) ids by (simp add: bridge_ok_def)
qed

text \<open>C13. Whatever the interleaving of arriving calls, gathering and flushing, and whatever the upstream
  answers, the bridge loses, duplicates and reorders no call: the calls answered so far, then those of
  the batch being gathered, then those queued are all calls in order of arrival. A batch never exceeds
  32 texts, no text exceeds 1200 bytes, and the statistics count exactly the answered calls.\<close>

theorem bridge_fifo:
  assumes "bridge_run u s b"
  shows "bridge_ok b"
  using assms
proof (induction rule: bridge_run.induct)
  case run_start
  then show ?case by (simp add: new_bridge_def bridge_ok_def)
next
  case (run_step b b')
  then show ?case by (auto intro: bridge_step_ok)
qed

theorem bridge_fifo_witness:
  "\<exists>b. bridge_run echo_upstream 0 b \<and> bridge_ok b \<and> map fst (brReplies b) = [0] \<and> map fst (brQueue b) = [1]"
proof -
  define b1 b2 b3 b4 where "b1 = the (enqueue ''hello'' (new_bridge (0 :: nat)))" and "b2 = the (enqueue ''world'' b1)"
    and "b3 = the (collect_start b2)" and "b4 = the (collect_flush echo_upstream b3)"
  have s: "enqueue ''hello'' (new_bridge 0) = Some b1" "enqueue ''world'' b1 = Some b2" "collect_start b2 = Some b3"
    "collect_flush echo_upstream b3 = Some b4"
    by (simp_all add: b1_def b2_def b3_def b4_def new_bridge_def enqueue_def collect_start_def collect_flush_def
        queueDepth_def case_prod_beta)
  have "bridge_run echo_upstream 0 b1" by (rule run_step [OF run_start bridge_step.intros(1) [OF s(1)]])
  then have "bridge_run echo_upstream 0 b2" by (rule run_step [OF _ bridge_step.intros(1) [OF s(2)]])
  then have "bridge_run echo_upstream 0 b3" by (rule run_step [OF _ bridge_step.intros(2) [OF s(3)]])
  then have r: "bridge_run echo_upstream 0 b4" by (rule run_step [OF _ bridge_step.intros(4) [OF s(4)]])
  have b3: "b3 = \<lparr>brQueue = [(1, truncate_text ''world'')], brBatch = [(0, truncate_text ''hello'')], brNext = 2,
      brReplies = [], brBatches = 0, brItems = 0, brUp = 0\<rparr>"
    by (simp add: b1_def b2_def b3_def new_bridge_def enqueue_def collect_start_def queueDepth_def)
  obtain rs t where f: "flush echo_upstream (brBatch b3) (brUp b3) = (rs, t)" by force
  have ids: "map fst rs = [0]" using flush_ids [of echo_upstream "brBatch b3" "brUp b3"] unfolding f by (simp add: b3)
  have b3': "brBatch b3 \<noteq> []" "brReplies b3 = []" "map fst (brQueue b3) = [1]" by (simp_all add: b3)
  have "brReplies b4 = brReplies b3 @ rs \<and> brQueue b4 = brQueue b3"
    unfolding b4_def collect_flush_def f using b3'(1) by simp
  then have "map fst (brReplies b4) = [0] \<and> map fst (brQueue b4) = [1]" using ids b3' by simp
  then show ?thesis using r bridge_fifo [OF r] by (intro exI [of _ b4]) (simp only: simp_thms)
qed

section \<open>Truncation keeps whole runes\<close>

lemma cut_back_start:
  assumes "p \<le> n" "p = 0 \<or> RuneStart (s ! p)" "\<forall>j. p < j \<and> j \<le> n \<longrightarrow> \<not> RuneStart (s ! j)"
  shows "cut_back s n = p"
  using assms
proof (induction n)
  case (Suc n)
  show ?case
  proof (cases "p = Suc n")
    case False
    then have "\<not> RuneStart (s ! Suc n)" "cut_back s n = p" using Suc by auto
    then show ?thesis by simp
  qed (use Suc.prems in auto)
qed simp

lemma encoded_bytes:
  assumes "scalar r" and "e = of_bytes (encode_rune r)"
  shows "e \<noteq> []" "length e \<le> 4" "RuneStart (e ! 0)" "\<And>j. 0 < j \<Longrightarrow> j < length e \<Longrightarrow> \<not> RuneStart (e ! j)"
proof -
  have r: "0 \<le> r" "r \<le> 1114111" using assms(1) by (simp_all add: scalar_def)
  have b: "\<forall>b\<in>set (encode_scalar r). 0 \<le> b \<and> b < 256" using encode_scalar_bytes [OF assms(1)] by blast
  have e: "length e = length (encode_scalar r)" "\<And>j. j < length e \<Longrightarrow> byte_of (e ! j) = encode_scalar r ! j"
    using b assms by (auto simp: of_bytes_def encode_rune_def byte_of_char_of)
  have l4: "length (encode_scalar r) \<le> 4" by (simp add: encode_scalar_def)
  show "e \<noteq> []" "length e \<le> 4" using e(1) l4 by auto
  then have "byte_of (e ! 0) = encode_scalar r ! 0" using e(2) [of 0] by simp
  then show "RuneStart (e ! 0)" using r by (auto simp: RuneStart_def cont_def encode_scalar_def)
  show "\<not> RuneStart (e ! j)" if "0 < j" "j < length e" for j
  proof -
    have c: "cont (128 + x mod 64)" for x by (simp add: cont_def)
    have "\<forall>b\<in>set (tl (encode_scalar r)). cont b" by (simp add: encode_scalar_def c)
    moreover have "encode_scalar r ! j \<in> set (tl (encode_scalar r))"
      using that e(1) nth_mem [of "j - 1" "tl (encode_scalar r)"] by (simp add: nth_tl)
    ultimately have "cont (encode_scalar r ! j)" by blast
    then show ?thesis using e(2) [OF that(2)] by (simp add: RuneStart_def)
  qed
qed

lemma of_runes_append: "of_runes (a @ b) = of_runes a @ of_runes b"
  by (simp add: of_runes_def of_bytes_def)

text \<open>The rune a byte position falls into.\<close>

lemma rune_at:
  assumes "\<forall>r\<in>set rs. scalar r" and "n < length (of_runes rs)"
  obtains k where "k < length rs" "length (of_runes (take k rs)) \<le> n"
    "n < length (of_runes (take k rs)) + length (of_bytes (encode_rune (rs ! k)))"
  using assms
proof (induction rs arbitrary: n thesis)
  case Nil
  then show ?case by (simp add: of_runes_def of_bytes_def)
next
  case (Cons r rs)
  have one: "of_runes (r # xs) = of_bytes (encode_rune r) @ of_runes xs" for xs by (simp add: of_runes_def of_bytes_def)
  show ?case
  proof (cases "n < length (of_bytes (encode_rune r))")
    case True
    then show ?thesis using Cons.prems(1) [of 0] by (simp add: of_runes_def of_bytes_def)
  next
    case False
    have "n - length (of_bytes (encode_rune r)) < length (of_runes rs)" using Cons.prems(3) False by (simp add: one)
    then obtain k where "k < length rs" "length (of_runes (take k rs)) \<le> n - length (of_bytes (encode_rune r))"
      "n - length (of_bytes (encode_rune r)) < length (of_runes (take k rs)) + length (of_bytes (encode_rune (rs ! k)))"
      using Cons.IH [of "n - length (of_bytes (encode_rune r))"] Cons.prems(2) by auto
    then show ?thesis using Cons.prems(1) [of "Suc k"] False by (simp add: one)
  qed
qed

text \<open>Truncating a valid UTF-8 text cuts between runes: what is sent upstream is the text itself when
  it has at most 1200 bytes, and otherwise its longest prefix of whole runes of at most 1200 bytes, of
  which at most three bytes are given up.\<close>

theorem truncate_whole_runes:
  assumes "\<forall>r\<in>set rs. scalar r"
  shows "\<exists>k\<le>length rs. truncate_text (of_runes rs) = of_runes (take k rs) \<and>
    (if length (of_runes rs) \<le> 1200 then k = length rs
     else 1196 < length (of_runes (take k rs)) \<and> length (of_runes (take k rs)) \<le> 1200 \<and>
       1200 < length (of_runes (take (Suc k) rs)))"
proof (cases "length (of_runes rs) \<le> 1200")
  case True
  then show ?thesis by (intro exI [of _ "length rs"]) (simp add: truncate_text_def maxEmbedChars_def)
next
  case False
  then obtain k where k: "k < length rs" "length (of_runes (take k rs)) \<le> 1200"
    "1200 < length (of_runes (take k rs)) + length (of_bytes (encode_rune (rs ! k)))"
    using rune_at [OF assms, of 1200] by auto
  define pre e post where "pre = of_runes (take k rs)" and "e = of_bytes (encode_rune (rs ! k))"
    and "post = of_runes (drop (Suc k) rs)"
  have sk: "of_runes (take (Suc k) rs) = pre @ e"
    using k(1) by (simp add: take_Suc_conv_app_nth of_runes_append pre_def e_def) (simp add: of_runes_def of_bytes_def)
  have s: "of_runes rs = pre @ e @ post"
    using of_runes_append [of "take (Suc k) rs" "drop (Suc k) rs"] sk by (simp add: post_def)
  have "scalar (rs ! k)" using assms k(1) by simp
  note b = encoded_bytes [OF this e_def]
  have at: "of_runes rs ! j = e ! (j - length pre)" if "length pre \<le> j" "j < length pre + length e" for j
    using that unfolding s by (auto simp: nth_append)
  have le: "length pre \<le> 1200" "1200 < length pre + length e" using k by (simp_all add: pre_def e_def)
  have "cut_back (of_runes rs) 1200 = length pre"
  proof (rule cut_back_start)
    show "length pre \<le> 1200" by (rule le)
    show "length pre = 0 \<or> RuneStart (of_runes rs ! length pre)" using at [of "length pre"] b(1,3) by simp
    show "\<forall>j. length pre < j \<and> j \<le> 1200 \<longrightarrow> \<not> RuneStart (of_runes rs ! j)"
    proof (intro allI impI)
      fix j assume j: "length pre < j \<and> j \<le> 1200"
      then have "of_runes rs ! j = e ! (j - length pre)" using at le by simp
      moreover have "\<not> RuneStart (e ! (j - length pre))" using j le by (intro b(4)) auto
      ultimately show "\<not> RuneStart (of_runes rs ! j)" by simp
    qed
  qed
  then have "truncate_text (of_runes rs) = pre" using False s by (simp add: truncate_text_def maxEmbedChars_def)
  then show ?thesis using False k(1) le b(2) sk by (intro exI [of _ k]) (simp add: pre_def)
qed

lemma length_of_runes_replicate: "length (of_runes (replicate n r)) = n * length (encode_rune r)"
proof (induction n)
  case 0
  show ?case by (simp add: of_runes_def of_bytes_def)
next
  case (Suc n)
  then show ?case by (simp add: of_runes_Cons) (simp add: of_bytes_def)
qed

theorem truncate_whole_runes_witness:
  "1196 < length (truncate_text (of_runes (97 # replicate 400 8364))) \<and>
   length (truncate_text (of_runes (97 # replicate 400 8364))) \<le> 1200"
proof -
  have "\<forall>r\<in>set (97 # replicate 400 8364). scalar r" by (simp add: scalar_def)
  moreover have "length (of_runes (97 # replicate 400 8364)) = 1201"
    by (simp add: of_runes_Cons length_of_runes_replicate of_bytes_def encode_rune_def encode_scalar_def scalar_def)
  ultimately show ?thesis using truncate_whole_runes [of "97 # replicate 400 8364"] by auto
qed

section \<open>Behind the gRPC transport\<close>

lemma lone_embed_dims: "fst (lone_embed u req s) = Inr v \<Longrightarrow> length v = Dims"
proof -
  have one: "length (case vecs ! 0 of None \<Rightarrow> [] | Some x \<Rightarrow> x) = Dims"
    if e: "embedBatch u [t] s = (Inr vecs, s')" for t s vecs s'
  proof -
    obtain r where p: "post u [t] s = (r, s')" and c: "check_reply u 1 r = Inr vecs"
      using e by (auto simp: embedBatch_def split: prod.splits)
    then obtain ds where "place 1 ds (replicate 1 None) = Inr vecs" "length ds = 1"
      by (auto simp: check_reply_def split: http_reply.splits if_splits sum.splits)
    then have "good_data 1 ds" "vecs = aligned 1 ds" using place_iff by blast+
    then show ?thesis using aligned_full [of 1 ds 0] by auto
  qed
  assume l: "fst (lone_embed u req s) = Inr v"
  obtain r s' where e: "embedBatch u [truncate_text (fst req)] s = (r, s')" by force
  obtain r2 s2 where e2: "embedBatch u [truncate_text (fst req)] s' = (r2, s2)" by force
  show ?thesis
  proof (cases r)
    case (Inr vecs)
    then have "length vecs = 1" using embedBatch_length e by fastforce
    then obtain w where "vecs = [w]" by (auto simp: length_Suc_conv)
    then show ?thesis using l e Inr one [OF e [unfolded Inr]] by (simp add: lone_embed_def flush_def vec_result_def)
  next
    case (Inl x)
    show ?thesis
    proof (cases x)
      case (TooLargeError b)
      then obtain vecs where "r2 = Inr vecs" "v = (case vecs ! 0 of None \<Rightarrow> [] | Some x \<Rightarrow> x)"
        using l e e2 Inl
        by (auto simp: lone_embed_def flush_def vec_result_def split: sum.splits batch_error.splits)
      then show ?thesis using one e2 by blast
    next
      case (StatusErr y)
      then show ?thesis using l e Inl by (simp add: lone_embed_def flush_def)
    qed
  qed
qed

interpretation bridge_transport: vec_source "GRPCEmbedder_Embed None (lone_embed u)" "\<lambda>_. True" for u
  by unfold_locales (auto simp: GRPCEmbedder_Embed_def Let_def split: prod.splits sum.splits if_splits)

definition bridge_transient :: "'s upstream \<Rightarrow> string \<Rightarrow> 's \<Rightarrow> bool" where
  "bridge_transient u msg s \<longleftrightarrow>
     (case fst (post u [truncate_text msg] s) of
        DoError m \<Rightarrow> True | ReadError m \<Rightarrow> True
      | Response code raw \<Rightarrow> 500 \<le> code \<and> \<not> (code = 500 \<and> mentions_too_large raw)
      | BuildError m \<Rightarrow> False)"

text \<open>Through the gRPC transport a lone call to the bridge fails permanently or transiently as the
  upstream failed: unless the upstream says the input is too large, an unreachable upstream and every
  other 5xx is a transient error, which the caller retries, and every other failure is permanent; a
  success has 768 floats and its state is that after one request.\<close>

theorem bridge_error_mapping:
  assumes "\<nexists>raw. fst (post u [truncate_text msg] s) = Response 500 raw \<and> mentions_too_large raw"
  shows "(case fst (GRPCEmbedder_Embed None (lone_embed u) msg s) of
       Inr v \<Rightarrow> length v = Dims \<and> \<not> bridge_transient u msg s
     | Inl e \<Rightarrow> IsPermanent e \<longleftrightarrow> \<not> bridge_transient u msg s) \<and>
    snd (GRPCEmbedder_Embed None (lone_embed u) msg s) = snd (post u [truncate_text msg] s)"
proof -
  let ?t = "truncate_text msg"
  obtain r t where p: "post u [?t] s = (r, t)" by force
  have e: "embedBatch u [?t] s = (check_reply u 1 r, t)" by (simp add: embedBatch_def p)
  have small: "check_reply u 1 r \<noteq> Inl (TooLargeError b)" for b
    using assms p by (auto simp: check_reply_def split: http_reply.splits if_splits sum.splits)
  have lone: "lone_embed u (msg, k) s =
      (case check_reply u 1 r of Inr vecs \<Rightarrow> vec_result (vecs ! 0) | Inl (StatusErr x) \<Rightarrow> Inl x, t)" for k
  proof (cases "check_reply u 1 r")
    case (Inl y)
    then obtain x where "y = StatusErr x" using small by (cases y) auto
    then show ?thesis using e Inl by (simp add: lone_embed_def flush_def)
  next
    case (Inr vecs)
    then have "length vecs = 1" using embedBatch_length [of u "[?t]"] e by simp
    then obtain w where "vecs = [w]" by (auto simp: length_Suc_conv)
    then show ?thesis using e Inr by (simp add: lone_embed_def flush_def)
  qed
  have place_err: "status_code y = 13" if "place n ds vs = Inl y" for n ds vs y
    using that by (induction n ds vs rule: place.induct) (auto split: if_splits)
  show ?thesis
  proof (cases "check_reply u 1 r")
    case (Inr vecs)
    then have "\<not> bridge_transient u msg s"
      using p by (auto simp: bridge_transient_def check_reply_def split: http_reply.splits if_splits)
    moreover have "length v = Dims" if "vec_result (vecs ! 0) = Inr v" for v
      using lone_embed_dims [of u "(msg, '''')" s v] lone [of "''''"] Inr that by simp
    ultimately show ?thesis
      using lone Inr p
      by (auto simp: GRPCEmbedder_Embed_def Let_def vec_result_def split: sum.splits prod.splits)
  next
    case (Inl y)
    then obtain x where x: "y = StatusErr x" using small by (cases y) auto
    have "status_code x = 13 \<longleftrightarrow> \<not> bridge_transient u msg s"
      using Inl x p place_err
      by (auto simp: bridge_transient_def check_reply_def split: http_reply.splits if_splits sum.splits)
    moreover have "\<not> IsPermanent x"
    proof -
      have "\<not> IsPermanent y" if "place n ds vs = Inl y" for n ds vs y
        using that by (induction n ds vs rule: place.induct) (auto split: if_splits)
      then show ?thesis
        using Inl x by (auto simp: check_reply_def split: http_reply.splits if_splits sum.splits)
    qed
    ultimately show ?thesis
      using lone Inl x p by (auto simp: GRPCEmbedder_Embed_def Let_def)
  qed
qed

theorem bridge_error_mapping_witness:
  "length (case fst (GRPCEmbedder_Embed None (lone_embed echo_upstream) ''hi'' 0) of Inr v \<Rightarrow> v | Inl e \<Rightarrow> replicate Dims 0) = Dims \<and>
   snd (GRPCEmbedder_Embed None (lone_embed echo_upstream) ''hi'' 0) = 1"
proof -
  have "\<nexists>raw. fst (post echo_upstream [truncate_text ''hi''] 0) = Response 500 raw \<and> mentions_too_large raw"
    by (simp add: echo_upstream_def)
  from bridge_error_mapping [OF this] show ?thesis by (auto simp: echo_upstream_def split: sum.splits)
qed

end
