(* ===== verification/Batch.thy ===== *)
theory Batch
  imports Embed
begin

text \<open>
  The enrichment activities (\<^verbatim>\<open>internal/enrich/activities.go\<close>): the store interface and its
  Postgres adapter, the backlog count, the planning of a wave and the processing of one batch. A
  batch runs one goroutine per memory; every access of a goroutine to shared state (the launch under
  the concurrency limit, the return of the embedding call, the insert, the progress mutex, the
  heartbeat) is one action, and a run is a list of actions, so the theorems are about every
  interleaving and every answer of the embedder.
\<close>

section \<open>The store interface and its Postgres adapter\<close>

record 'd enrich_store =
  stCountPending :: "int16 \<Rightarrow> 'd \<Rightarrow> (go_error, int) result \<times> 'd"
  stPendingIDs :: "int16 \<Rightarrow> int \<Rightarrow> 'd \<Rightarrow> (go_error, int list) result \<times> 'd"
  stInsertDone :: "DoneEvent \<Rightarrow> 'd \<Rightarrow> (go_error, unit) result \<times> 'd"
  stInsertFailed :: "FailedEvent \<Rightarrow> 'd \<Rightarrow> (go_error, unit) result \<times> 'd"

text \<open>The state behind a connection: the clock, the ledger, and the fate of the next statements. A
  refused statement has no effect; when the reply is lost the statement took effect but the caller
  sees an error all the same. Statements beyond the list succeed.\<close>

datatype fate = Answered | Refused | ReplyLost

record pg_state =
  ps_now :: instant
  ps_db :: ledger
  ps_fates :: "fate list"

definition pg_statement ::
  "(instant \<Rightarrow> ledger \<Rightarrow> (pg_error, 'a) result \<times> ledger) \<Rightarrow> pg_state \<Rightarrow> (go_error, 'a) result \<times> pg_state"
  where
  "pg_statement f s =
     (let s' = s\<lparr>ps_fates := tl (ps_fates s)\<rparr>;
          lost = Inl (PgError Unavailable);
          (r, db') = f (ps_now s) (ps_db s)
      in case (if ps_fates s = [] then Answered else hd (ps_fates s)) of
           Refused \<Rightarrow> (lost, s')
         | ReplyLost \<Rightarrow> (lost, s'\<lparr>ps_db := db'\<rparr>)
         | Answered \<Rightarrow> (case r of Inl e \<Rightarrow> Inl (PgError e) | Inr x \<Rightarrow> Inr x,
                        s'\<lparr>ps_db := db'\<rparr>))"

record PGStore =
  MaxAttempts :: int
  BackoffBase :: duration

definition NewPGStore :: PGStore where
  "NewPGStore = \<lparr>MaxAttempts = 5, BackoffBase = 1000000000\<rparr>"

definition PGStore_CountPending :: "PGStore \<Rightarrow> int16 \<Rightarrow> pg_state \<Rightarrow> (go_error, int) result \<times> pg_state" where
  "PGStore_CountPending s v =
     pg_statement
       (\<lambda>now db. (CountPending now v (MaxAttempts s) (BackoffBase s) db, db))"

definition PGStore_PendingIDs :: "PGStore \<Rightarrow> int16 \<Rightarrow> int \<Rightarrow> pg_state \<Rightarrow> (go_error, int list) result \<times> pg_state" where
  "PGStore_PendingIDs s v limit =
     pg_statement
       (\<lambda>now db. (PendingMemoryIDs now v (MaxAttempts s) (BackoffBase s) limit db, db))"

definition PGStore_InsertDone :: "DoneEvent \<Rightarrow> pg_state \<Rightarrow> (go_error, unit) result \<times> pg_state" where
  "PGStore_InsertDone e = pg_statement (\<lambda>now. InsertEnrichmentDone now e)"

definition PGStore_InsertFailed :: "FailedEvent \<Rightarrow> pg_state \<Rightarrow> (go_error, unit) result \<times> pg_state" where
  "PGStore_InsertFailed e = pg_statement (\<lambda>now. InsertEnrichmentFailed now e)"

definition pg_store :: "PGStore \<Rightarrow> pg_state enrich_store" where
  "pg_store s =
     \<lparr>stCountPending = PGStore_CountPending s, stPendingIDs = PGStore_PendingIDs s,
      stInsertDone = PGStore_InsertDone, stInsertFailed = PGStore_InsertFailed\<rparr>"

section \<open>Counting and planning\<close>

record MemoryText =
  mtMemoryID :: int
  mtText :: string
  mtLexemes :: "string list"
  mtTS :: "instant option"

record 'd Activities =
  aStore :: "'d enrich_store"
  aSource :: "int list \<Rightarrow> 'd \<Rightarrow> (go_error, MemoryText list) result"
  aVersion :: int16
  aEmbedConcurrency :: int

text \<open>\<^verbatim>\<open>DefaultVersion\<close> is a package variable the server assigns; it is an argument.\<close>

definition act_version :: "int16 \<Rightarrow> 'd Activities \<Rightarrow> int16 \<Rightarrow> int16" where
  "act_version DefaultVersion a v = (if v \<noteq> 0 then v else if aVersion a \<noteq> 0 then aVersion a else DefaultVersion)"

definition DefaultBatchSize :: int where "DefaultBatchSize = 128"
definition DefaultFanOut :: int where "DefaultFanOut = 8"
definition DefaultEmbedConcurrency :: int where "DefaultEmbedConcurrency = 32"

definition CountBacklog :: "int16 \<Rightarrow> 'd Activities \<Rightarrow> int16 \<Rightarrow> 'd \<Rightarrow> (go_error, int) result \<times> 'd" where
  "CountBacklog dv a v d =
     (case stCountPending (aStore a) (act_version dv a v) d of
        (Inl e, d') \<Rightarrow> (Inl (Wrapf ''enrich: count backlog: %w'' [] e), d')
      | (Inr n, d') \<Rightarrow> (Inr n, d'))"

record BatchInput =
  biVersion :: int16
  biIDs :: "int list"

text \<open>A product of two Go \<^verbatim>\<open>int\<close>s wraps at 64 bits.\<close>

definition mul64 :: "int \<Rightarrow> int \<Rightarrow> int" where
  "mul64 x y = sint (word_of_int (x * y) :: int64)"

definition PlanRanges ::
  "int16 \<Rightarrow> 'd Activities \<Rightarrow> int16 \<Rightarrow> int \<Rightarrow> int \<Rightarrow> 'd \<Rightarrow> (go_error, BatchInput list) result \<times> 'd" where
  "PlanRanges dv a version batchSize0 maxBatches0 d =
     (let batchSize = (if batchSize0 \<le> 0 then DefaultBatchSize else batchSize0);
          maxBatches = (if maxBatches0 \<le> 0 then DefaultFanOut else maxBatches0);
          v = act_version dv a version
      in case stPendingIDs (aStore a) v (mul64 batchSize maxBatches) d of
           (Inl e, d') \<Rightarrow> (Inl (Wrapf ''enrich: plan ranges: %w'' [] e), d')
         | (Inr ids, d') \<Rightarrow>
             (Inr (map (\<lambda>p. \<lparr>biVersion = v, biIDs = p\<rparr>) (pages (nat batchSize) ids)), d'))"

section \<open>Progress\<close>

record progress =
  terminal :: "bool list"
  watermark :: nat

function advance :: "bool list \<Rightarrow> nat \<Rightarrow> nat" where
  "advance ts w = (if w < length ts \<and> ts ! w then advance ts (w + 1) else w)"
  by pat_completeness auto
termination
  by (relation "measure (\<lambda>(ts, w). length ts - w)") auto

declare advance.simps [simp del]

text \<open>\<^const>\<open>None\<close> is the index panic.\<close>

definition mark :: "nat \<Rightarrow> progress \<Rightarrow> (nat \<times> progress) option" where
  "mark i p =
     (if i < length (terminal p)
      then let ts = (terminal p)[i := True]; w = advance ts (watermark p)
           in Some (w, \<lparr>terminal = ts, watermark = w\<rparr>)
      else None)"

definition current :: "progress \<Rightarrow> nat" where
  "current p = watermark p"

section \<open>Processing a batch\<close>

record BatchResult =
  rDone :: nat
  rFailed :: nat
  rPermanent :: nat

text \<open>Where a goroutine stands. \<open>Inserted t\<close>: the event is in the ledger, \<open>t\<close> says whether the outcome
  is terminal; \<open>Marked w\<close>: about to record the heartbeat \<open>w\<close>.\<close>

datatype phase =
    Queued
  | Running
  | Embedded "(go_error, f32 list) result"
  | Inserted bool
  | Marked nat
  | Exited

record 'd batch =
  bPhase :: "phase list"
  bProg :: progress
  bDone :: nat
  bFailed :: nat
  bPermanent :: nat
  bBeats :: "nat list"
  bErr :: "go_error option"
  bPanic :: bool
  bStore :: 'd

record batch_env =
  eVersion :: int16
  eAttempt :: int
  eStart :: nat
  eLimit :: nat
  eItems :: "MemoryText list"
  eRender :: "go_error \<Rightarrow> string"

datatype act =
    Launch
  | EmbedReturns nat "(go_error, f32 list) result"
  | Inserts nat
  | Marks nat
  | Beats nat

definition active :: "phase \<Rightarrow> bool" where
  "active p \<longleftrightarrow> p \<noteq> Queued \<and> p \<noteq> Exited"

definition phase_of :: "nat \<Rightarrow> 'd batch \<Rightarrow> phase option" where
  "phase_of i b = (if i < length (bPhase b) then Some (bPhase b ! i) else None)"

definition set_phase :: "nat \<Rightarrow> phase \<Rightarrow> 'd batch \<Rightarrow> 'd batch" where
  "set_phase i p b = b\<lparr>bPhase := (bPhase b)[i := p]\<rparr>"

definition failed_event :: "batch_env \<Rightarrow> MemoryText \<Rightarrow> go_error \<Rightarrow> FailedEvent" where
  "failed_event env item err =
     \<lparr>fMemoryID = mtMemoryID item, fVersion = eVersion env, fAttempt = eAttempt env,
      fPermanent = IsPermanent err, fErrorMessage = eRender env err, fCreatedAt = None\<rparr>"

definition done_event :: "batch_env \<Rightarrow> MemoryText \<Rightarrow> f32 list \<Rightarrow> DoneEvent" where
  "done_event env item vec =
     \<lparr>dMemoryID = mtMemoryID item, dVersion = eVersion env, dAttempt = eAttempt env,
      dNormalizedText = mtText item, dLexemes = mtLexemes item, dTS = mtTS item,
      dEmbedding = PackVector vec\<rparr>"

text \<open>\<^verbatim>\<open>errgroup\<close> keeps the first error.\<close>

definition group_error :: "go_error \<Rightarrow> 'd batch \<Rightarrow> 'd batch" where
  "group_error e b = (case bErr b of None \<Rightarrow> b\<lparr>bErr := Some e\<rparr> | Some _ \<Rightarrow> b)"

definition insert_outcome ::
  "'d enrich_store \<Rightarrow> batch_env \<Rightarrow> nat \<Rightarrow> (go_error, f32 list) result \<Rightarrow> 'd batch \<Rightarrow> 'd batch" where
  "insert_outcome st env i r b =
     (let item = eItems env ! i in
      case r of
        Inl err \<Rightarrow>
          (case stInsertFailed st (failed_event env item err) (bStore b) of
             (Inl ierr, d') \<Rightarrow>
               set_phase i Exited
                 (group_error (Wrapf ''enrich: append failed event for memory %d: %w''
                                 [AInt (mtMemoryID item)] ierr) (b\<lparr>bStore := d'\<rparr>))
           | (Inr _, d') \<Rightarrow>
               set_phase i (Inserted (IsPermanent err))
                 (if IsPermanent err then b\<lparr>bStore := d', bPermanent := bPermanent b + 1\<rparr>
                  else b\<lparr>bStore := d', bFailed := bFailed b + 1\<rparr>))
      | Inr vec \<Rightarrow>
          (case stInsertDone st (done_event env item vec) (bStore b) of
             (Inl ierr, d') \<Rightarrow>
               set_phase i Exited
                 (group_error (Wrapf ''enrich: append done event for memory %d: %w''
                                 [AInt (mtMemoryID item)] ierr) (b\<lparr>bStore := d'\<rparr>))
           | (Inr _, d') \<Rightarrow>
               set_phase i (Inserted True) (b\<lparr>bStore := d', bDone := bDone b + 1\<rparr>)))"

definition mark_outcome :: "batch_env \<Rightarrow> nat \<Rightarrow> bool \<Rightarrow> 'd batch \<Rightarrow> 'd batch" where
  "mark_outcome env i t b =
     (if t then
        (case mark (eStart env + i) (bProg b) of
           None \<Rightarrow> b\<lparr>bPanic := True\<rparr>
         | Some (w, p) \<Rightarrow> set_phase i (Marked w) (b\<lparr>bProg := p\<rparr>))
      else set_phase i (Marked (current (bProg b))) b)"

text \<open>One action; \<^const>\<open>None\<close> when it is not enabled. The launching loop starts the items in order and
  blocks while the limit of active goroutines is reached.\<close>

fun first_queued :: "phase list \<Rightarrow> nat option" where
  "first_queued [] = None"
| "first_queued (p # ps) = (if p = Queued then Some 0 else map_option Suc (first_queued ps))"

definition batch_step :: "'d enrich_store \<Rightarrow> batch_env \<Rightarrow> act \<Rightarrow> 'd batch \<Rightarrow> 'd batch option" where
  "batch_step st env a b =
     (if bPanic b then None
      else case a of
        Launch \<Rightarrow>
          (case first_queued (bPhase b) of
             None \<Rightarrow> None
           | Some i \<Rightarrow> if count_by active (bPhase b) < eLimit env then Some (set_phase i Running b) else None)
      | EmbedReturns i r \<Rightarrow> (if phase_of i b = Some Running then Some (set_phase i (Embedded r) b) else None)
      | Inserts i \<Rightarrow> (case phase_of i b of Some (Embedded r) \<Rightarrow> Some (insert_outcome st env i r b) | _ \<Rightarrow> None)
      | Marks i \<Rightarrow> (case phase_of i b of Some (Inserted t) \<Rightarrow> Some (mark_outcome env i t b) | _ \<Rightarrow> None)
      | Beats i \<Rightarrow>
          (case phase_of i b of
             Some (Marked w) \<Rightarrow> Some (set_phase i Exited (b\<lparr>bBeats := bBeats b @ [w]\<rparr>))
           | _ \<Rightarrow> None))"

fun run_acts :: "'d enrich_store \<Rightarrow> batch_env \<Rightarrow> act list \<Rightarrow> 'd batch \<Rightarrow> 'd batch option" where
  "run_acts st env [] b = Some b"
| "run_acts st env (a # as) b =
     (case batch_step st env a b of None \<Rightarrow> None | Some b' \<Rightarrow> run_acts st env as b')"

definition start_batch :: "nat \<Rightarrow> nat \<Rightarrow> nat \<Rightarrow> 'd \<Rightarrow> 'd batch" where
  "start_batch n startIdx items d =
     \<lparr>bPhase = replicate items Queued,
      bProg = \<lparr>terminal = replicate startIdx True @ replicate (n - startIdx) False, watermark = startIdx\<rparr>,
      bDone = 0, bFailed = 0, bPermanent = 0, bBeats = [], bErr = None, bPanic = False, bStore = d\<rparr>"

datatype heartbeat = NoDetails | BadDetails | Details int

definition resume_index :: "heartbeat \<Rightarrow> nat \<Rightarrow> nat" where
  "resume_index hb n =
     (case hb of
        NoDetails \<Rightarrow> 0
      | BadDetails \<Rightarrow> 0
      | Details s \<Rightarrow> if s < 0 \<or> s > int n then 0 else nat s)"

datatype batch_end =
    Returned BatchResult "go_error option"
  | Panicked

definition batch_result :: "'d batch \<Rightarrow> batch_end" where
  "batch_result b =
     (let res = \<lparr>rDone = bDone b, rFailed = bFailed b, rPermanent = bPermanent b\<rparr> in
      if bPanic b then Panicked
      else case bErr b of
        Some e \<Rightarrow> Returned res (Some e)
      | None \<Rightarrow>
          if rFailed res > 0 \<and> rDone res = 0
          then Returned res (Some (Errorf ''enrich: all %d retryable items in batch failed transiently''
                                     [AInt (int (rFailed res))]))
          else Returned res None)"

definition batch_over :: "'d batch \<Rightarrow> bool" where
  "batch_over b \<longleftrightarrow> bPanic b \<or> list_all (\<lambda>p. p = Exited) (bPhase b)"

definition batch_env_of ::
  "int16 \<Rightarrow> 'd Activities \<Rightarrow> (go_error \<Rightarrow> string) \<Rightarrow> int \<Rightarrow> nat \<Rightarrow> BatchInput \<Rightarrow> MemoryText list \<Rightarrow> batch_env" where
  "batch_env_of dv a render attempt startIdx inp items =
     \<lparr>eVersion = act_version dv a (biVersion inp), eAttempt = attempt, eStart = startIdx,
      eLimit = nat (if aEmbedConcurrency a \<le> 0 then DefaultEmbedConcurrency else aEmbedConcurrency a),
      eItems = items, eRender = render\<rparr>"

text \<open>\<^const>\<open>None\<close> when the actions are not a complete run of this batch. The result has the end of the
  activity, the heartbeats in the order they were recorded, and the state of the store.\<close>

definition ProcessBatch ::
  "int16 \<Rightarrow> 'd Activities \<Rightarrow> (go_error \<Rightarrow> string) \<Rightarrow> heartbeat \<Rightarrow> int \<Rightarrow> act list \<Rightarrow> BatchInput \<Rightarrow> 'd \<Rightarrow>
     (batch_end \<times> nat list \<times> 'd) option" where
  "ProcessBatch dv a render hb attempt acts inp d =
     (let n = length (biIDs inp); startIdx = resume_index hb n; zero = \<lparr>rDone = 0, rFailed = 0, rPermanent = 0\<rparr> in
      if startIdx \<ge> n then (if acts = [] then Some (Returned zero None, [], d) else None)
      else case aSource a (drop startIdx (biIDs inp)) d of
        Inl e \<Rightarrow>
          (if acts = [] then Some (Returned zero (Some (Wrapf ''enrich: fetch texts: %w'' [] e)), [], d) else None)
      | Inr items \<Rightarrow>
          (case run_acts (aStore a) (batch_env_of dv a render attempt startIdx inp items) acts
                  (start_batch n startIdx (length items) d) of
             None \<Rightarrow> None
           | Some b \<Rightarrow> if batch_over b then Some (batch_result b, bBeats b, bStore b) else None))"

section \<open>The watermark\<close>

lemma advance_ge: "w \<le> advance ts w"
proof (induction ts w rule: advance.induct)
  case (1 ts w)
  then show ?case by (subst advance.simps) auto
qed

lemma advance_le: "w \<le> length ts \<Longrightarrow> advance ts w \<le> length ts"
proof (induction ts w rule: advance.induct)
  case (1 ts w)
  then show ?case by (subst advance.simps) auto
qed

lemma advance_terminal: "w \<le> j \<Longrightarrow> j < advance ts w \<Longrightarrow> ts ! j"
proof (induction ts w rule: advance.induct)
  case (1 ts w)
  then show ?case by (cases "j = w") (auto simp: advance.simps [of ts w] split: if_splits)
qed

lemma advance_stops: "advance ts w < length ts \<Longrightarrow> \<not> ts ! advance ts w"
proof (induction ts w rule: advance.induct)
  case (1 ts w)
  then show ?case by (auto simp: advance.simps [of ts w] split: if_splits)
qed

definition prog_ok :: "nat \<Rightarrow> progress \<Rightarrow> bool" where
  "prog_ok n p \<longleftrightarrow> length (terminal p) = n \<and> watermark p \<le> n \<and> (\<forall>j<watermark p. terminal p ! j)"

lemma mark_ok:
  assumes "prog_ok n p" and "i < n"
  obtains w p' where "mark i p = Some (w, p')" and "prog_ok n p'" and "watermark p' = w"
    and "watermark p \<le> w" and "terminal p' = (terminal p)[i := True]"
proof -
  let ?ts = "(terminal p)[i := True]" and ?w = "advance ((terminal p)[i := True]) (watermark p)"
  have "?ts ! j" if "j < ?w" for j
  proof (cases "j < watermark p")
    case True
    then show ?thesis using assms by (cases "j = i") (auto simp: prog_ok_def)
  qed (use that advance_terminal [of "watermark p" j ?ts] in auto)
  then have "prog_ok n \<lparr>terminal = ?ts, watermark = ?w\<rparr>"
    using assms advance_le [of "watermark p" ?ts] by (auto simp: prog_ok_def)
  then show ?thesis
    using assms advance_ge [of "watermark p" ?ts] that [of ?w "\<lparr>terminal = ?ts, watermark = ?w\<rparr>"]
    by (auto simp: mark_def prog_ok_def Let_def)
qed

section \<open>What the store promises the activities\<close>

locale ledger_store =
  fixes st :: "'d enrich_store" and settled :: "int16 \<Rightarrow> 'd \<Rightarrow> int \<Rightarrow> bool" and good :: "'d \<Rightarrow> bool"
  assumes done_settles: "stInsertDone st e d = (Inr u, d') \<Longrightarrow> settled (dVersion e) d' (dMemoryID e)"
    and permanent_settles:
      "stInsertFailed st f d = (Inr u, d') \<Longrightarrow> fPermanent f \<Longrightarrow> settled (fVersion f) d' (fMemoryID f)"
    and done_mono: "stInsertDone st e d = (r, d') \<Longrightarrow> settled v d mid \<Longrightarrow> settled v d' mid"
    and failed_mono: "stInsertFailed st f d = (r, d') \<Longrightarrow> settled v d mid \<Longrightarrow> settled v d' mid"
    and done_good: "stInsertDone st e d = (r, d') \<Longrightarrow> good d \<Longrightarrow> good d'"
    and failed_good: "stInsertFailed st f d = (r, d') \<Longrightarrow> good d \<Longrightarrow> good d'"
    and claim: "good d \<Longrightarrow> stPendingIDs st v n d = (Inr ids, d') \<Longrightarrow>
      distinct ids \<and> int (length ids) \<le> n \<and> (\<forall>mid\<in>set ids. \<not> settled v d mid)"

definition env_ok :: "batch_env \<Rightarrow> int list \<Rightarrow> bool" where
  "env_ok env ids \<longleftrightarrow> eStart env \<le> length ids \<and> map mtMemoryID (eItems env) = drop (eStart env) ids"

text \<open>The invariant of a running batch over the page \<open>ids\<close>.\<close>

definition settled_marks :: "(int \<Rightarrow> bool) \<Rightarrow> batch_env \<Rightarrow> int list \<Rightarrow> 'd batch \<Rightarrow> bool" where
  "settled_marks S env ids b \<longleftrightarrow>
     (\<forall>j<length ids. eStart env \<le> j \<longrightarrow> terminal (bProg b) ! j \<longrightarrow> S (ids ! j)) \<and>
     (\<forall>i<length (bPhase b). bPhase b ! i = Inserted True \<longrightarrow> S (ids ! (eStart env + i)))"

definition beats_behind :: "'d batch \<Rightarrow> bool" where
  "beats_behind b \<longleftrightarrow>
     (\<forall>w\<in>set (bBeats b). w \<le> watermark (bProg b)) \<and>
     (\<forall>w. Marked w \<in> set (bPhase b) \<longrightarrow> w \<le> watermark (bProg b))"

definition batch_ok :: "batch_env \<Rightarrow> int list \<Rightarrow> 'd batch \<Rightarrow> bool" where
  "batch_ok env ids b \<longleftrightarrow>
     length (bPhase b) = length (eItems env) \<and> prog_ok (length ids) (bProg b) \<and>
     beats_behind b \<and> \<not> bPanic b"

lemma env_ok_length: "env_ok env ids \<Longrightarrow> eStart env + length (eItems env) = length ids"
  by (auto simp: env_ok_def dest: arg_cong [of _ _ length])

lemma env_ok_item: "env_ok env ids \<Longrightarrow> i < length (eItems env) \<Longrightarrow> mtMemoryID (eItems env ! i) = ids ! (eStart env + i)"
  by (metis (no_types) env_ok_def length_map nth_drop nth_map)

lemma set_phase_simps [simp]:
  "bPhase (set_phase i p b) = (bPhase b)[i := p]" "bProg (set_phase i p b) = bProg b"
  "bBeats (set_phase i p b) = bBeats b" "bErr (set_phase i p b) = bErr b"
  "bPanic (set_phase i p b) = bPanic b" "bStore (set_phase i p b) = bStore b"
  "bDone (set_phase i p b) = bDone b" "bFailed (set_phase i p b) = bFailed b"
  "bPermanent (set_phase i p b) = bPermanent b"
  by (simp_all add: set_phase_def)

lemma group_error_simps [simp]:
  "bPhase (group_error e b) = bPhase b" "bProg (group_error e b) = bProg b"
  "bBeats (group_error e b) = bBeats b" "bPanic (group_error e b) = bPanic b"
  "bStore (group_error e b) = bStore b" "bDone (group_error e b) = bDone b"
  "bFailed (group_error e b) = bFailed b" "bPermanent (group_error e b) = bPermanent b"
  "bErr (group_error e b) \<noteq> None"
  by (simp_all add: group_error_def split: option.splits)

lemma phase_of_Some: "phase_of i b = Some p \<longleftrightarrow> i < length (bPhase b) \<and> bPhase b ! i = p"
  by (simp add: phase_of_def)

lemma first_queued_Some: "first_queued ps = Some i \<Longrightarrow> i < length ps \<and> ps ! i = Queued"
  by (induction ps arbitrary: i) (auto split: if_splits)

lemma first_queued_None: "first_queued ps = None \<longleftrightarrow> Queued \<notin> set ps"
  by (induction ps) auto

lemma insert_outcome_simps [simp]:
  "bProg (insert_outcome st env i r b) = bProg b" "bBeats (insert_outcome st env i r b) = bBeats b"
  "bPanic (insert_outcome st env i r b) = bPanic b"
  by (simp_all add: insert_outcome_def Let_def split: sum.splits prod.splits)

lemma insert_outcome_phase:
  "\<exists>p. bPhase (insert_outcome st env i r b) = (bPhase b)[i := p] \<and> (p = Exited \<or> (\<exists>t. p = Inserted t))"
proof (cases r)
  case (Inl err)
  obtain ir d' where "stInsertFailed st (failed_event env (eItems env ! i) err) (bStore b) = (ir, d')" by force
  then show ?thesis using Inl by (cases ir) (auto simp: insert_outcome_def Let_def)
next
  case (Inr vec)
  obtain ir d' where "stInsertDone st (done_event env (eItems env ! i) vec) (bStore b) = (ir, d')" by force
  then show ?thesis using Inr by (cases ir) (auto simp: insert_outcome_def Let_def)
qed

lemma nth_updateD: "xs[i := y] ! j = z \<Longrightarrow> j < length xs \<Longrightarrow> (j = i \<and> y = z) \<or> xs ! j = z"
  by (cases "j = i") auto

lemma Marked_update: "Marked w \<in> set (ps[i := p]) \<Longrightarrow> Marked w \<in> set ps \<or> p = Marked w"
  using set_update_subset_insert [of ps i p] by auto

lemma batch_step_ok:
  assumes "env_ok env ids" and "batch_ok env ids b" and "batch_step st env a b = Some b'"
  shows "batch_ok env ids b'"
proof (cases a)
  case Launch
  then show ?thesis using assms(2,3)
    by (auto simp: batch_step_def batch_ok_def beats_behind_def split: option.splits if_splits
        dest!: Marked_update)
next
  case (EmbedReturns i r)
  then show ?thesis using assms(2,3)
    by (auto simp: batch_step_def batch_ok_def beats_behind_def split: option.splits if_splits
        dest!: Marked_update)
next
  case (Inserts i)
  then obtain r where b': "b' = insert_outcome st env i r b"
    using assms(3) by (auto simp: batch_step_def split: if_splits option.splits phase.splits)
  obtain p where "bPhase b' = (bPhase b)[i := p]" "p = Exited \<or> (\<exists>t. p = Inserted t)"
    using insert_outcome_phase [of st env i r b] b' by auto
  then show ?thesis using assms(2) unfolding batch_ok_def beats_behind_def
    by (auto simp: b' dest!: Marked_update)
next
  case (Marks i)
  then obtain t where i: "i < length (bPhase b)" and b': "b' = mark_outcome env i t b"
    using assms(3) by (auto simp: batch_step_def phase_of_def split: if_splits option.splits phase.splits)
  show ?thesis
  proof (cases t)
    case True
    have "eStart env + i < length ids" using i assms(2) env_ok_length [OF assms(1)] by (auto simp: batch_ok_def)
    then obtain w p' where "mark (eStart env + i) (bProg b) = Some (w, p')" "prog_ok (length ids) p'"
        "watermark p' = w" "watermark (bProg b) \<le> w"
      using mark_ok assms(2) by (metis batch_ok_def)
    then show ?thesis using assms(2) True
      by (auto simp: b' mark_outcome_def batch_ok_def beats_behind_def dest!: Marked_update
          intro: order_trans)
  next
    case False
    then show ?thesis using assms(2)
      by (auto simp: b' mark_outcome_def current_def batch_ok_def beats_behind_def dest!: Marked_update)
  qed
next
  case (Beats i)
  then obtain w where i: "i < length (bPhase b)" "bPhase b ! i = Marked w"
      and b': "b' = set_phase i Exited (b\<lparr>bBeats := bBeats b @ [w]\<rparr>)"
    using assms(3) by (auto simp: batch_step_def phase_of_Some split: option.splits if_splits phase.splits)
  have "Marked w \<in> set (bPhase b)" using i by (metis nth_mem)
  then show ?thesis using assms(2)
    by (auto simp: b' batch_ok_def beats_behind_def dest!: Marked_update)
qed

context ledger_store
begin

lemma insert_settles:
  assumes "env_ok env ids" and "i < length (eItems env)"
    and "insert_outcome st env i r b = b'" and "bPhase b' ! i = Inserted True" and "i < length (bPhase b)"
  shows "settled (eVersion env) (bStore b') (ids ! (eStart env + i))"
  using assms(3-5) env_ok_item [OF assms(1,2)]
  by (auto simp: insert_outcome_def Let_def failed_event_def done_event_def
      dest!: done_settles permanent_settles split: sum.splits prod.splits if_splits)

lemma insert_store:
  assumes "insert_outcome st env i r b = b'"
  shows "settled v (bStore b) mid \<Longrightarrow> settled v (bStore b') mid" and "good (bStore b) \<Longrightarrow> good (bStore b')"
  using assms done_mono failed_mono done_good failed_good
  by (auto simp: insert_outcome_def Let_def split: sum.splits prod.splits if_splits)

lemma step_store:
  assumes "batch_step st env a b = Some b'"
  shows "settled v (bStore b) mid \<Longrightarrow> settled v (bStore b') mid" and "good (bStore b) \<Longrightarrow> good (bStore b')"
proof -
  have "bStore b' = bStore b \<or> (\<exists>i r. b' = insert_outcome st env i r b)"
    using assms by (auto simp: batch_step_def mark_outcome_def
        split: if_splits option.splits act.splits phase.splits prod.splits)
  then show "settled v (bStore b) mid \<Longrightarrow> settled v (bStore b') mid" and "good (bStore b) \<Longrightarrow> good (bStore b')"
    using insert_store by metis+
qed

lemma settled_marks_mono:
  "settled_marks S env ids b \<Longrightarrow> (\<And>m. S m \<Longrightarrow> S' m) \<Longrightarrow> settled_marks S' env ids b"
  by (auto simp: settled_marks_def)

lemma step_settled_marks:
  assumes "env_ok env ids" and "batch_ok env ids b" and "batch_step st env a b = Some b'"
    and "settled_marks (settled (eVersion env) (bStore b)) env ids b"
  shows "settled_marks (settled (eVersion env) (bStore b')) env ids b'"
proof -
  let ?S = "settled (eVersion env) (bStore b')"
  have old: "settled_marks ?S env ids b"
    using assms(4) step_store(1) [OF assms(3)] by (rule settled_marks_mono)
  have upd: "settled_marks ?S env ids b'"
    if "bPhase b' = (bPhase b)[i := p]" "bProg b' = bProg b" "p = Inserted True \<Longrightarrow> ?S (ids ! (eStart env + i))"
    for i p
    using old that unfolding settled_marks_def
    by (metis length_list_update nth_list_update_eq nth_list_update_neq)
  have len: "length (bPhase b) = length (eItems env)" using assms(2) by (simp add: batch_ok_def)
  show ?thesis
  proof (cases a)
    case (Inserts i)
    then obtain r where b': "insert_outcome st env i r b = b'" and i: "i < length (bPhase b)"
      using assms(3) by (auto simp: batch_step_def phase_of_def split: if_splits option.splits phase.splits)
    obtain p where p: "bPhase b' = (bPhase b)[i := p]" using insert_outcome_phase [of st env i r b] b' by auto
    show ?thesis
    proof (rule upd [OF p])
      show "bProg b' = bProg b" using b' by auto
      show "?S (ids ! (eStart env + i))" if "p = Inserted True"
        using insert_settles [OF assms(1) _ b'] i len p that by simp
    qed
  next
    case (Marks i)
    then obtain t where i: "i < length (bPhase b)" "bPhase b ! i = Inserted t" and b': "b' = mark_outcome env i t b"
      using assms(3) by (auto simp: batch_step_def phase_of_def split: if_splits option.splits phase.splits)
    show ?thesis
    proof (cases t)
      case True
      have "eStart env + i < length ids" using i(1) len env_ok_length [OF assms(1)] by auto
      then obtain w p' where m: "mark (eStart env + i) (bProg b) = Some (w, p')"
          "terminal p' = (terminal (bProg b))[eStart env + i := True]"
        using mark_ok assms(2) by (metis batch_ok_def)
      have "?S (ids ! (eStart env + i))" using old i True by (auto simp: settled_marks_def)
      moreover have "bPhase b' = (bPhase b)[i := Marked w]" "terminal (bProg b') = (terminal (bProg b))[eStart env + i := True]"
        using m True by (simp_all add: b' mark_outcome_def)
      moreover have "length (terminal (bProg b)) = length ids" using assms(2) by (simp add: batch_ok_def prog_ok_def)
      ultimately show ?thesis using old unfolding settled_marks_def
        by (metis length_list_update nth_updateD phase.distinct(25))
    next
      case False
      then show ?thesis by (intro upd [of i "Marked (current (bProg b))"]) (auto simp: b' mark_outcome_def)
    qed
  next
    case Launch
    then obtain i where "b' = set_phase i Running b"
      using assms(3) by (auto simp: batch_step_def split: if_splits option.splits)
    then show ?thesis by (intro upd [of i Running]) simp_all
  next
    case (EmbedReturns i r)
    then have "b' = set_phase i (Embedded r) b" using assms(3) by (simp add: batch_step_def split: if_splits)
    then show ?thesis by (intro upd [of i "Embedded r"]) simp_all
  next
    case (Beats i)
    then obtain w where "b' = set_phase i Exited (b\<lparr>bBeats := bBeats b @ [w]\<rparr>)"
      using assms(3) by (auto simp: batch_step_def split: if_splits option.splits phase.splits)
    then show ?thesis by (intro upd [of i Exited]) simp_all
  qed
qed

lemma run_settled_marks:
  assumes "env_ok env ids" and "run_acts st env as b = Some b'" and "batch_ok env ids b"
    and "settled_marks (settled (eVersion env) (bStore b)) env ids b"
  shows "batch_ok env ids b' \<and> settled_marks (settled (eVersion env) (bStore b')) env ids b'"
  using assms(2-4)
proof (induction as arbitrary: b)
  case (Cons a as)
  then obtain b1 where b1: "batch_step st env a b = Some b1" "run_acts st env as b1 = Some b'"
    by (auto split: option.splits)
  then show ?case
    using Cons.IH batch_step_ok [OF assms(1) Cons.prems(2) b1(1)]
      step_settled_marks [OF assms(1) Cons.prems(2) b1(1) Cons.prems(3)] by blast
qed simp

lemma run_mono: "run_acts st env as b = Some b' \<Longrightarrow> settled v (bStore b) m \<Longrightarrow> settled v (bStore b') m"
  by (induction as arbitrary: b) (auto split: option.splits dest: step_store(1))

lemma run_good: "run_acts st env as b = Some b' \<Longrightarrow> good (bStore b) \<Longrightarrow> good (bStore b')"
  by (induction as arbitrary: b) (auto split: option.splits dest: step_store(2))

text \<open>Every page position below a recorded heartbeat, from the resume point on, is settled.\<close>

lemma heartbeat_settled:
  assumes "env_ok env ids" and "run_acts st env as (start_batch (length ids) (eStart env) (length (eItems env)) d) = Some b"
    and "w \<in> set (bBeats b)" and "eStart env \<le> j" and "j < w"
  shows "w \<le> length ids \<and> settled (eVersion env) (bStore b) (ids ! j)"
proof -
  let ?b0 = "start_batch (length ids) (eStart env) (length (eItems env)) d"
  have "eStart env \<le> length ids" using assms(1) by (simp add: env_ok_def)
  then have "batch_ok env ids ?b0" and "settled_marks (settled (eVersion env) (bStore ?b0)) env ids ?b0"
    by (auto simp: batch_ok_def start_batch_def prog_ok_def beats_behind_def settled_marks_def nth_append)
  from run_settled_marks [OF assms(1,2) this]
  have ok: "batch_ok env ids b" and m: "settled_marks (settled (eVersion env) (bStore b)) env ids b" by auto
  have w: "w \<le> watermark (bProg b)" using ok assms(3) by (auto simp: batch_ok_def beats_behind_def)
  then have "w \<le> length ids" and "terminal (bProg b) ! j"
    using ok assms(5) by (auto simp: batch_ok_def prog_ok_def)
  then show ?thesis using m assms(4,5) by (auto simp: settled_marks_def)
qed

end

section \<open>The Postgres adapter keeps the promise\<close>

definition settled_pg :: "int16 \<Rightarrow> pg_state \<Rightarrow> int \<Rightarrow> bool" where
  "settled_pg v s mid \<longleftrightarrow> has_done v (ps_db s) mid \<or> has_permanent_failure v (ps_db s) mid"

lemma pg_statement_cases:
  assumes "pg_statement f s = (r, s')"
  shows "ps_now s' = ps_now s \<and>
    ((ps_db s' = ps_db s \<and> (\<exists>e. r = Inl e)) \<or>
     (\<exists>q. f (ps_now s) (ps_db s) = (q, ps_db s') \<and> (\<forall>x. r = Inr x \<longrightarrow> q = Inr x)))"
  using assms by (auto simp: pg_statement_def Let_def split: fate.splits sum.splits prod.splits)

lemma has_done_after: "InsertEnrichmentDone now e db = (Inr u, db') \<Longrightarrow> has_done (dVersion e) db' (dMemoryID e)"
  by (auto simp: InsertEnrichmentDone_def has_done_def done_row_def split: if_splits)

lemma has_permanent_after:
  "InsertEnrichmentFailed now e db = (Inr u, db') \<Longrightarrow> fPermanent e \<Longrightarrow>
     has_permanent_failure (fVersion e) db' (fMemoryID e)"
  by (auto simp: InsertEnrichmentFailed_def has_permanent_failure_def fail_rows_def failed_row_def
      split: if_splits)

lemma settled_pg_mono: "appended (ps_db s) (ps_db s') \<Longrightarrow> settled_pg v s mid \<Longrightarrow> settled_pg v s' mid"
  using has_done_mono has_permanent_mono by (auto simp: settled_pg_def)

lemma pg_insert_done:
  assumes "PGStore_InsertDone e s = (r, s')"
  shows "appended (ps_db s) (ps_db s')" and "ledger_ok (ps_db s) \<Longrightarrow> ledger_ok (ps_db s')"
  using pg_statement_cases [OF assms [unfolded PGStore_InsertDone_def]] event_inserts_appended(1)
    InsertEnrichmentDone_ok by auto

lemma pg_insert_failed:
  assumes "PGStore_InsertFailed e s = (r, s')"
  shows "appended (ps_db s) (ps_db s')" and "ledger_ok (ps_db s) \<Longrightarrow> ledger_ok (ps_db s')"
  using pg_statement_cases [OF assms [unfolded PGStore_InsertFailed_def]] event_inserts_appended(2)
    InsertEnrichmentFailed_ok by auto

lemma claim_unsettled:
  "PendingMemoryIDs now v k b n db = Inr ids \<Longrightarrow> mid \<in> set ids \<Longrightarrow>
     \<not> has_done v db mid \<and> \<not> has_permanent_failure v db mid"
  by (auto simp: PendingMemoryIDs_def set_pending pending_core_alt split: if_splits dest!: in_set_takeD)

lemma claim_distinct:
  "ledger_ok db \<Longrightarrow> PendingMemoryIDs now v k b n db = Inr ids \<Longrightarrow> distinct ids \<and> int (length ids) \<le> n"
  using pending_sorted [of db now v k b] by (auto simp: PendingMemoryIDs_def sort_pending
      strict_sorted_iff split: if_splits)

interpretation pg: ledger_store "pg_store s" settled_pg "\<lambda>d. ledger_ok (ps_db d)" for s
proof
  show "settled_pg (dVersion e) d' (dMemoryID e)" if "stInsertDone (pg_store s) e d = (Inr u, d')" for e d u d'
    using that pg_statement_cases [of _ d "Inr u" d'] has_done_after
    by (fastforce simp: pg_store_def PGStore_InsertDone_def settled_pg_def)
  show "settled_pg (fVersion f) d' (fMemoryID f)"
    if "stInsertFailed (pg_store s) f d = (Inr u, d')" "fPermanent f" for f d u d'
    using that pg_statement_cases [of _ d "Inr u" d'] has_permanent_after
    by (fastforce simp: pg_store_def PGStore_InsertFailed_def settled_pg_def)
  show "settled_pg v d' mid" if "stInsertDone (pg_store s) e d = (r, d')" "settled_pg v d mid" for e d r d' v mid
    using that pg_insert_done(1) [of e d r d'] settled_pg_mono [of d d' v mid] by (simp add: pg_store_def)
  show "settled_pg v d' mid" if "stInsertFailed (pg_store s) f d = (r, d')" "settled_pg v d mid" for f d r d' v mid
    using that pg_insert_failed(1) [of f d r d'] settled_pg_mono [of d d' v mid] by (simp add: pg_store_def)
  show "ledger_ok (ps_db d')" if "stInsertDone (pg_store s) e d = (r, d')" "ledger_ok (ps_db d)" for e d r d'
    using that pg_insert_done(2) by (auto simp: pg_store_def)
  show "ledger_ok (ps_db d')" if "stInsertFailed (pg_store s) f d = (r, d')" "ledger_ok (ps_db d)" for f d r d'
    using that pg_insert_failed(2) by (auto simp: pg_store_def)
  show "distinct ids \<and> int (length ids) \<le> n \<and> (\<forall>mid\<in>set ids. \<not> settled_pg v d mid)"
    if "ledger_ok (ps_db d)" "stPendingIDs (pg_store s) v n d = (Inr ids, d')" for d v n ids d'
  proof -
    have "PendingMemoryIDs (ps_now d) v (MaxAttempts s) (BackoffBase s) n (ps_db d) = Inr ids"
      using that(2) pg_statement_cases [of _ d "Inr ids" d']
      by (fastforce simp: pg_store_def PGStore_PendingIDs_def)
    then show ?thesis using claim_unsettled claim_distinct [OF that(1)] by (auto simp: settled_pg_def)
  qed
qed

section \<open>Counting and termination\<close>

definition is_ok_return :: "act \<Rightarrow> bool" where
  "is_ok_return a \<longleftrightarrow> (case a of EmbedReturns _ (Inr _) \<Rightarrow> True | _ \<Rightarrow> False)"

definition is_permanent_return :: "act \<Rightarrow> bool" where
  "is_permanent_return a \<longleftrightarrow> (case a of EmbedReturns _ (Inl e) \<Rightarrow> IsPermanent e | _ \<Rightarrow> False)"

definition is_transient_return :: "act \<Rightarrow> bool" where
  "is_transient_return a \<longleftrightarrow> (case a of EmbedReturns _ (Inl e) \<Rightarrow> \<not> IsPermanent e | _ \<Rightarrow> False)"

definition returned :: "((go_error, f32 list) result \<Rightarrow> bool) \<Rightarrow> phase \<Rightarrow> bool" where
  "returned P p \<longleftrightarrow> (case p of Embedded r \<Rightarrow> P r | _ \<Rightarrow> False)"

abbreviation ok_result :: "(go_error, f32 list) result \<Rightarrow> bool" where
  "ok_result r \<equiv> (case r of Inr _ \<Rightarrow> True | Inl _ \<Rightarrow> False)"

abbreviation permanent_result :: "(go_error, f32 list) result \<Rightarrow> bool" where
  "permanent_result r \<equiv> (case r of Inr _ \<Rightarrow> False | Inl e \<Rightarrow> IsPermanent e)"

abbreviation transient_result :: "(go_error, f32 list) result \<Rightarrow> bool" where
  "transient_result r \<equiv> (case r of Inr _ \<Rightarrow> False | Inl e \<Rightarrow> \<not> IsPermanent e)"

definition awaiting :: "phase \<Rightarrow> bool" where
  "awaiting p \<longleftrightarrow> p = Queued \<or> p = Running"

lemma count_by_update:
  "i < length xs \<Longrightarrow>
   count_by P (xs[i := y]) + (if P (xs ! i) then 1 else 0) = count_by P xs + (if P y then 1 else 0)"
proof (induction xs arbitrary: i)
  case (Cons x xs)
  then show ?case by (cases i) auto
qed simp

text \<open>The four sums a step keeps, while no insert fails.\<close>

definition tally :: "'d batch \<Rightarrow> nat \<times> nat \<times> nat \<times> nat" where
  "tally b =
     (bDone b + count_by (returned ok_result) (bPhase b),
      bPermanent b + count_by (returned permanent_result) (bPhase b),
      bFailed b + count_by (returned transient_result) (bPhase b),
      count_by awaiting (bPhase b))"

definition tally_after :: "act list \<Rightarrow> nat \<times> nat \<times> nat \<times> nat \<Rightarrow> nat \<times> nat \<times> nat \<times> nat \<Rightarrow> bool" where
  "tally_after as t t' \<longleftrightarrow> (case t of (d, p, f, n) \<Rightarrow> case t' of (d', p', f', n') \<Rightarrow>
     d' = d + count_by is_ok_return as \<and> p' = p + count_by is_permanent_return as \<and>
     f' = f + count_by is_transient_return as \<and>
     n' + count_by is_ok_return as + count_by is_permanent_return as + count_by is_transient_return as = n)"

lemmas tally_defs = tally_def tally_after_def is_ok_return_def is_permanent_return_def
  is_transient_return_def

lemma phase_kinds [simp]:
  "returned P Queued = False" "returned P Running = False" "returned P (Embedded r) = P r"
  "returned P (Inserted t) = False" "returned P (Marked w) = False" "returned P Exited = False"
  "awaiting Queued" "awaiting Running" "\<not> awaiting (Embedded r)" "\<not> awaiting (Inserted t)"
  "\<not> awaiting (Marked w)" "\<not> awaiting Exited"
  by (simp_all add: returned_def awaiting_def)

lemma tally_set_phase:
  assumes "i < length (bPhase b)" and "bPhase b' = (bPhase b)[i := p]"
  shows "count_by P (bPhase b') + (if P (bPhase b ! i) then 1 else 0) = count_by P (bPhase b) + (if P p then 1 else 0)"
  using count_by_update [OF assms(1), of P p] assms(2) by simp

lemma insert_outcome_tally:
  assumes "i < length (bPhase b)" and "bPhase b ! i = Embedded r"
    and "insert_outcome st env i r b = b'" and "bErr b' = None"
  shows "bErr b = None \<and> tally b' = tally b"
proof (cases r)
  case (Inl err)
  obtain ir d' where s: "stInsertFailed st (failed_event env (eItems env ! i) err) (bStore b) = (ir, d')" by force
  have c: "count_by P ((bPhase b)[i := q]) + (if P (bPhase b ! i) then 1 else 0) =
      count_by P (bPhase b) + (if P q then 1 else 0)" for P q
    using assms(1) by (rule count_by_update)
  from s Inl assms(3,4) obtain u where "ir = Inr u"
    by (cases ir) (auto simp: insert_outcome_def Let_def)
  then show ?thesis using Inl assms s c [of "returned ok_result" "Inserted (IsPermanent err)"]
      c [of "returned permanent_result" "Inserted (IsPermanent err)"]
      c [of "returned transient_result" "Inserted (IsPermanent err)"] c [of awaiting "Inserted (IsPermanent err)"]
    by (auto simp: insert_outcome_def Let_def tally_def split: if_splits)
next
  case (Inr vec)
  obtain ir d' where s: "stInsertDone st (done_event env (eItems env ! i) vec) (bStore b) = (ir, d')" by force
  have c: "count_by P ((bPhase b)[i := q]) + (if P (bPhase b ! i) then 1 else 0) =
      count_by P (bPhase b) + (if P q then 1 else 0)" for P q
    using assms(1) by (rule count_by_update)
  from s Inr assms(3,4) obtain u where "ir = Inr u"
    by (cases ir) (auto simp: insert_outcome_def Let_def)
  then show ?thesis using Inr assms s c [of "returned ok_result" "Inserted True"]
      c [of "returned permanent_result" "Inserted True"]
      c [of "returned transient_result" "Inserted True"] c [of awaiting "Inserted True"]
    by (auto simp: insert_outcome_def Let_def tally_def)
qed

lemma tally_move:
  assumes "i < length (bPhase b)" and "bPhase b' = (bPhase b)[i := p]"
    and "bDone b' = bDone b" and "bFailed b' = bFailed b" and "bPermanent b' = bPermanent b"
    and "\<And>P. returned P p = returned P (bPhase b ! i)" and "awaiting p = awaiting (bPhase b ! i)"
  shows "tally b' = tally b"
proof -
  have "count_by P (bPhase b') = count_by P (bPhase b)" if "P p = P (bPhase b ! i)" for P
    using tally_set_phase [OF assms(1,2), of P] that by simp
  then show ?thesis using assms(3-) by (simp add: tally_def)
qed

lemma batch_step_tally:
  assumes "batch_step st env a b = Some b'" and "bErr b' = None" and "\<not> bPanic b'"
  shows "bErr b = None \<and> tally_after [a] (tally b) (tally b')"
proof (cases a)
  case Launch
  then obtain i where i: "i < length (bPhase b)" "bPhase b ! i = Queued" and b': "b' = set_phase i Running b"
    using assms(1) by (auto simp: batch_step_def split: if_splits option.splits dest: first_queued_Some)
  then have "tally b' = tally b" by (intro tally_move [of i _ _ Running]) simp_all
  then show ?thesis using assms(2) b' Launch by (auto simp: tally_defs)
next
  case (EmbedReturns i r)
  then have i: "i < length (bPhase b)" "bPhase b ! i = Running" and b': "b' = set_phase i (Embedded r) b"
    using assms(1) by (auto simp: batch_step_def phase_of_Some split: if_splits)
  have c: "count_by P (bPhase b') + (if P Running then 1 else 0) = count_by P (bPhase b) + (if P (Embedded r) then 1 else 0)" for P
    using tally_set_phase [of i b b' "Embedded r" P] i b' by simp
  show ?thesis
    using assms(2) b' EmbedReturns c [of "returned ok_result"] c [of "returned permanent_result"]
      c [of "returned transient_result"] c [of awaiting]
    by (auto simp: tally_defs split: sum.splits)
next
  case (Inserts i)
  then obtain r where "i < length (bPhase b)" "bPhase b ! i = Embedded r" "insert_outcome st env i r b = b'"
    using assms(1) by (auto simp: batch_step_def phase_of_Some split: if_splits option.splits phase.splits)
  from insert_outcome_tally [OF this assms(2)] show ?thesis
    using Inserts by (auto simp: tally_after_def is_ok_return_def is_permanent_return_def
        is_transient_return_def split: prod.splits)
next
  case (Marks i)
  then obtain t where i: "i < length (bPhase b)" "bPhase b ! i = Inserted t" and b': "b' = mark_outcome env i t b"
    using assms(1) by (auto simp: batch_step_def phase_of_Some split: if_splits option.splits phase.splits)
  then obtain w where "bPhase b' = (bPhase b)[i := Marked w]" and e: "bErr b' = bErr b"
      and "bDone b' = bDone b" "bFailed b' = bFailed b" "bPermanent b' = bPermanent b"
    using assms(3) by (auto simp: mark_outcome_def split: if_splits option.splits prod.splits)
  then have "tally b' = tally b" using i by (intro tally_move [of i _ _ "Marked w"]) simp_all
  then show ?thesis using assms(2) e Marks
    by (auto simp: tally_after_def is_ok_return_def is_permanent_return_def is_transient_return_def
        split: prod.splits)
next
  case (Beats i)
  then obtain w where i: "i < length (bPhase b)" "bPhase b ! i = Marked w"
      and b': "b' = set_phase i Exited (b\<lparr>bBeats := bBeats b @ [w]\<rparr>)"
    using assms(1) by (auto simp: batch_step_def phase_of_Some split: if_splits option.splits phase.splits)
  then have "tally b' = tally b" by (intro tally_move [of i _ _ Exited]) simp_all
  then show ?thesis using assms(2) b' Beats
    by (auto simp: tally_after_def is_ok_return_def is_permanent_return_def is_transient_return_def
        split: prod.splits)
qed

lemma tally_after_trans: "tally_after as t t' \<Longrightarrow> tally_after bs t' t'' \<Longrightarrow> tally_after (as @ bs) t t''"
  by (auto simp: tally_after_def split: prod.splits)

lemma panic_stuck: "run_acts st env as b = Some b' \<Longrightarrow> bPanic b \<Longrightarrow> bPanic b'"
  by (cases as) (auto simp: batch_step_def)

lemma run_tally:
  "run_acts st env as b = Some b' \<Longrightarrow> bErr b' = None \<Longrightarrow> \<not> bPanic b' \<Longrightarrow> bErr b = None \<and> tally_after as (tally b) (tally b')"
proof (induction as arbitrary: b)
  case Nil
  then show ?case by (auto simp: tally_after_def split: prod.splits)
next
  case (Cons a as)
  then obtain b1 where b1: "batch_step st env a b = Some b1" "run_acts st env as b1 = Some b'"
    by (auto split: option.splits)
  with Cons have "bErr b1 = None" "tally_after as (tally b1) (tally b')" "\<not> bPanic b1"
    using panic_stuck by blast+
  then show ?case
    using batch_step_tally [OF b1(1)] tally_after_trans [of "[a]" "tally b" "tally b1" as "tally b'"] by simp
qed

fun weight :: "phase \<Rightarrow> nat" where
  "weight Queued = 5" | "weight Running = 4" | "weight (Embedded r) = 3"
| "weight (Inserted t) = 2" | "weight (Marked w) = 1" | "weight Exited = 0"

lemma sum_list_update_less:
  "i < length xs \<Longrightarrow> f y < f (xs ! i) \<Longrightarrow> (\<Sum>x\<leftarrow>xs[i := y]. f x) < (\<Sum>x\<leftarrow>xs. (f x :: nat))"
proof (induction xs arbitrary: i)
  case (Cons x xs)
  then show ?case by (cases i) auto
qed simp

lemma batch_step_weight:
  assumes "batch_step st env a b = Some b'" and "\<not> bPanic b'"
  shows "(\<Sum>p\<leftarrow>bPhase b'. weight p) < (\<Sum>p\<leftarrow>bPhase b. weight p)"
proof -
  have "\<exists>i p. bPhase b' = (bPhase b)[i := p] \<and> i < length (bPhase b) \<and> weight p < weight (bPhase b ! i)"
  proof (cases a)
    case (Inserts i)
    then obtain r where "i < length (bPhase b)" "bPhase b ! i = Embedded r" "insert_outcome st env i r b = b'"
      using assms(1) by (auto simp: batch_step_def phase_of_Some split: if_splits option.splits phase.splits)
    moreover obtain p where "bPhase (insert_outcome st env i r b) = (bPhase b)[i := p]"
        "p = Exited \<or> (\<exists>t. p = Inserted t)"
      using insert_outcome_phase by blast
    ultimately show ?thesis by (intro exI [of _ i] exI [of _ p]) auto
  next
    case Launch
    then obtain i where "i < length (bPhase b)" "bPhase b ! i = Queued" "b' = set_phase i Running b"
      using assms(1) by (auto simp: batch_step_def split: if_splits option.splits dest: first_queued_Some)
    then show ?thesis by (intro exI [of _ i] exI [of _ Running]) simp
  next
    case (EmbedReturns i r)
    then show ?thesis using assms(1)
      by (intro exI [of _ i] exI [of _ "Embedded r"]) (auto simp: batch_step_def phase_of_Some split: if_splits)
  next
    case (Marks i)
    then show ?thesis using assms
      by (auto simp: batch_step_def phase_of_Some mark_outcome_def intro!: exI [of _ i]
          split: if_splits option.splits phase.splits prod.splits)
  next
    case (Beats i)
    then show ?thesis using assms(1)
      by (intro exI [of _ i] exI [of _ Exited])
        (auto simp: batch_step_def phase_of_Some split: if_splits option.splits phase.splits)
  qed
  then show ?thesis using sum_list_update_less [of _ "bPhase b" weight] by auto
qed

lemma run_weight:
  "run_acts st env as b = Some b' \<Longrightarrow> \<not> bPanic b' \<Longrightarrow>
     length as + (\<Sum>p\<leftarrow>bPhase b'. weight p) \<le> (\<Sum>p\<leftarrow>bPhase b. weight p)"
proof (induction as arbitrary: b)
  case (Cons a as)
  then obtain b1 where b1: "batch_step st env a b = Some b1" "run_acts st env as b1 = Some b'"
    by (auto split: option.splits)
  then have "\<not> bPanic b1" using Cons.prems(2) panic_stuck by blast
  then show ?case using batch_step_weight [OF b1(1)] Cons.IH [OF b1(2) Cons.prems(2)] by simp
qed simp

lemma batch_progress:
  assumes "0 < eLimit env" and "\<not> batch_over b"
  shows "\<exists>a. batch_step st env a b \<noteq> None"
proof -
  have np: "\<not> bPanic b" using assms(2) by (simp add: batch_over_def)
  show ?thesis
  proof (cases "\<exists>p\<in>set (bPhase b). active p")
    case True
    then obtain i where i: "i < length (bPhase b)" "active (bPhase b ! i)" by (metis in_set_conv_nth)
    then have ph: "phase_of i b = Some (bPhase b ! i)" by (simp add: phase_of_def)
    show ?thesis
    proof (cases "bPhase b ! i")
      case Running
      then show ?thesis using np ph by (intro exI [of _ "EmbedReturns i (Inr [])"]) (simp add: batch_step_def)
    next
      case (Embedded r)
      then show ?thesis using np ph by (intro exI [of _ "Inserts i"]) (simp add: batch_step_def)
    next
      case (Inserted t)
      then show ?thesis using np ph by (intro exI [of _ "Marks i"]) (simp add: batch_step_def)
    next
      case (Marked w)
      then show ?thesis using np ph by (intro exI [of _ "Beats i"]) (simp add: batch_step_def)
    qed (use i(2) in \<open>simp_all add: active_def\<close>)
  next
    case False
    then have "count_by active (bPhase b) = 0" using count_by_pos [of active "bPhase b"] by simp
    moreover have "Queued \<in> set (bPhase b)"
      using assms(2) False by (auto simp: batch_over_def active_def list_all_iff)
    then have "first_queued (bPhase b) \<noteq> None" by (simp add: first_queued_None)
    ultimately show ?thesis using np assms(1)
      by (intro exI [of _ Launch]) (auto simp: batch_step_def)
  qed
qed

section \<open>Properties\<close>

text \<open>The documented contract of a text source: one entry per requested id, in the same order.\<close>

definition source_ok :: "'d Activities \<Rightarrow> bool" where
  "source_ok a \<longleftrightarrow> (\<forall>ids d items. aSource a ids d = Inr items \<longrightarrow> map mtMemoryID items = ids)"

lemma env_of_ok:
  assumes "source_ok a" and "aSource a (drop startIdx (biIDs inp)) d = Inr items" and "startIdx \<le> length (biIDs inp)"
  shows "env_ok (batch_env_of dv a render attempt startIdx inp items) (biIDs inp)"
  using assms by (simp add: env_ok_def batch_env_of_def source_ok_def)

lemma env_of_limit: "0 < eLimit (batch_env_of dv a render attempt startIdx inp items)"
  by (simp add: batch_env_of_def DefaultEmbedConcurrency_def)

lemma resume_index_le: "resume_index hb n \<le> n"
  by (auto simp: resume_index_def split: heartbeat.splits)

text \<open>A complete run of \<^const>\<open>ProcessBatch\<close> that got as far as launching goroutines.\<close>

lemma ProcessBatch_run:
  assumes "ProcessBatch dv a render hb attempt acts inp d = Some (res, beats, d')" and "acts \<noteq> []"
  obtains items b where "aSource a (drop (resume_index hb (length (biIDs inp))) (biIDs inp)) d = Inr items"
    and "run_acts (aStore a) (batch_env_of dv a render attempt (resume_index hb (length (biIDs inp))) inp items) acts
      (start_batch (length (biIDs inp)) (resume_index hb (length (biIDs inp))) (length items) d) = Some b"
    and "batch_over b" and "res = batch_result b" and "beats = bBeats b" and "d' = bStore b"
  using assms by (auto simp: ProcessBatch_def Let_def split: if_splits sum.splits option.splits)

lemma run_Nil_beats: "ProcessBatch dv a render hb attempt [] inp d = Some (res, beats, d') \<Longrightarrow> beats = [] \<and> d' = d"
  by (auto simp: ProcessBatch_def Let_def start_batch_def split: if_splits sum.splits)

text \<open>C5. A retried batch never skips unfinished work. In every interleaving of the goroutines, with
  every answer of the embedder and every failure of the database, each recorded heartbeat lies
  within the page, and if everything before the point this attempt resumed from is done or
  dead-lettered, so is everything before the heartbeat, where the next attempt would resume.\<close>

theorem heartbeat_resume_safe:
  assumes "source_ok a" and "aStore a = pg_store s"
    and "ProcessBatch dv a render hb attempt acts inp d = Some (res, beats, d')"
    and "v = act_version dv a (biVersion inp)"
    and "\<forall>j<resume_index hb (length (biIDs inp)). settled_pg v d (biIDs inp ! j)"
    and "w \<in> set beats"
  shows "w \<le> length (biIDs inp) \<and> (\<forall>j<w. settled_pg v d' (biIDs inp ! j)) \<and>
    resume_index (Details (int w)) (length (biIDs inp)) = w"
proof -
  let ?n = "length (biIDs inp)" and ?s = "resume_index hb (length (biIDs inp))"
  have "acts \<noteq> []" using assms(3,6) run_Nil_beats by fastforce
  then obtain items b where items: "aSource a (drop ?s (biIDs inp)) d = Inr items"
    and run: "run_acts (aStore a) (batch_env_of dv a render attempt ?s inp items) acts
        (start_batch ?n ?s (length items) d) = Some b"
    and b: "beats = bBeats b" "d' = bStore b"
    using ProcessBatch_run [OF assms(3)] by metis
  let ?env = "batch_env_of dv a render attempt ?s inp items"
  have env: "env_ok ?env (biIDs inp)" by (rule env_of_ok [OF assms(1) items resume_index_le])
  have f: "eStart ?env = ?s" "eItems ?env = items" "eVersion ?env = v"
    by (simp_all add: batch_env_of_def assms(4))
  note run' = run [unfolded assms(2)]
  have ok0: "batch_ok ?env (biIDs inp) (start_batch ?n ?s (length items) d)"
    using resume_index_le [of hb ?n] f
    by (auto simp: batch_ok_def start_batch_def prog_ok_def beats_behind_def nth_append)
  have "w \<le> ?n"
  proof -
    have "batch_ok ?env (biIDs inp) b"
      using pg.run_settled_marks [OF env run' ok0] resume_index_le [of hb ?n] f
      by (auto simp: settled_marks_def start_batch_def nth_append)
    then show ?thesis using assms(6) b(1) by (fastforce simp: batch_ok_def beats_behind_def prog_ok_def)
  qed
  moreover have "settled_pg v d' (biIDs inp ! j)" if "j < w" for j
  proof (cases "j < ?s")
    case True
    have "settled_pg v (bStore (start_batch ?n ?s (length items) d)) m \<Longrightarrow> settled_pg v (bStore b) m" for m
      using run' by (rule pg.run_mono)
    then show ?thesis using assms(5) True b(2) by (auto simp: start_batch_def)
  next
    case False
    then show ?thesis
      using pg.heartbeat_settled [OF env, of s acts d b w j] run' f assms(6) b that by simp
  qed
  ultimately show ?thesis by (simp add: resume_index_def)
qed

text \<open>A worker over the Postgres store whose source serves one text for every id.\<close>

definition demo_activities :: "pg_state Activities" where
  "demo_activities =
     \<lparr>aStore = pg_store (NewPGStore\<lparr>MaxAttempts := 200\<rparr>),
      aSource = (\<lambda>ids d. Inr (map (\<lambda>i. \<lparr>mtMemoryID = i, mtText = ''hello'', mtLexemes = [], mtTS = None\<rparr>) ids)),
      aVersion = 1, aEmbedConcurrency = 0\<rparr>"

definition demo_state :: pg_state where
  "demo_state = \<lparr>ps_now = 1000, ps_db = sample1, ps_fates = []\<rparr>"

definition demo_run :: "(go_error, f32 list) result \<Rightarrow> act list" where
  "demo_run r = [Launch, EmbedReturns 0 r, Inserts 0, Marks 0, Beats 0]"

definition demo_input :: BatchInput where
  "demo_input = \<lparr>biVersion = 0, biIDs = [1]\<rparr>"

definition demo_end :: "(batch_end \<times> nat list \<times> pg_state) option" where
  "demo_end = ProcessBatch 1 demo_activities (\<lambda>_. ''failed'') NoDetails 1 (demo_run (Inr [])) demo_input demo_state"

lemma demo_source_ok: "source_ok demo_activities"
  by (simp add: source_ok_def demo_activities_def comp_def)

theorem heartbeat_resume_safe_witness:
  "\<exists>res d'. demo_end = Some (res, [1], d') \<and> (\<forall>j<1. settled_pg 1 d' ([1 :: int] ! j))"
proof -
  have "map_option (\<lambda>(r, bs, d). bs) demo_end = Some [1]" by code_simp
  then obtain res d' where e: "demo_end = Some (res, [1], d')" by auto
  have "\<forall>j<1. settled_pg 1 d' (biIDs demo_input ! j)"
  proof (rule heartbeat_resume_safe [THEN conjunct2, THEN conjunct1])
    show "source_ok demo_activities" by (rule demo_source_ok)
    show "aStore demo_activities = pg_store (NewPGStore\<lparr>MaxAttempts := 200\<rparr>)" by (simp add: demo_activities_def)
    show "ProcessBatch 1 demo_activities (\<lambda>_. ''failed'') NoDetails 1 (demo_run (Inr [])) demo_input demo_state =
        Some (res, [1], d')" using e by (simp add: demo_end_def)
    show "1 = act_version 1 demo_activities (biVersion demo_input)" by code_simp
  qed (simp_all add: resume_index_def)
  with e show ?thesis by (auto simp: demo_input_def)
qed

text \<open>C25. Every item of a batch is accounted for: when the activity returns without an error, its three
  counts are the numbers of embedding calls that succeeded, failed permanently and failed
  transiently, they add up to the number of items after the resume point, and some item was
  enriched unless none failed transiently; when only transient failures happened, the activity fails.\<close>

theorem batch_counts:
  assumes "source_ok a" and "aStore a = pg_store s"
    and "ProcessBatch dv a render hb attempt acts inp d = Some (Returned res None, beats, d')"
  shows "rDone res = count_by is_ok_return acts \<and> rPermanent res = count_by is_permanent_return acts \<and>
    rFailed res = count_by is_transient_return acts \<and>
    rDone res + rPermanent res + rFailed res = length (biIDs inp) - resume_index hb (length (biIDs inp)) \<and>
    (0 < rFailed res \<longrightarrow> 0 < rDone res)"
proof (cases "acts = []")
  case True
  let ?n = "length (biIDs inp)" and ?s = "resume_index hb (length (biIDs inp))"
  have "?s \<ge> ?n"
  proof (rule ccontr)
    assume lt: "\<not> ?s \<ge> ?n"
    then obtain items where i: "aSource a (drop ?s (biIDs inp)) d = Inr items"
        and o: "batch_over (start_batch ?n ?s (length items) d)"
      using assms(3) True by (auto simp: ProcessBatch_def Let_def split: sum.splits if_splits)
    have "length items = ?n - ?s"
      using assms(1) i unfolding source_ok_def by (metis length_drop length_map)
    then show False using o lt by (simp add: batch_over_def start_batch_def list_all_iff)
  qed
  then show ?thesis using assms(3) True by (auto simp: ProcessBatch_def Let_def)
next
  case False
  let ?n = "length (biIDs inp)" and ?s = "resume_index hb (length (biIDs inp))"
  obtain items b where items: "aSource a (drop ?s (biIDs inp)) d = Inr items"
    and run: "run_acts (aStore a) (batch_env_of dv a render attempt ?s inp items) acts
        (start_batch ?n ?s (length items) d) = Some b"
    and b: "batch_over b" "Returned res None = batch_result b"
    using ProcessBatch_run [OF assms(3) False] by metis
  have e: "bErr b = None" "\<not> bPanic b" "rDone res = bDone b" "rFailed res = bFailed b" "rPermanent res = bPermanent b"
    "\<not> (0 < bFailed b \<and> bDone b = 0)"
    using b(2) by (auto simp: batch_result_def Let_def split: if_splits option.splits)
  then have x: "list_all (\<lambda>p. p = Exited) (bPhase b)" using b(1) by (simp add: batch_over_def)
  have len: "length items = ?n - ?s"
    using assms(1) items unfolding source_ok_def by (metis length_drop length_map)
  have z: "count_by P (replicate n q) = (if P q then n else 0)" for P :: "phase \<Rightarrow> bool" and n q
    by (induction n) auto
  have "count_by P (bPhase b) = 0" if "\<not> P Exited" for P
    using x that count_by_pos [of P "bPhase b"] by (auto simp: list_all_iff)
  then have "tally b = (bDone b, bPermanent b, bFailed b, 0)" by (simp add: tally_def)
  moreover have "tally (start_batch ?n ?s (length items) d) = (0, 0, 0, length items)"
    by (simp add: tally_def start_batch_def z)
  ultimately show ?thesis using run_tally [OF run e(1,2)] e len by (auto simp: tally_after_def)
qed

theorem batch_counts_witness:
  "\<exists>beats d'. ProcessBatch 1 demo_activities (\<lambda>_. ''failed'') NoDetails 1 (demo_run (Inr [])) demo_input demo_state =
     Some (Returned \<lparr>rDone = 1, rFailed = 0, rPermanent = 0\<rparr> None, beats, d') \<and>
     (1 :: nat) = count_by is_ok_return (demo_run (Inr []))"
proof -
  have "map_option fst demo_end = Some (Returned \<lparr>rDone = 1, rFailed = 0, rPermanent = 0\<rparr> None)" by code_simp
  then obtain beats d' where e: "demo_end = Some (Returned \<lparr>rDone = 1, rFailed = 0, rPermanent = 0\<rparr> None, beats, d')"
    by auto
  have s: "aStore demo_activities = pg_store (NewPGStore\<lparr>MaxAttempts := 200\<rparr>)" by (simp add: demo_activities_def)
  from batch_counts [OF demo_source_ok s e [unfolded demo_end_def]] e show ?thesis
    by (auto simp: demo_end_def)
qed

text \<open>Whether an action is the return of the embedding call of item \<open>i\<close>.\<close>

definition embeds :: "nat \<Rightarrow> act \<Rightarrow> bool" where
  "embeds i a \<longleftrightarrow> (case a of EmbedReturns j _ \<Rightarrow> j = i | _ \<Rightarrow> False)"

lemma batch_step_embeds:
  assumes "batch_step st env a b = Some b'" and "\<not> bPanic b'" and "i < length (bPhase b)"
  shows "length (bPhase b') = length (bPhase b) \<and>
    (if awaiting (bPhase b' ! i) then 0 else 1) = (if awaiting (bPhase b ! i) then 0 else 1) + (if embeds i a then 1 else (0 :: nat))"
proof (cases a)
  case Launch
  then obtain j where "j < length (bPhase b)" "bPhase b ! j = Queued" "b' = set_phase j Running b"
    using assms(1) by (auto simp: batch_step_def split: if_splits option.splits dest: first_queued_Some)
  then show ?thesis using assms(3) Launch by (cases "j = i") (simp_all add: embeds_def)
next
  case (EmbedReturns j r)
  then have "j < length (bPhase b)" "bPhase b ! j = Running" "b' = set_phase j (Embedded r) b"
    using assms(1) by (auto simp: batch_step_def phase_of_Some split: if_splits)
  then show ?thesis using assms(3) EmbedReturns by (cases "j = i") (simp_all add: embeds_def)
next
  case (Inserts j)
  then obtain r where j: "j < length (bPhase b)" "bPhase b ! j = Embedded r" and b': "insert_outcome st env j r b = b'"
    using assms(1) by (auto simp: batch_step_def phase_of_Some split: if_splits option.splits phase.splits)
  obtain p where "bPhase b' = (bPhase b)[j := p]" "\<not> awaiting p"
    using insert_outcome_phase [of st env j r b] b' by (metis phase_kinds(10,12))
  then show ?thesis using j assms(3) Inserts by (cases "j = i") (simp_all add: embeds_def)
next
  case (Marks j)
  then obtain t where j: "j < length (bPhase b)" "bPhase b ! j = Inserted t" and b': "b' = mark_outcome env j t b"
    using assms(1) by (auto simp: batch_step_def phase_of_Some split: if_splits option.splits phase.splits)
  then obtain w where "bPhase b' = (bPhase b)[j := Marked w]"
    using assms(2) by (auto simp: mark_outcome_def split: if_splits option.splits prod.splits)
  then show ?thesis using j assms(3) Marks by (cases "j = i") (simp_all add: embeds_def)
next
  case (Beats j)
  then obtain w where "j < length (bPhase b)" "bPhase b ! j = Marked w" "b' = set_phase j Exited (b\<lparr>bBeats := bBeats b @ [w]\<rparr>)"
    using assms(1) by (auto simp: batch_step_def phase_of_Some split: if_splits option.splits phase.splits)
  then show ?thesis using assms(3) Beats by (cases "j = i") (simp_all add: embeds_def)
qed

lemma run_embeds:
  assumes "run_acts st env as b = Some b'" and "\<not> bPanic b'" and "i < length (bPhase b)"
  shows "length (bPhase b') = length (bPhase b) \<and>
    (if awaiting (bPhase b' ! i) then 0 else 1) = (if awaiting (bPhase b ! i) then 0 else 1) + count_by (embeds i) as"
  using assms
proof (induction as arbitrary: b)
  case (Cons a as)
  then obtain b1 where b1: "batch_step st env a b = Some b1" "run_acts st env as b1 = Some b'"
    by (auto split: option.splits)
  then have "\<not> bPanic b1" using Cons.prems(2) panic_stuck by blast
  from batch_step_embeds [OF b1(1) this Cons.prems(3)] Cons.IH [OF b1(2) Cons.prems(2)] Cons.prems(3)
  show ?case by (auto split: if_splits)
qed simp

text \<open>A batch that is not over can move with any given answer of the embedder, and one that is over cannot move.\<close>

lemma batch_progress_with:
  assumes "0 < eLimit env" and "\<not> batch_over b"
  shows "\<exists>a b'. batch_step st env a b = Some b' \<and> (\<forall>i r. a = EmbedReturns i r \<longrightarrow> r = emb i)"
proof -
  obtain a where "batch_step st env a b \<noteq> None" using batch_progress [OF assms] by blast
  then show ?thesis
  proof (cases a)
    case (EmbedReturns i r)
    then have "batch_step st env (EmbedReturns i (emb i)) b \<noteq> None"
      using \<open>batch_step st env a b \<noteq> None\<close> by (auto simp: batch_step_def split: if_splits)
    then show ?thesis by blast
  qed fastforce+
qed

lemma over_no_step: "batch_over b \<Longrightarrow> batch_step st env a b = None"
proof (cases "bPanic b")
  case False
  assume "batch_over b"
  then have x: "\<forall>p\<in>set (bPhase b). p = Exited" using False by (simp add: batch_over_def list_all_iff)
  then have "first_queued (bPhase b) = None" by (auto simp: first_queued_None)
  moreover have "phase_of i b = None \<or> phase_of i b = Some Exited" for i using x by (auto simp: phase_of_def)
  ultimately show ?thesis using False
    by (cases a) (auto simp: batch_step_def split: option.splits phase.splits, (metis option.distinct(1) option.inject phase.distinct)+)
qed (simp add: batch_step_def)

lemma run_acts_append: "run_acts st env (as @ bs) b = Option.bind (run_acts st env as b) (run_acts st env bs)"
  by (induction as arbitrary: b) (auto split: option.splits)

text \<open>From a state in which no panic can be reached, some continuation with the given answers completes the batch.\<close>

lemma batch_completes:
  assumes "0 < eLimit env" and "\<And>as b'. run_acts st env as b = Some b' \<Longrightarrow> \<not> bPanic b'"
  shows "\<exists>as b'. run_acts st env as b = Some b' \<and> batch_over b' \<and> (\<forall>i r. EmbedReturns i r \<in> set as \<longrightarrow> r = emb i)"
  using assms(2)
proof (induction "\<Sum>p\<leftarrow>bPhase b. weight p" arbitrary: b rule: less_induct)
  case less
  show ?case
  proof (cases "batch_over b")
    case True
    then show ?thesis by (intro exI [of _ "[]"]) simp
  next
    case False
    then obtain a b1 where a: "batch_step st env a b = Some b1" "\<forall>i r. a = EmbedReturns i r \<longrightarrow> r = emb i"
      using batch_progress_with [OF assms(1), of b st emb] by blast
    have "\<not> bPanic b'" if "run_acts st env as b1 = Some b'" for as b'
      using less.prems [of "a # as" b'] that a(1) by simp
    moreover from this [of "[]" b1] have "(\<Sum>p\<leftarrow>bPhase b1. weight p) < (\<Sum>p\<leftarrow>bPhase b. weight p)"
      using batch_step_weight [OF a(1)] by simp
    ultimately obtain as b' where "run_acts st env as b1 = Some b'" "batch_over b'" "\<forall>i r. EmbedReturns i r \<in> set as \<longrightarrow> r = emb i"
      using less.hyps by blast
    then show ?thesis using a by (intro exI [of _ "a # as"]) auto
  qed
qed

lemma run_never_panics:
  assumes "source_ok a" and "aSource a (drop startIdx (biIDs inp)) d = Inr items"
    and "startIdx \<le> length (biIDs inp)" and "aStore a = pg_store s"
    and "run_acts (aStore a) (batch_env_of dv a render attempt startIdx inp items) acts
      (start_batch (length (biIDs inp)) startIdx (length items) d) = Some b"
  shows "\<not> bPanic b"
proof -
  let ?env = "batch_env_of dv a render attempt startIdx inp items"
  let ?b0 = "start_batch (length (biIDs inp)) startIdx (length items) d"
  have env: "env_ok ?env (biIDs inp)" by (rule env_of_ok [OF assms(1-3)])
  have f: "eStart ?env = startIdx" "eItems ?env = items" by (simp_all add: batch_env_of_def)
  have "batch_ok ?env (biIDs inp) ?b0" "settled_marks (settled_pg (eVersion ?env) (bStore ?b0)) ?env (biIDs inp) ?b0"
    using assms(3) f
    by (auto simp: batch_ok_def start_batch_def prog_ok_def beats_behind_def settled_marks_def nth_append)
  then show ?thesis
    using pg.run_settled_marks [OF env assms(5) [unfolded assms(4)]] by (simp add: batch_ok_def)
qed

text \<open>C26. A batch always comes to an end. Take any interleaving of its goroutines so far, over a source that keeps
  its contract and the Postgres store with any refused or lost statements: the interleaving is bounded in length by the number of items,
  so it cannot go on for ever; whatever answers the embedder gives to the calls still to come, it can be continued until the
  activity returns (it is never in a deadlock or a panic); and when no goroutine can move any more, the activity
  has returned and the embedder has answered exactly one call for every item.\<close>

theorem batch_terminates:
  assumes "source_ok a" and "aStore a = pg_store s"
    and "n = length (biIDs inp)" and "startIdx = resume_index hb n" and "startIdx < n"
    and "aSource a (drop startIdx (biIDs inp)) d = Inr items"
    and "env = batch_env_of dv a render attempt startIdx inp items"
    and "run_acts (aStore a) env acts (start_batch n startIdx (length items) d) = Some b"
  shows "length acts \<le> 5 * length items \<and>
    (\<exists>rest res err beats d'. ProcessBatch dv a render hb attempt (acts @ rest) inp d = Some (Returned res err, beats, d') \<and>
       (\<forall>i r. EmbedReturns i r \<in> set rest \<longrightarrow> r = emb i)) \<and>
    ((\<forall>act. batch_step (aStore a) env act b = None) \<longrightarrow>
       (\<exists>res err beats d'. ProcessBatch dv a render hb attempt acts inp d = Some (Returned res err, beats, d')) \<and>
       (\<forall>i<length items. count_by (embeds i) acts = 1))"
proof -
  let ?b0 = "start_batch n startIdx (length items) d"
  have np: "\<not> bPanic b'" if "run_acts (aStore a) env as ?b0 = Some b'" for as b'
    using run_never_panics [OF assms(1,6) _ assms(2), of dv render attempt as b'] that assms(3,4,7) resume_index_le [of hb n] by simp
  have pb: "\<exists>res err beats d'. ProcessBatch dv a render hb attempt as inp d = Some (Returned res err, beats, d')"
    if "run_acts (aStore a) env as ?b0 = Some b'" "batch_over b'" for as b'
  proof -
    have "ProcessBatch dv a render hb attempt as inp d = Some (batch_result b', bBeats b', bStore b')"
      using that assms(3-7) by (simp add: ProcessBatch_def Let_def)
    moreover have "\<not> bPanic b'" by (rule np [OF that(1)])
    then obtain res err where "batch_result b' = Returned res err"
      by (cases "batch_result b'") (auto simp: batch_result_def Let_def split: option.splits if_splits)
    ultimately show ?thesis by simp
  qed
  have len: "length acts \<le> 5 * length items"
    using run_weight [OF assms(8) np [OF assms(8)]] by (simp add: start_batch_def sum_list_replicate)
  have lim: "0 < eLimit env" unfolding assms(7) by (rule env_of_limit)
  obtain rest b' where rest: "run_acts (aStore a) env rest b = Some b'" "batch_over b'" "\<forall>i r. EmbedReturns i r \<in> set rest \<longrightarrow> r = emb i"
    using batch_completes [OF lim, of "aStore a" b emb] np [of "acts @ _"] assms(8) by (auto simp: run_acts_append)
  have "run_acts (aStore a) env (acts @ rest) ?b0 = Some b'" using rest(1) assms(8) by (simp add: run_acts_append)
  note cont = pb [OF this rest(2)]
  have fin: "(\<exists>res err beats d'. ProcessBatch dv a render hb attempt acts inp d = Some (Returned res err, beats, d')) \<and>
      (\<forall>i<length items. count_by (embeds i) acts = 1)" if "\<forall>act. batch_step (aStore a) env act b = None"
  proof -
    have o: "batch_over b" using batch_progress [OF lim, of b "aStore a"] that by auto
    then have x: "list_all (\<lambda>p. p = Exited) (bPhase b)" using np [OF assms(8)] by (simp add: batch_over_def)
    have "count_by (embeds i) acts = 1" if i: "i < length items" for i
    proof -
      have e: "length (bPhase b) = length items \<and> (if awaiting (bPhase b ! i) then 0 else 1) = count_by (embeds i) acts"
        using run_embeds [OF assms(8) np [OF assms(8)], of i] i by (simp add: start_batch_def)
      then have "bPhase b ! i = Exited" using x i by (simp add: list_all_length)
      then show ?thesis using e by simp
    qed
    then show ?thesis using pb [OF assms(8) o] by blast
  qed
  show ?thesis using len cont rest(3) fin by blast
qed

text \<open>A page of two memories: a run interrupted after the first embedding call can be completed although the calls
  still to come fail, and a complete run with one success and one permanent failure has returned.\<close>

definition demo_pair :: BatchInput where
  "demo_pair = \<lparr>biVersion = 0, biIDs = [1, 2]\<rparr>"

definition demo_pair_state :: pg_state where
  "demo_pair_state = \<lparr>ps_now = 1000, ps_db = snd (InsertMemory 200 (sample_memory ''t2'') sample1), ps_fates = []\<rparr>"

definition demo_pair_items :: "MemoryText list" where
  "demo_pair_items = map (\<lambda>i. \<lparr>mtMemoryID = i, mtText = ''hello'', mtLexemes = [], mtTS = None\<rparr>) [1, 2]"

definition demo_pair_run :: "act list" where
  "demo_pair_run = [Launch, Launch, EmbedReturns 1 (Inr [0]), Inserts 1, EmbedReturns 0 (Inl (Permanentf ''bad'' [])),
     Marks 1, Inserts 0, Beats 1, Marks 0, Beats 0]"

abbreviation demo_pair_end :: "act list \<Rightarrow> (batch_end \<times> nat list \<times> pg_state) option" where
  "demo_pair_end acts \<equiv> ProcessBatch 1 demo_activities (\<lambda>_. ''failed'') NoDetails 1 acts demo_pair demo_pair_state"

theorem batch_terminates_witness:
  "(\<exists>rest res err beats d'. demo_pair_end (take 3 demo_pair_run @ rest) = Some (Returned res err, beats, d') \<and>
      (\<forall>i r. EmbedReturns i r \<in> set rest \<longrightarrow> r = Inl CtxError)) \<and>
   (\<exists>res err beats d'. demo_pair_end demo_pair_run = Some (Returned res err, beats, d')) \<and>
   count_by (embeds 0) demo_pair_run = 1 \<and> count_by (embeds 1) demo_pair_run = 1"
proof -
  let ?env = "batch_env_of 1 demo_activities (\<lambda>_. ''failed'') 1 0 demo_pair demo_pair_items"
  let ?run = "\<lambda>acts. run_acts (aStore demo_activities) ?env acts (start_batch 2 0 (length demo_pair_items) demo_pair_state)"
  have "case ?run (take 3 demo_pair_run) of None \<Rightarrow> False | Some b \<Rightarrow> True" by code_simp
  then obtain b1 where b1: "?run (take 3 demo_pair_run) = Some b1" by (auto split: option.splits)
  have "case ?run demo_pair_run of None \<Rightarrow> False | Some b \<Rightarrow> batch_over b" by code_simp
  then obtain b2 where b2: "?run demo_pair_run = Some b2" "batch_over b2" by (auto split: option.splits)
  have src: "aSource demo_activities (drop 0 (biIDs demo_pair)) demo_pair_state = Inr demo_pair_items"
    by (simp add: demo_activities_def demo_pair_def demo_pair_items_def)
  have st: "aStore demo_activities = pg_store (NewPGStore\<lparr>MaxAttempts := 200\<rparr>)" by (simp add: demo_activities_def)
  have n: "2 = length (biIDs demo_pair)" "0 = resume_index NoDetails 2" "(0 :: nat) < 2" by (simp_all add: demo_pair_def resume_index_def)
  note bt = batch_terminates [OF demo_source_ok st n src refl]
  have "length demo_pair_items = 2" by (simp add: demo_pair_items_def)
  then show ?thesis using bt [OF b1, of "\<lambda>_. Inl CtxError"] bt [OF b2(1)] over_no_step [OF b2(2)] by simp
qed

lemma mul64_exact: "0 \<le> x * y \<Longrightarrow> x * y < 2 ^ 63 \<Longrightarrow> mul64 x y = x * y"
  unfolding mul64_def sint_sbintrunc' by (intro signed_take_bit_int_eq_self) auto

text \<open>The pages of a wave partition the claim: they are consecutive, non-empty, of at most the batch
  size, at most as many as the fan-out, and no memory is in two of them or twice in one; none of
  the claimed memories is done or dead-lettered.\<close>

theorem plan_partitions_claim:
  assumes "aStore a = pg_store s" and "ledger_ok (ps_db d)"
    and "0 < batchSize" and "0 < maxBatches" and "batchSize * maxBatches < 2 ^ 63"
    and "PlanRanges dv a version batchSize maxBatches d = (Inr batches, d')"
  shows "\<exists>ids. stPendingIDs (aStore a) (act_version dv a version) (batchSize * maxBatches) d = (Inr ids, d') \<and>
    concat (map biIDs batches) = ids \<and> distinct ids \<and>
    (\<forall>b\<in>set batches. biVersion b = act_version dv a version \<and> biIDs b \<noteq> [] \<and> int (length (biIDs b)) \<le> batchSize) \<and>
    int (length batches) \<le> maxBatches \<and>
    (\<forall>mid\<in>set ids. \<not> settled_pg (act_version dv a version) d mid)"
proof -
  let ?v = "act_version dv a version"
  have "0 \<le> batchSize * maxBatches" using assms(3,4) by simp
  then have m: "mul64 batchSize maxBatches = batchSize * maxBatches" using assms(5) by (rule mul64_exact)
  obtain ids where ids: "stPendingIDs (aStore a) ?v (batchSize * maxBatches) d = (Inr ids, d')"
    and b: "batches = map (\<lambda>p. \<lparr>biVersion = ?v, biIDs = p\<rparr>) (pages (nat batchSize) ids)"
    using assms(3,4,6) m by (auto simp: PlanRanges_def Let_def split: prod.splits sum.splits)
  have c: "distinct ids \<and> int (length ids) \<le> batchSize * maxBatches \<and> (\<forall>mid\<in>set ids. \<not> settled_pg ?v d mid)"
    using pg.claim [OF assms(2) ids [unfolded assms(1)]] .
  have "int (length ids) \<le> int (nat batchSize * nat maxBatches)" using c assms(3,4) by simp
  then have "length (pages (nat batchSize) ids) \<le> nat maxBatches"
    using assms(3) by (intro length_pages) (simp_all only: of_nat_le_iff zero_less_nat_eq)
  moreover have "concat (map biIDs batches) = ids"
    using concat_pages [of "nat batchSize" ids] assms(3) by (simp add: b comp_def)
  ultimately show ?thesis using ids c pages_sizes [of _ "nat batchSize" ids] assms(3,4)
    by (auto simp: b le_nat_iff)
qed

theorem plan_partitions_claim_witness:
  "\<exists>batches d'. PlanRanges 1 demo_activities 0 128 8 demo_state = (Inr batches, d') \<and> int (length batches) \<le> 8"
proof -
  have "(case fst (PlanRanges 1 demo_activities 0 128 8 demo_state) of Inl _ \<Rightarrow> False | Inr _ \<Rightarrow> True)" by code_simp
  then obtain batches where "fst (PlanRanges 1 demo_activities 0 128 8 demo_state) = Inr batches"
    by (auto split: sum.splits)
  then obtain d' where p: "PlanRanges 1 demo_activities 0 128 8 demo_state = (Inr batches, d')"
    by (metis prod.collapse)
  have s: "aStore demo_activities = pg_store (NewPGStore\<lparr>MaxAttempts := 200\<rparr>)" by (simp add: demo_activities_def)
  have ok: "ledger_ok (ps_db demo_state)" by (simp add: demo_state_def sample_ok)
  have "int (length batches) \<le> 8" using plan_partitions_claim [OF s ok _ _ _ p] by auto
  with p show ?thesis by blast
qed

end
