(* ===== verification/Json.thy ===== *)
theory Json
  imports Utf8 "HOL-Library.Monad_Syntax"
begin

text \<open>
  What the program uses of \<^verbatim>\<open>encoding/json\<close>: the encoding of strings and of flat objects, and the decoder
  of JSON texts into values. A number keeps its text. The decoder is defined with a bound on the number
  of steps, the length of the text; \<open>pvalue_steps\<close> shows that a larger bound gives the same result.
\<close>

section \<open>Encoding\<close>

abbreviation quote :: char where "quote \<equiv> CHR 0x22"
abbreviation backslash :: char where "backslash \<equiv> CHR 0x5C"

definition hexdig :: "int \<Rightarrow> char" where
  "hexdig d = (if d < 10 then char_of (48 + d) else char_of (87 + d))"

text \<open>An ASCII byte inside a string literal, with the HTML-safe escapes of \<^verbatim>\<open>json.Marshal\<close>.\<close>

definition esc_ascii :: "int \<Rightarrow> string" where
  "esc_ascii b =
     (if b = 34 \<or> b = 92 then [backslash, char_of b]
      else if b = 8 then [backslash, CHR ''b'']
      else if b = 12 then [backslash, CHR ''f'']
      else if b = 10 then [backslash, CHR ''n'']
      else if b = 13 then [backslash, CHR ''r'']
      else if b = 9 then [backslash, CHR ''t'']
      else if b < 32 \<or> b = 60 \<or> b = 62 \<or> b = 38
        then [backslash, CHR ''u'', CHR ''0'', CHR ''0'', hexdig (b div 16), hexdig (b mod 16)]
      else [char_of b])"

definition esc_chunk :: "rune \<times> string \<Rightarrow> string" where
  "esc_chunk c =
     (if fst c < 128 then esc_ascii (fst c)
      else if fst c = 65533 \<and> length (snd c) = 1 then [backslash] @ ''ufffd''
      else if fst c = 8232 \<or> fst c = 8233 then [backslash] @ ''u202'' @ [hexdig (fst c mod 16)]
      else snd c)"

definition json_string :: "string \<Rightarrow> string" where
  "json_string s = [quote] @ concat (map esc_chunk (chunks s)) @ [quote]"

definition json_object :: "(string \<times> string) list \<Rightarrow> string" where
  "json_object fields =
     ''{'' @ join_with '','' (map (\<lambda>(k, v). json_string k @ '':'' @ json_string v) fields) @ ''}''"

section \<open>Decoding\<close>

datatype json = JNull | JBool bool | JNum string | JStr string | JArr "json list" | JObj "(string \<times> json) list"

definition json_ws :: "char \<Rightarrow> bool" where
  "json_ws c \<longleftrightarrow> byte_of c \<in> {9, 10, 13, 32}"

definition skip_ws :: "string \<Rightarrow> string" where
  "skip_ws s = dropWhile json_ws s"

definition hexval :: "char \<Rightarrow> int option" where
  "hexval c =
     (let b = byte_of c in
      if 48 \<le> b \<and> b \<le> 57 then Some (b - 48)
      else if 97 \<le> b \<and> b \<le> 102 then Some (b - 87)
      else if 65 \<le> b \<and> b \<le> 70 then Some (b - 55)
      else None)"

definition hex4 :: "string \<Rightarrow> (rune \<times> string) option" where
  "hex4 s =
     (case s of
        a # b # c # d # rest \<Rightarrow>
          do { w \<leftarrow> hexval a; x \<leftarrow> hexval b; y \<leftarrow> hexval c; z \<leftarrow> hexval d;
               Some (((w * 16 + x) * 16 + y) * 16 + z, rest) }
      | _ \<Rightarrow> None)"

definition simple_escape :: "char \<Rightarrow> char option" where
  "simple_escape c =
     (if c = quote \<or> c = backslash \<or> c = CHR ''/'' then Some c
      else if c = CHR ''b'' then Some (char_of (8 :: int))
      else if c = CHR ''f'' then Some (char_of (12 :: int))
      else if c = CHR ''n'' then Some (char_of (10 :: int))
      else if c = CHR ''r'' then Some (char_of (13 :: int))
      else if c = CHR ''t'' then Some (char_of (9 :: int))
      else None)"

text \<open>One \<^verbatim>\<open>\u\<close> escape: a surrogate combines with the escape after it or becomes U+FFFD.\<close>

definition u_escape :: "string \<Rightarrow> (string \<times> string) option" where
  "u_escape s =
     do { (r, s1) \<leftarrow> hex4 s;
          (if 55296 \<le> r \<and> r \<le> 57343 then
             let bad = Some (of_bytes (encode_rune 65533), s1) in
             (case s1 of
                b # u # s2 \<Rightarrow>
                  (if b = backslash \<and> u = CHR ''u'' then
                     (case hex4 s2 of
                        Some (r2, s3) \<Rightarrow>
                          if r \<le> 56319 \<and> 56320 \<le> r2 \<and> r2 \<le> 57343
                          then Some (of_bytes (encode_rune ((r - 55296) * 1024 + (r2 - 56320) + 65536)), s3)
                          else bad
                      | None \<Rightarrow> bad)
                   else bad)
              | _ \<Rightarrow> bad)
           else Some (of_bytes (encode_rune r), s1)) }"

text \<open>One element of a string literal: the bytes it stands for, and the rest.\<close>

definition str_elem :: "char \<Rightarrow> string \<Rightarrow> (string \<times> string) option" where
  "str_elem c s =
     (if c = backslash then
        (case s of
           e # s1 \<Rightarrow> if e = CHR ''u'' then u_escape s1
                      else (case simple_escape e of Some ch \<Rightarrow> Some ([ch], s1) | None \<Rightarrow> None)
         | [] \<Rightarrow> None)
      else if byte_of c < 32 then None
      else if byte_of c < 128 then Some ([c], s)
      else case decode_rune (map byte_of (c # s)) of
        (r, w) \<Rightarrow> Some (of_bytes (encode_rune r), drop (w - 1) s))"

lemma hex4_shorter: "hex4 s = Some (r, t) \<Longrightarrow> length t \<le> length s"
  by (auto simp: hex4_def split: list.splits Option.bind_splits)

lemma u_escape_shorter: "u_escape s = Some (x, t) \<Longrightarrow> length t \<le> length s"
  by (auto simp: u_escape_def Let_def split: list.splits Option.bind_splits option.splits if_splits dest!: hex4_shorter)

lemma str_elem_shorter: "str_elem c s = Some (x, t) \<Longrightarrow> length t \<le> length s"
  by (auto simp: str_elem_def split: list.splits option.splits if_splits prod.splits dest!: u_escape_shorter)

text \<open>The rest of a string literal after its opening quote.\<close>

function parse_str :: "string \<Rightarrow> (string \<times> string) option" where
  "parse_str [] = None"
| "parse_str (c # s) =
     (if c = quote then Some ([], s)
      else case str_elem c s of
        None \<Rightarrow> None
      | Some (x, t) \<Rightarrow> (case parse_str t of Some (y, rest) \<Rightarrow> Some (x @ y, rest) | None \<Rightarrow> None))"
  by pat_completeness auto
termination
  by (relation "measure length") (auto dest: str_elem_shorter simp: less_Suc_eq_le)

definition jdigit :: "char \<Rightarrow> bool" where
  "jdigit c \<longleftrightarrow> 48 \<le> byte_of c \<and> byte_of c \<le> 57"

definition span :: "('a \<Rightarrow> bool) \<Rightarrow> 'a list \<Rightarrow> 'a list \<times> 'a list" where
  "span P xs = (takeWhile P xs, dropWhile P xs)"

definition digits1 :: "string \<Rightarrow> (string \<times> string) option" where
  "digits1 s = (case span jdigit s of (ds, rest) \<Rightarrow> if ds = [] then None else Some (ds, rest))"

definition num_int :: "string \<Rightarrow> (string \<times> string) option" where
  "num_int s = (case s of c # t \<Rightarrow> if c = CHR ''0'' then Some ([c], t) else digits1 s | [] \<Rightarrow> None)"

definition num_frac :: "string \<Rightarrow> (string \<times> string) option" where
  "num_frac s =
     (case s of
        c # t \<Rightarrow> if c = CHR ''.'' then do { (ds, rest) \<leftarrow> digits1 t; Some (c # ds, rest) } else Some ([], s)
      | [] \<Rightarrow> Some ([], []))"

definition num_exp :: "string \<Rightarrow> (string \<times> string) option" where
  "num_exp s =
     (case s of
        c # t \<Rightarrow>
          if c = CHR ''e'' \<or> c = CHR ''E'' then
            (case t of
               g # u \<Rightarrow> if g = CHR ''+'' \<or> g = CHR ''-''
                         then do { (ds, rest) \<leftarrow> digits1 u; Some (c # g # ds, rest) }
                         else do { (ds, rest) \<leftarrow> digits1 t; Some (c # ds, rest) }
             | [] \<Rightarrow> None)
          else Some ([], s)
      | [] \<Rightarrow> Some ([], []))"

definition parse_num :: "string \<Rightarrow> (string \<times> string) option" where
  "parse_num s =
     (let (sign, s0) = (case s of c # t \<Rightarrow> if c = CHR ''-'' then ([c], t) else ([], s) | [] \<Rightarrow> ([], []))
      in do { (i, s1) \<leftarrow> num_int s0; (f, s2) \<leftarrow> num_frac s1; (x, s3) \<leftarrow> num_exp s2;
              Some (sign @ i @ f @ x, s3) })"

definition literal :: "string \<Rightarrow> json \<Rightarrow> string \<Rightarrow> (json \<times> string) option" where
  "literal w v s = (if take (length w) s = w then Some (v, drop (length w) s) else None)"

definition maxNestingDepth :: int where "maxNestingDepth = 10000"

text \<open>Values, the rest of an array after an element, and the rest of an object at a key; \<open>n\<close> bounds the
  steps and \<open>d\<close> is the nesting depth.\<close>

fun pvalue :: "nat \<Rightarrow> int \<Rightarrow> string \<Rightarrow> (json \<times> string) option"
  and pelems :: "nat \<Rightarrow> int \<Rightarrow> string \<Rightarrow> (json list \<times> string) option"
  and pmembers :: "nat \<Rightarrow> int \<Rightarrow> string \<Rightarrow> ((string \<times> json) list \<times> string) option" where
  "pvalue 0 d s = None"
| "pvalue (Suc n) d s =
     (case skip_ws s of
        [] \<Rightarrow> None
      | c # t \<Rightarrow>
          if c = quote then (case parse_str t of Some (x, rest) \<Rightarrow> Some (JStr x, rest) | None \<Rightarrow> None)
          else if c = CHR ''['' then
            (if d + 1 > maxNestingDepth then None
             else case skip_ws t of
               e # u \<Rightarrow> if e = CHR '']'' then Some (JArr [], u)
                         else (case pelems n (d + 1) t of Some (xs, rest) \<Rightarrow> Some (JArr xs, rest) | None \<Rightarrow> None)
             | [] \<Rightarrow> None)
          else if c = CHR ''{'' then
            (if d + 1 > maxNestingDepth then None
             else case skip_ws t of
               e # u \<Rightarrow> if e = CHR ''}'' then Some (JObj [], u)
                         else (case pmembers n (d + 1) t of Some (ms, rest) \<Rightarrow> Some (JObj ms, rest) | None \<Rightarrow> None)
             | [] \<Rightarrow> None)
          else if c = CHR ''t'' then literal ''true'' (JBool True) (c # t)
          else if c = CHR ''f'' then literal ''false'' (JBool False) (c # t)
          else if c = CHR ''n'' then literal ''null'' JNull (c # t)
          else (case parse_num (c # t) of Some (x, rest) \<Rightarrow> Some (JNum x, rest) | None \<Rightarrow> None))"
| "pelems 0 d s = None"
| "pelems (Suc n) d s =
     (case pvalue n d s of
        None \<Rightarrow> None
      | Some (x, t) \<Rightarrow>
          (case skip_ws t of
             c # u \<Rightarrow>
               if c = CHR '','' then (case pelems n d u of Some (xs, rest) \<Rightarrow> Some (x # xs, rest) | None \<Rightarrow> None)
               else if c = CHR '']'' then Some ([x], u)
               else None
           | [] \<Rightarrow> None))"
| "pmembers 0 d s = None"
| "pmembers (Suc n) d s =
     (case skip_ws s of
        q # t \<Rightarrow>
          if q \<noteq> quote then None
          else (case parse_str t of
            None \<Rightarrow> None
          | Some (k, t1) \<Rightarrow>
              (case skip_ws t1 of
                 cl # t2 \<Rightarrow>
                   if cl \<noteq> CHR '':'' then None
                   else (case pvalue n d t2 of
                     None \<Rightarrow> None
                   | Some (v, t3) \<Rightarrow>
                       (case skip_ws t3 of
                          c # u \<Rightarrow>
                            if c = CHR '','' then
                              (case pmembers n d u of Some (ms, rest) \<Rightarrow> Some ((k, v) # ms, rest) | None \<Rightarrow> None)
                            else if c = CHR ''}'' then Some ([(k, v)], u)
                            else None
                        | [] \<Rightarrow> None))
               | [] \<Rightarrow> None))
      | [] \<Rightarrow> None)"

text \<open>A JSON text: one value and white space.\<close>

definition json_parse :: "string \<Rightarrow> json option" where
  "json_parse s =
     (case pvalue (2 * length s + 1) 0 s of
        Some (v, rest) \<Rightarrow> if skip_ws rest = [] then Some v else None
      | None \<Rightarrow> None)"

section \<open>Struct fields\<close>

definition fold_key :: "string \<Rightarrow> rune list" where
  "fold_key k = map fold_rune (runes k)"

text \<open>The values of the members that name a field: keys match up to case.\<close>

definition field_values :: "string \<Rightarrow> (string \<times> json) list \<Rightarrow> json list" where
  "field_values name ms = map snd (filter (\<lambda>m. fold_key (fst m) = fold_key name) ms)"

text \<open>A string field: the last value wins, null keeps what was there, another type is an error (\<open>None\<close>).\<close>

fun str_field :: "string \<Rightarrow> json list \<Rightarrow> string option" where
  "str_field x [] = Some x"
| "str_field x (JStr s # vs) = str_field s vs"
| "str_field x (JNull # vs) = str_field x vs"
| "str_field x (_ # vs) = None"

section \<open>The step bound is enough\<close>

lemma skip_ws_shorter: "skip_ws s = c # t \<Longrightarrow> length t < length s"
proof -
  assume "skip_ws s = c # t"
  then have "length (c # t) \<le> length s" unfolding skip_ws_def by (metis length_dropWhile_le)
  then show ?thesis by simp
qed

lemma parse_str_shorter: "parse_str s = Some (x, t) \<Longrightarrow> length t < length s"
proof (induction s arbitrary: x t rule: parse_str.induct)
  case (2 c s)
  show ?case
  proof (cases "c = quote")
    case False
    then obtain y u where e: "str_elem c s = Some (y, u)" using 2(2) by (auto split: option.splits)
    then obtain z where "parse_str u = Some (z, t)" using 2(2) False by (auto split: option.splits)
    then have "length t < length u" using 2(1) [OF False e refl] by blast
    then show ?thesis using str_elem_shorter [OF e] by simp
  qed (use 2(2) in simp)
qed simp

lemma digits1_shorter: "digits1 s = Some (x, t) \<Longrightarrow> length t < length s"
proof -
  assume "digits1 s = Some (x, t)"
  then have "takeWhile jdigit s \<noteq> []" "t = dropWhile jdigit s" by (auto simp: digits1_def span_def split: if_splits)
  then show ?thesis by (metis length_append length_greater_0_conv less_add_same_cancel2 takeWhile_dropWhile_id)
qed

lemma parse_num_shorter: "parse_num s = Some (x, t) \<Longrightarrow> length t < length s"
proof -
  assume p: "parse_num s = Some (x, t)"
  define s0 where "s0 = (case s of c # u \<Rightarrow> if c = CHR ''-'' then u else s | [] \<Rightarrow> [])"
  obtain i s1 f s2 y where n: "num_int s0 = Some (i, s1)" "num_frac s1 = Some (f, s2)" "num_exp s2 = Some (y, t)"
    using p unfolding parse_num_def s0_def
    by (cases s) (auto split: if_splits Option.bind_splits)
  have "length s0 \<le> length s" by (auto simp: s0_def split: list.splits)
  moreover have "length s1 < length s0" using n(1) by (auto simp: num_int_def split: list.splits if_splits dest: digits1_shorter)
  moreover have "length s2 \<le> length s1"
    using n(2) by (auto simp: num_frac_def split: list.splits if_splits Option.bind_splits dest!: digits1_shorter)
  moreover have "length t \<le> length s2"
    using n(3) by (auto simp: num_exp_def split: list.splits if_splits Option.bind_splits dest!: digits1_shorter)
  ultimately show ?thesis by simp
qed

lemma literal_shorter: "w \<noteq> [] \<Longrightarrow> literal w v s = Some (x, t) \<Longrightarrow> length t < length s"
  by (cases s) (auto simp: literal_def split: if_splits)

lemma pvalue_shorter:
  "(\<forall>d s v t. pvalue n d s = Some (v, t) \<longrightarrow> length t < length s) \<and>
   (\<forall>d s vs t. pelems n d s = Some (vs, t) \<longrightarrow> length t < length s) \<and>
   (\<forall>d s ms t. pmembers n d s = Some (ms, t) \<longrightarrow> length t < length s)"
proof (induction n)
  case (Suc n)
  have V: "length t < length s" if "pvalue n d s = Some (v, t)" for d s v t using Suc that by blast
  have E: "length t < length s" if "pelems n d s = Some (vs, t)" for d s vs t using Suc that by blast
  have M: "length t < length s" if "pmembers n d s = Some (ms, t)" for d s ms t using Suc that by blast
  have "length t < length s" if p: "pvalue (Suc n) d s = Some (v, t)" for d s v t
  proof (cases "skip_ws s")
    case (Cons c u)
    have "length t < length (c # u)"
      using p Cons
      by (auto split: if_splits option.splits list.splits
          dest!: parse_str_shorter E M literal_shorter [rotated] parse_num_shorter skip_ws_shorter)
    then show ?thesis using skip_ws_shorter [OF Cons] by simp
  qed (use p in simp)
  moreover have "length t < length s" if p: "pelems (Suc n) d s = Some (vs, t)" for d s vs t
    using p by (auto split: if_splits option.splits list.splits dest!: V E skip_ws_shorter)
  moreover have "length t < length s" if p: "pmembers (Suc n) d s = Some (ms, t)" for d s ms t
    using p by (auto split: if_splits option.splits list.splits dest!: V M skip_ws_shorter parse_str_shorter)
  ultimately show ?case by blast
qed simp

lemma pvalue_step:
  "(\<forall>d s. 2 * length s < n \<longrightarrow> pvalue (Suc n) d s = pvalue n d s) \<and>
   (\<forall>d s. 2 * length s + 1 < n \<longrightarrow> pelems (Suc n) d s = pelems n d s) \<and>
   (\<forall>d s. 2 * length s + 1 < n \<longrightarrow> pmembers (Suc n) d s = pmembers n d s)"
proof (induction n)
  case (Suc n)
  have V: "pvalue (Suc n) d s = pvalue n d s" if "2 * length s < n" for d s using Suc that by blast
  have E: "pelems (Suc n) d s = pelems n d s" if "2 * length s + 1 < n" for d s using Suc that by blast
  have M: "pmembers (Suc n) d s = pmembers n d s" if "2 * length s + 1 < n" for d s using Suc that by blast
  have "pvalue (Suc (Suc n)) d s = pvalue (Suc n) d s" if l: "2 * length s < Suc n" for d s
  proof (cases "skip_ws s")
    case (Cons c t)
    have t: "2 * length t + 1 < n" using skip_ws_shorter [OF Cons] l by simp
    show ?thesis
      unfolding pvalue.simps(2) [of "Suc n" d s] pvalue.simps(2) [of n d s] Cons list.case E [OF t] M [OF t] ..
  qed simp
  moreover have "pelems (Suc (Suc n)) d s = pelems (Suc n) d s" if l: "2 * length s + 1 < Suc n" for d s
  proof (cases "pvalue n d s")
    case None
    then show ?thesis
      unfolding pelems.simps(2) [of "Suc n" d s] pelems.simps(2) [of n d s] using V [of s d] l by simp
  next
    case (Some p)
    obtain x t where p: "p = (x, t)" by force
    have lt: "length t < length s" using pvalue_shorter Some p by blast
    have "pelems (Suc n) d u = pelems n d u" if "skip_ws t = c # u" for c u
      by (rule E) (use skip_ws_shorter [OF that] lt l in simp)
    then show ?thesis
      unfolding pelems.simps(2) [of "Suc n" d s] pelems.simps(2) [of n d s] using V [of s d] l Some p
      by (cases "skip_ws t") simp_all
  qed
  moreover have "pmembers (Suc (Suc n)) d s = pmembers (Suc n) d s" if l: "2 * length s + 1 < Suc n" for d s
  proof (cases "skip_ws s")
    case (Cons q t)
    have t: "length t < length s" by (rule skip_ws_shorter [OF Cons])
    have step: "pvalue (Suc n) d t2 = pvalue n d t2 \<and>
        (\<forall>v t3 c u. pvalue n d t2 = Some (v, t3) \<and> skip_ws t3 = c # u \<longrightarrow> pmembers (Suc n) d u = pmembers n d u)"
      if "parse_str t = Some (k, t1)" "skip_ws t1 = cl # t2" for k t1 cl t2
    proof -
      have "length t2 < length t" using parse_str_shorter [OF that(1)] skip_ws_shorter [OF that(2)] by simp
      then have l2: "2 * length t2 + 3 < n" using t l by simp
      have "pmembers (Suc n) d u = pmembers n d u" if "pvalue n d t2 = Some (v, t3)" "skip_ws t3 = c # u" for v t3 c u
      proof (rule M)
        have "length t3 < length t2" using pvalue_shorter that(1) by blast
        then show "2 * length u + 1 < n" using skip_ws_shorter [OF that(2)] l2 by simp
      qed
      then show ?thesis using V [of t2 d] l2 by simp
    qed
    show ?thesis
    proof (cases "q \<noteq> quote \<or> parse_str t = None")
      case True
      then show ?thesis
        unfolding pmembers.simps(2) [of "Suc n" d s] pmembers.simps(2) [of n d s] Cons by auto
    next
      case False
      then obtain k t1 where k: "q = quote" "parse_str t = Some (k, t1)" by auto
      show ?thesis
      proof (cases "skip_ws t1")
        case Nil
        then show ?thesis
          unfolding pmembers.simps(2) [of "Suc n" d s] pmembers.simps(2) [of n d s] Cons using k by simp
      next
        case t2: (Cons cl t2)
        note st = step [OF k(2) t2]
        show ?thesis
        proof (cases "pvalue n d t2")
          case None
          then show ?thesis
            unfolding pmembers.simps(2) [of "Suc n" d s] pmembers.simps(2) [of n d s] Cons using k t2 st by simp
        next
          case (Some p)
          obtain v t3 where p: "p = (v, t3)" by force
          show ?thesis
          proof (cases "skip_ws t3")
            case Nil
            then show ?thesis
              unfolding pmembers.simps(2) [of "Suc n" d s] pmembers.simps(2) [of n d s] Cons using k t2 st Some p by simp
          next
            case u: (Cons c u)
            have "pmembers (Suc n) d u = pmembers n d u" using st Some p u by blast
            then show ?thesis
              unfolding pmembers.simps(2) [of "Suc n" d s] pmembers.simps(2) [of n d s] Cons using k t2 st Some p u by simp
          qed
        qed
      qed
    qed
  qed simp
  ultimately show ?case by blast
qed simp

lemma pvalue_steps: "2 * length s < n \<Longrightarrow> pvalue (n + m) d s = pvalue n d s"
proof (induction m)
  case (Suc m)
  have "pvalue (Suc (n + m)) d s = pvalue (n + m) d s" using pvalue_step [of "n + m"] Suc.prems by simp
  then show ?case using Suc by simp
qed simp

section \<open>Decoding what was encoded\<close>

lemma hexval_dig: "0 \<le> d \<Longrightarrow> d < 16 \<Longrightarrow> hexval (hexdig d) = Some d"
proof -
  assume "0 \<le> d" "d < 16"
  then have "byte_of (hexdig d) = (if d < 10 then 48 + d else 87 + d)" by (simp add: hexdig_def byte_of_char_of)
  then show ?thesis using \<open>0 \<le> d\<close> \<open>d < 16\<close> by (simp add: hexval_def Let_def)
qed

lemma hexval_0: "hexval (CHR ''0'') = Some 0" "hexval (CHR ''2'') = Some 2"
  by (simp_all add: hexval_def byte_of_def)

lemma scalar_ascii: "0 \<le> b \<Longrightarrow> b < 128 \<Longrightarrow> encode_rune b = [b]"
  by (simp add: encode_rune_def encode_scalar_def scalar_def)

definition push :: "string \<Rightarrow> string \<Rightarrow> (string \<times> string) option" where
  "push x t = (case parse_str t of Some (y, rest) \<Rightarrow> Some (x @ y, rest) | None \<Rightarrow> None)"

lemma parse_elem: "c \<noteq> quote \<Longrightarrow> str_elem c s = Some (x, t) \<Longrightarrow> parse_str (c # s) = push x t"
  by (simp add: push_def)

lemma u_escape_ascii:
  assumes "0 \<le> b" "b < 128"
  shows "u_escape (CHR ''0'' # CHR ''0'' # hexdig (b div 16) # hexdig (b mod 16) # t) = Some ([char_of b], t)"
proof -
  have d: "hexval (hexdig (b div 16)) = Some (b div 16)" "hexval (hexdig (b mod 16)) = Some (b mod 16)"
    using assms by (auto intro!: hexval_dig)
  have "hex4 (CHR ''0'' # CHR ''0'' # hexdig (b div 16) # hexdig (b mod 16) # t) = Some (b, t)"
    by (simp add: hex4_def hexval_0 d)
  then show ?thesis using assms by (simp add: u_escape_def scalar_ascii of_bytes_def)
qed

lemma char_of_neq: "0 \<le> b \<Longrightarrow> b < 256 \<Longrightarrow> b \<noteq> byte_of c \<Longrightarrow> char_of b \<noteq> c"
  using byte_of_char_of [of b] by auto

lemma parse_esc_ascii:
  assumes b: "0 \<le> b" "b < 128"
  shows "parse_str (esc_ascii b @ t) = push [char_of b] t"
proof -
  have q: "byte_of quote = 34" "byte_of backslash = 92" by (simp_all add: byte_of_def)
  have bq: "backslash \<noteq> quote" by simp
  have go: "parse_str (backslash # e # s) = push x u"
    if "str_elem backslash (e # s) = Some (x, u)" for e s x u
    by (rule parse_elem [OF bq that])
  consider "b = 34 \<or> b = 92 \<or> b = 8 \<or> b = 12 \<or> b = 10 \<or> b = 13 \<or> b = 9"
    | "b < 32 \<or> b = 60 \<or> b = 62 \<or> b = 38" "\<not> (b = 34 \<or> b = 92 \<or> b = 8 \<or> b = 12 \<or> b = 10 \<or> b = 13 \<or> b = 9)"
    | "\<not> (b < 32 \<or> b = 60 \<or> b = 62 \<or> b = 38)" "\<not> (b = 34 \<or> b = 92 \<or> b = 8 \<or> b = 12 \<or> b = 10 \<or> b = 13 \<or> b = 9)"
    by blast
  then show ?thesis
  proof cases
    case 1
    have c: "(char_of (34 :: int) :: char) = quote" "(char_of (92 :: int) :: char) = backslash" by code_simp+
    show ?thesis
      using 1 by (elim disjE) (simp_all add: esc_ascii_def c str_elem_def simple_escape_def go del: parse_str.simps)
  next
    case 2
    have "str_elem backslash (CHR ''u'' # CHR ''0'' # CHR ''0'' # hexdig (b div 16) # hexdig (b mod 16) # t) = Some ([char_of b], t)"
      using u_escape_ascii [OF b] by (simp add: str_elem_def)
    then show ?thesis using 2 go by (simp add: esc_ascii_def del: parse_str.simps)
  next
    case 3
    have "b < 256" "b \<noteq> byte_of quote" "b \<noteq> byte_of backslash" using 3 b unfolding q by auto
    then have "char_of b \<noteq> quote" "char_of b \<noteq> backslash"
      using char_of_neq [OF b(1), of quote] char_of_neq [OF b(1), of backslash] by blast+
    moreover have "byte_of (char_of b) = b" using b by (simp add: byte_of_char_of)
    ultimately have "str_elem (char_of b) t = Some ([char_of b], t)" using b 3 by (simp add: str_elem_def)
    then show ?thesis using parse_elem [OF \<open>char_of b \<noteq> quote\<close>] 3 by (simp add: esc_ascii_def del: parse_str.simps)
  qed
qed

lemma parse_esc_rune:
  assumes r: "scalar r"
  shows "parse_str (esc_chunk (r, of_bytes (encode_rune r)) @ t) = push (of_bytes (encode_rune r)) t"
proof -
  have r0: "0 \<le> r" using r by (simp add: scalar_def)
  have e: "encode_rune r = encode_scalar r" using r by (simp add: encode_rune_def)
  consider "r < 128" | "r = 8232 \<or> r = 8233" | "128 \<le> r" "r \<noteq> 8232" "r \<noteq> 8233" by linarith
  then show ?thesis
  proof cases
    case 1
    then show ?thesis
      using parse_esc_ascii [OF r0 1] scalar_ascii [OF r0 1] by (simp add: esc_chunk_def of_bytes_def)
  next
    case 2
    have d: "hexval (hexdig (r mod 16)) = Some (r mod 16)" by (rule hexval_dig) simp_all
    have "hex4 (CHR ''2'' # CHR ''0'' # CHR ''2'' # hexdig (r mod 16) # t) = Some (r, t)"
      using 2 d by (auto simp: hex4_def hexval_0)
    then have "str_elem backslash (CHR ''u'' # CHR ''2'' # CHR ''0'' # CHR ''2'' # hexdig (r mod 16) # t) =
        Some (of_bytes (encode_rune r), t)"
      using 2 by (auto simp: str_elem_def u_escape_def)
    then show ?thesis using parse_elem [of backslash] 2 by (auto simp: esc_chunk_def simp del: parse_str.simps)
  next
    case 3
    obtain c cs where c: "of_bytes (encode_rune r) = c # cs"
      using e by (metis encode_scalar_ne list.exhaust map_is_Nil_conv of_bytes_def)
    have bytes: "map byte_of (c # cs) = encode_scalar r" using map_byte_encode [OF r] c by simp
    have len: "length (c # cs) = length (encode_scalar r)" using bytes by (metis length_map)
    have hi: "128 \<le> byte_of c"
    proof -
      have "byte_of c = hd (encode_scalar r)" using bytes by (metis list.sel(1) list.simps(9))
      moreover have "0 \<le> r div 64" "0 \<le> r div 4096" "0 \<le> r div 262144" using r0 by (simp_all add: pos_imp_zdiv_nonneg_iff)
      ultimately show ?thesis using 3(1) by (simp add: encode_scalar_def)
    qed
    have ncq: "c \<noteq> quote" "c \<noteq> backslash" using hi by (auto simp: byte_of_def)
    have "map byte_of (c # cs @ t) = encode_scalar r @ map byte_of t" using bytes by simp
    then have "decode_rune (map byte_of (c # cs @ t)) = (r, length (encode_scalar r))"
      using decode_rune_encode [OF r, of "map byte_of t"] by argo
    then have "str_elem c (cs @ t) = Some (of_bytes (encode_rune r), drop (length (c # cs) - 1) (cs @ t))"
      unfolding str_elem_def len using hi ncq by simp
    then have "str_elem c (cs @ t) = Some (of_bytes (encode_rune r), t)" by simp
    then have "parse_str (c # cs @ t) = push (of_bytes (encode_rune r)) t"
      by (rule parse_elem [OF ncq(1)])
    moreover have "esc_chunk (r, of_bytes (encode_rune r)) = c # cs"
    proof -
      have "length (encode_scalar r) \<noteq> 1" using 3(1) by (simp add: encode_scalar_def)
      then have "length (of_bytes (encode_rune r)) \<noteq> 1" by (simp add: of_bytes_def e)
      then show ?thesis using 3 c by (simp add: esc_chunk_def)
    qed
    ultimately show ?thesis by simp
  qed
qed

lemma parse_json_string:
  assumes "valid_utf8 s"
  shows "parse_str (tl (json_string s) @ t) = Some (s, t)"
proof -
  have "parse_str (concat (map esc_chunk (map (\<lambda>r. (r, of_bytes (encode_rune r))) rs)) @ quote # t) = Some (of_runes rs, t)"
    if "\<forall>r\<in>set rs. scalar r" for rs
    using that
  proof (induction rs)
    case (Cons r rs)
    have "scalar r" using Cons.prems by simp
    then show ?case
      using Cons parse_esc_rune [of r "concat (map esc_chunk (map (\<lambda>r. (r, of_bytes (encode_rune r))) rs)) @ quote # t"]
      by (simp add: of_runes_Cons push_def)
  qed simp
  moreover have sc: "\<forall>r\<in>set (runes s). scalar r" using runes_scalar by blast
  moreover have "chunks s = map (\<lambda>r. (r, of_bytes (encode_rune r))) (runes s)"
    using chunks_of_runes [OF sc] assms by (simp add: valid_utf8_def)
  ultimately show ?thesis using assms by (simp add: json_string_def valid_utf8_def)
qed

lemma json_string_hd: "json_string s = quote # tl (json_string s)"
  by (simp add: json_string_def)

lemma skip_ws_plain: "\<not> json_ws c \<Longrightarrow> skip_ws (c # s) = c # s"
  by (simp add: skip_ws_def)

lemma not_ws: "\<not> json_ws quote" "\<not> json_ws (CHR ''{'')" "\<not> json_ws (CHR ''}'')" "\<not> json_ws (CHR '','')" "\<not> json_ws (CHR '':'')"
  by (simp_all add: json_ws_def byte_of_def)

lemmas skip_plain = skip_ws_plain [OF not_ws(1)] skip_ws_plain [OF not_ws(2)] skip_ws_plain [OF not_ws(3)]
  skip_ws_plain [OF not_ws(4)] skip_ws_plain [OF not_ws(5)]

lemma pvalue_string: "valid_utf8 v \<Longrightarrow> pvalue (Suc n) d (json_string v @ t) = Some (JStr v, t)"
  using parse_json_string [of v t] by (subst json_string_hd) (simp add: skip_plain del: parse_str.simps)

lemma pmembers_object:
  assumes "fields \<noteq> []" "\<forall>(k, v)\<in>set fields. valid_utf8 k \<and> valid_utf8 v" "length fields < n"
  shows "pmembers n d (join_with '','' (map (\<lambda>(k, v). json_string k @ '':'' @ json_string v) fields) @ CHR ''}'' # t) =
    Some (map (\<lambda>(k, v). (k, JStr v)) fields, t)"
  using assms
proof (induction fields arbitrary: n)
  case (Cons f fields)
  obtain k v where f: "f = (k, v)" by force
  have kv: "valid_utf8 k" "valid_utf8 v" using Cons.prems f by auto
  obtain m where n: "n = Suc (Suc m)" using Cons.prems(3) by (cases n; cases "n - 1") auto
  have rest: "pmembers (Suc m) d (join_with '','' (map (\<lambda>(k, v). json_string k @ '':'' @ json_string v) fields) @ CHR ''}'' # t) =
      Some (map (\<lambda>(k, v). (k, JStr v)) fields, t)" if "fields \<noteq> []"
    using Cons.IH [OF that, of "Suc m"] Cons.prems(2,3) n by simp
  have one: "pmembers (Suc (Suc m)) d (json_string k @ '':'' @ json_string v @ c # u) =
      (if c = CHR '','' then (case pmembers (Suc m) d u of Some (ms, rest) \<Rightarrow> Some ((k, JStr v) # ms, rest) | None \<Rightarrow> None)
       else if c = CHR ''}'' then Some ([(k, JStr v)], u) else None)" if "\<not> json_ws c" for c u
  proof -
    have "parse_str (tl (json_string k) @ '':'' @ json_string v @ c # u) = Some (k, '':'' @ json_string v @ c # u)"
      by (rule parse_json_string [OF kv(1)])
    moreover have "pvalue (Suc m) d (json_string v @ c # u) = Some (JStr v, c # u)" by (rule pvalue_string [OF kv(2)])
    ultimately show ?thesis
      by (subst json_string_hd [of k])
        (simp add: skip_plain skip_ws_plain [OF that] del: parse_str.simps pvalue.simps)
  qed
  show ?case
  proof (cases fields)
    case Nil
    then show ?thesis using one [OF not_ws(3), of t] f n by simp
  next
    case (Cons g gs)
    then show ?thesis using one [OF not_ws(4)] rest f n by simp
  qed
qed simp

lemma json_parse_object:
  assumes "fields \<noteq> []" "\<forall>(k, v)\<in>set fields. valid_utf8 k \<and> valid_utf8 v"
  shows "json_parse (json_object fields) = Some (JObj (map (\<lambda>(k, v). (k, JStr v)) fields))"
proof -
  let ?body = "join_with '','' (map (\<lambda>(k, v). json_string k @ '':'' @ json_string v) fields)"
  have len: "length fields \<le> length ?body"
  proof -
    have "length xs \<le> length (join_with '','' (map (\<lambda>(k, v). json_string k @ '':'' @ json_string v) xs))" for xs
      by (induction xs rule: induct_list012) (auto simp: json_string_def)
    then show ?thesis .
  qed
  define n where "n = 2 * length (json_object fields)"
  have fuel: "length fields < n" using len by (simp add: n_def json_object_def)
  have hd: "\<exists>u. ?body = quote # u" using assms(1) by (cases fields rule: list.exhaust; cases "tl fields") (auto simp: json_string_def)
  have "pmembers n 1 (?body @ CHR ''}'' # []) = Some (map (\<lambda>(k, v). (k, JStr v)) fields, [])"
    by (rule pmembers_object [OF assms fuel])
  then have "pvalue (Suc n) 0 (CHR ''{'' # ?body @ ''}'') = Some (JObj (map (\<lambda>(k, v). (k, JStr v)) fields), [])"
    using hd by (auto simp: skip_plain maxNestingDepth_def simp del: pmembers.simps parse_str.simps)
  then show ?thesis by (simp add: json_parse_def n_def json_object_def skip_ws_def del: pvalue.simps)
qed

end
