(* ===== verification/Loaders.thy ===== *)
theory Loaders
  imports Json Vector "HOL-Library.Multiset"
begin

text \<open>
  The benchmark loaders (\<^verbatim>\<open>internal/eval/fixtures.go\<close>, \<^verbatim>\<open>locomo.go\<close>, \<^verbatim>\<open>longmemeval.go\<close>): what
  \<^verbatim>\<open>json.Unmarshal\<close> stores in the structs of the three formats, with the decoder of the dynamic session
  keys of LoCoMo. A value of a field's type replaces what the field had, null leaves a string, number or
  flag alone and empties a slice, and any other value fails the document. Files are arguments: the bytes
  that were read, or the error.
\<close>

section \<open>Decoding into Go types\<close>

fun dec_str :: "json \<Rightarrow> string option" where
  "dec_str (JStr s) = Some s"
| "dec_str JNull = Some []"
| "dec_str _ = None"

fun dec_bool :: "json \<Rightarrow> bool option" where
  "dec_bool (JBool b) = Some b"
| "dec_bool JNull = Some False"
| "dec_bool _ = None"

text \<open>\<^verbatim>\<open>strconv.ParseInt(v, 10, w)\<close>: an optional sign, then decimal digits, in the range of the width.\<close>

fun dec_value :: "int \<Rightarrow> string \<Rightarrow> int option" where
  "dec_value n [] = Some n"
| "dec_value n (c # cs) = (if jdigit c then dec_value (10 * n + (byte_of c - 48)) cs else None)"

definition ParseInt :: "nat \<Rightarrow> string \<Rightarrow> int option" where
  "ParseInt bits s =
     (let (neg, ds) = (case s of
            c # cs \<Rightarrow> if c = CHR ''+'' then (False, cs) else if c = CHR ''-'' then (True, cs) else (False, s)
          | [] \<Rightarrow> (False, []))
      in if ds = [] then None
         else case dec_value 0 ds of
           None \<Rightarrow> None
         | Some n \<Rightarrow> (let v = (if neg then - n else n)
                      in if - (2 ^ (bits - 1)) \<le> v \<and> v < 2 ^ (bits - 1) then Some v else None))"

fun dec_int :: "json \<Rightarrow> int option" where
  "dec_int (JNum s) = ParseInt 64 s"
| "dec_int JNull = Some 0"
| "dec_int _ = None"

fun all_some :: "'a option list \<Rightarrow> 'a list option" where
  "all_some [] = Some []"
| "all_some (x # xs) = (case x of None \<Rightarrow> None | Some y \<Rightarrow> map_option ((#) y) (all_some xs))"

definition dec_list :: "(json \<Rightarrow> 'a option) \<Rightarrow> json \<Rightarrow> 'a list option" where
  "dec_list f v = (case v of JArr xs \<Rightarrow> all_some (map f xs) | JNull \<Rightarrow> Some [] | _ \<Rightarrow> None)"

text \<open>A field of the object: the last value counts, every value must have the type.\<close>

fun dec_field :: "(json \<Rightarrow> 'a option) \<Rightarrow> 'a \<Rightarrow> json list \<Rightarrow> 'a option" where
  "dec_field f x [] = Some x"
| "dec_field f x (JNull # vs) = dec_field f x vs"
| "dec_field f x (v # vs) = (case f v of None \<Rightarrow> None | Some y \<Rightarrow> dec_field f y vs)"

fun slice_field :: "(json \<Rightarrow> 'a list option) \<Rightarrow> 'a list \<Rightarrow> json list \<Rightarrow> 'a list option" where
  "slice_field f x [] = Some x"
| "slice_field f x (v # vs) = (case f v of None \<Rightarrow> None | Some y \<Rightarrow> slice_field f y vs)"

definition dec_struct :: "((string \<times> json) list \<Rightarrow> 'a option) \<Rightarrow> json \<Rightarrow> 'a option" where
  "dec_struct f v = (case v of JObj ms \<Rightarrow> f ms | JNull \<Rightarrow> f [] | _ \<Rightarrow> None)"

abbreviation sfield :: "(string \<times> json) list \<Rightarrow> string \<Rightarrow> string option" where
  "sfield ms name \<equiv> dec_field dec_str [] (field_values name ms)"

section \<open>Fixtures\<close>

record FixtureTurn =
  ftID :: string
  ftSessionID :: string
  ftSpeaker :: string
  ftText :: string
  ftDateTime :: string

record FixtureQuestion =
  fqID :: string
  fqQuestion :: string
  fqEvidence :: "string list"
  fqQuestionDate :: string

record Fixtures =
  fxTurns :: "FixtureTurn list"
  fxQuestions :: "FixtureQuestion list"

definition fixture_turn :: "(string \<times> json) list \<Rightarrow> FixtureTurn option" where
  "fixture_turn ms =
     do { i \<leftarrow> sfield ms ''id''; s \<leftarrow> sfield ms ''session_id''; p \<leftarrow> sfield ms ''speaker'';
          t \<leftarrow> sfield ms ''text''; d \<leftarrow> sfield ms ''date_time'';
          Some \<lparr>ftID = i, ftSessionID = s, ftSpeaker = p, ftText = t, ftDateTime = d\<rparr> }"

definition fixture_question :: "(string \<times> json) list \<Rightarrow> FixtureQuestion option" where
  "fixture_question ms =
     do { i \<leftarrow> sfield ms ''id''; q \<leftarrow> sfield ms ''question'';
          e \<leftarrow> slice_field (dec_list dec_str) [] (field_values ''evidence'' ms);
          d \<leftarrow> sfield ms ''question_date'';
          Some \<lparr>fqID = i, fqQuestion = q, fqEvidence = e, fqQuestionDate = d\<rparr> }"

definition fixtures_of :: "(string \<times> json) list \<Rightarrow> Fixtures option" where
  "fixtures_of ms =
     do { ts \<leftarrow> slice_field (dec_list (dec_struct fixture_turn)) [] (field_values ''turns'' ms);
          qs \<leftarrow> slice_field (dec_list (dec_struct fixture_question)) [] (field_values ''questions'' ms);
          Some \<lparr>fxTurns = ts, fxQuestions = qs\<rparr> }"

definition unmarshal :: "(json \<Rightarrow> 'a option) \<Rightarrow> string \<Rightarrow> string \<Rightarrow> (go_error, 'a) result" where
  "unmarshal f what data =
     (case Option.bind (json_parse data) f of None \<Rightarrow> Inl (Errorf what []) | Some x \<Rightarrow> Inr x)"

definition ParseFixtures :: "string \<Rightarrow> (go_error, Fixtures) result" where
  "ParseFixtures data = unmarshal (dec_struct fixtures_of) ''eval: parse fixtures: %w'' data"

definition LoadFixtures :: "(go_error, string) result \<Rightarrow> (go_error, Fixtures) result" where
  "LoadFixtures file =
     (case file of Inl e \<Rightarrow> Inl (Wrapf ''eval: load fixtures: %w'' [] e) | Inr data \<Rightarrow> ParseFixtures data)"

section \<open>LoCoMo\<close>

record LoCoMoTurn =
  ltSpeaker :: string
  ltDiaID :: string
  ltText :: string
  ltBlipCaption :: string

record LoCoMoSession =
  lsIndex :: int
  lsDateTime :: string
  lsTurns :: "LoCoMoTurn list"

record LoCoMoQA =
  lqQuestion :: string
  lqAnswer :: "json option"
  lqCategory :: int
  lqEvidence :: "string list"

record LoCoMoSample =
  lmSampleID :: string
  lmSpeakerA :: string
  lmSpeakerB :: string
  lmSessions :: "LoCoMoSession list"
  lmQA :: "LoCoMoQA list"

definition HasEvidence :: "LoCoMoQA \<Rightarrow> bool" where
  "HasEvidence qa \<longleftrightarrow> lqEvidence qa \<noteq> []"

text \<open>Evidence: nested arrays of strings flatten in order.\<close>

fun flattenStrings :: "json \<Rightarrow> string list option"
  and flatten_list :: "json list \<Rightarrow> string list option" where
  "flattenStrings JNull = Some []"
| "flattenStrings (JStr x) = Some [x]"
| "flattenStrings (JArr xs) = flatten_list xs"
| "flattenStrings (JBool b) = None"
| "flattenStrings (JNum s) = None"
| "flattenStrings (JObj ms) = None"
| "flatten_list [] = Some []"
| "flatten_list (e # es) =
     (case flattenStrings e of
        None \<Rightarrow> None
      | Some f \<Rightarrow> (case flatten_list es of None \<Rightarrow> None | Some out \<Rightarrow> Some (f @ out)))"

definition locomo_turn :: "(string \<times> json) list \<Rightarrow> LoCoMoTurn option" where
  "locomo_turn ms =
     do { s \<leftarrow> sfield ms ''speaker''; d \<leftarrow> sfield ms ''dia_id''; t \<leftarrow> sfield ms ''text'';
          b \<leftarrow> sfield ms ''blip_caption'';
          Some \<lparr>ltSpeaker = s, ltDiaID = d, ltText = t, ltBlipCaption = b\<rparr> }"

definition raw_field :: "(string \<times> json) list \<Rightarrow> string \<Rightarrow> json option" where
  "raw_field ms name = (case rev (field_values name ms) of v # _ \<Rightarrow> Some v | [] \<Rightarrow> None)"

definition locomo_qa :: "(string \<times> json) list \<Rightarrow> LoCoMoQA option" where
  "locomo_qa ms =
     do { q \<leftarrow> sfield ms ''question''; c \<leftarrow> dec_field dec_int 0 (field_values ''category'' ms);
          e \<leftarrow> slice_field flattenStrings [] (field_values ''evidence'' ms);
          Some \<lparr>lqQuestion = q, lqAnswer = raw_field ms ''answer'', lqCategory = c, lqEvidence = e\<rparr> }"

text \<open>The keys \<^verbatim>\<open>session_N\<close> and \<^verbatim>\<open>session_N_date_time\<close>; \<^verbatim>\<open>strconv.Atoi\<close> saturates when its error is ignored.\<close>

definition atoi_sat :: "string \<Rightarrow> int" where
  "atoi_sat ds = (case dec_value 0 ds of Some n \<Rightarrow> min n (2 ^ 63 - 1) | None \<Rightarrow> 0)"

definition session_key :: "string \<Rightarrow> string \<Rightarrow> int option" where
  "session_key suffix key =
     (let ds = take (length key - 8 - length suffix) (drop 8 key) in
      if key = ''session_'' @ ds @ suffix \<and> ds \<noteq> [] \<and> list_all jdigit ds then Some (atoi_sat ds) else None)"

record locomo_acc =
  laSpeakerA :: string
  laSpeakerB :: string
  laSessions :: "LoCoMoSession list"

text \<open>\<open>get(idx)\<close>: the session under the index, created when new; the map is a list with distinct indices.\<close>

fun upd_session :: "int \<Rightarrow> (LoCoMoSession \<Rightarrow> LoCoMoSession) \<Rightarrow> LoCoMoSession list \<Rightarrow> LoCoMoSession list" where
  "upd_session idx f [] = [f \<lparr>lsIndex = idx, lsDateTime = [], lsTurns = []\<rparr>]"
| "upd_session idx f (s # ss) = (if lsIndex s = idx then f s # ss else s # upd_session idx f ss)"

definition conv_entry :: "string \<times> json \<Rightarrow> locomo_acc \<Rightarrow> locomo_acc option" where
  "conv_entry e a =
     (let key = fst e; val = snd e in
      if key = ''speaker_a'' then map_option (\<lambda>s. a\<lparr>laSpeakerA := s\<rparr>) (dec_field dec_str (laSpeakerA a) [val])
      else if key = ''speaker_b'' then map_option (\<lambda>s. a\<lparr>laSpeakerB := s\<rparr>) (dec_field dec_str (laSpeakerB a) [val])
      else case session_key [] key of
        Some idx \<Rightarrow> map_option (\<lambda>ts. a\<lparr>laSessions := upd_session idx (\<lambda>s. s\<lparr>lsTurns := ts\<rparr>) (laSessions a)\<rparr>)
                      (dec_list (dec_struct locomo_turn) val)
      | None \<Rightarrow>
          (case session_key ''_date_time'' key of
             Some idx \<Rightarrow>
               (case val of
                  JStr d \<Rightarrow> Some (a\<lparr>laSessions := upd_session idx (\<lambda>s. s\<lparr>lsDateTime := d\<rparr>) (laSessions a)\<rparr>)
                | JNull \<Rightarrow> Some (a\<lparr>laSessions := upd_session idx (\<lambda>s. s) (laSessions a)\<rparr>)
                | _ \<Rightarrow> None)
           | None \<Rightarrow> Some a))"

fun conv_entries :: "(string \<times> json) list \<Rightarrow> locomo_acc \<Rightarrow> locomo_acc option" where
  "conv_entries [] a = Some a"
| "conv_entries (e # es) a = (case conv_entry e a of None \<Rightarrow> None | Some b \<Rightarrow> conv_entries es b)"

text \<open>A JSON object decoded into a Go map: the last value of each key. Go visits the entries of a map in an
  arbitrary order; \<open>order\<close> is that order, any rearrangement of the entries.\<close>

fun go_map :: "(string \<times> json) list \<Rightarrow> (string \<times> json) list" where
  "go_map [] = []"
| "go_map (e # es) = (if fst e \<in> fst ` set es then go_map es else e # go_map es)"

fun last_map :: "(string \<times> json) list \<Rightarrow> json list \<Rightarrow> (string \<times> json) list option" where
  "last_map m [] = Some m"
| "last_map m (v # vs) =
     (case v of
        JObj ms \<Rightarrow> last_map (go_map (m @ ms)) vs
      | JNull \<Rightarrow> last_map [] vs
      | _ \<Rightarrow> None)"

type_synonym order = "(string \<times> json) list \<Rightarrow> (string \<times> json) list"

definition locomo_sample :: "order \<Rightarrow> (string \<times> json) list \<Rightarrow> LoCoMoSample option" where
  "locomo_sample order ms =
     do { i \<leftarrow> sfield ms ''sample_id'';
          conv \<leftarrow> last_map [] (field_values ''conversation'' ms);
          qa \<leftarrow> slice_field (dec_list (dec_struct locomo_qa)) [] (field_values ''qa'' ms);
          a \<leftarrow> conv_entries (order conv) \<lparr>laSpeakerA = [], laSpeakerB = [], laSessions = []\<rparr>;
          Some \<lparr>lmSampleID = i, lmSpeakerA = laSpeakerA a, lmSpeakerB = laSpeakerB a,
                lmSessions = sort_key lsIndex (laSessions a), lmQA = qa\<rparr> }"

definition ParseLoCoMo :: "order \<Rightarrow> string \<Rightarrow> (go_error, LoCoMoSample list) result" where
  "ParseLoCoMo order data = unmarshal (dec_list (dec_struct (locomo_sample order))) ''eval: parse locomo: %w'' data"

definition LoadLoCoMo :: "order \<Rightarrow> (go_error, string) result \<Rightarrow> (go_error, LoCoMoSample list) result" where
  "LoadLoCoMo order file =
     (case file of Inl e \<Rightarrow> Inl (Wrapf ''eval: load locomo: %w'' [] e) | Inr data \<Rightarrow> ParseLoCoMo order data)"

section \<open>LongMemEval\<close>

record LongMemEvalTurn =
  leRole :: string
  leContent :: string
  leHasAnswer :: bool

record LongMemEvalQuestion =
  leQuestionID :: string
  leQuestionType :: string
  leQuestion :: string
  leAnswer :: "json option"
  leQuestionDate :: string
  leHaystackDates :: "string list"
  leHaystackSessionIDs :: "string list"
  leHaystackSessions :: "LongMemEvalTurn list list"
  leAnswerSessionIDs :: "string list"

definition HasSuffix :: "string \<Rightarrow> string \<Rightarrow> bool" where
  "HasSuffix s suf \<longleftrightarrow> length suf \<le> length s \<and> drop (length s - length suf) s = suf"

definition IsAbstention :: "LongMemEvalQuestion \<Rightarrow> bool" where
  "IsAbstention q \<longleftrightarrow> HasSuffix (leQuestionID q) ''_abs''"

definition GoldSessionIDs :: "LongMemEvalQuestion \<Rightarrow> string list" where
  "GoldSessionIDs q = (if IsAbstention q then [] else leAnswerSessionIDs q)"

definition TurnID :: "string \<Rightarrow> nat \<Rightarrow> string" where
  "TurnID sessionID turn = sessionID @ ''_'' @ dec turn"

text \<open>The two nested loops: sessions with their ids as far as both lists go, turns with their index.\<close>

fun gold_turns :: "string \<Rightarrow> nat \<Rightarrow> LongMemEvalTurn list \<Rightarrow> string list" where
  "gold_turns sid ti [] = []"
| "gold_turns sid ti (t # ts) = (if leHasAnswer t then TurnID sid ti # gold_turns sid (ti + 1) ts else gold_turns sid (ti + 1) ts)"

fun gold_sessions :: "LongMemEvalTurn list list \<Rightarrow> string list \<Rightarrow> string list" where
  "gold_sessions [] ids = []"
| "gold_sessions (s # ss) [] = []"
| "gold_sessions (s # ss) (i # ids) = gold_turns i 0 s @ gold_sessions ss ids"

definition GoldTurnIDs :: "LongMemEvalQuestion \<Rightarrow> string list" where
  "GoldTurnIDs q = (if IsAbstention q then [] else gold_sessions (leHaystackSessions q) (leHaystackSessionIDs q))"

definition lme_turn :: "(string \<times> json) list \<Rightarrow> LongMemEvalTurn option" where
  "lme_turn ms =
     do { r \<leftarrow> sfield ms ''role''; c \<leftarrow> sfield ms ''content'';
          h \<leftarrow> dec_field dec_bool False (field_values ''has_answer'' ms);
          Some \<lparr>leRole = r, leContent = c, leHasAnswer = h\<rparr> }"

definition lme_question :: "(string \<times> json) list \<Rightarrow> LongMemEvalQuestion option" where
  "lme_question ms =
     do { i \<leftarrow> sfield ms ''question_id''; t \<leftarrow> sfield ms ''question_type''; q \<leftarrow> sfield ms ''question'';
          d \<leftarrow> sfield ms ''question_date'';
          hd \<leftarrow> slice_field (dec_list dec_str) [] (field_values ''haystack_dates'' ms);
          hi \<leftarrow> slice_field (dec_list dec_str) [] (field_values ''haystack_session_ids'' ms);
          hs \<leftarrow> slice_field (dec_list (dec_list (dec_struct lme_turn))) [] (field_values ''haystack_sessions'' ms);
          ai \<leftarrow> slice_field (dec_list dec_str) [] (field_values ''answer_session_ids'' ms);
          Some \<lparr>leQuestionID = i, leQuestionType = t, leQuestion = q, leAnswer = raw_field ms ''answer'',
                leQuestionDate = d, leHaystackDates = hd, leHaystackSessionIDs = hi, leHaystackSessions = hs,
                leAnswerSessionIDs = ai\<rparr> }"

definition ParseLongMemEval :: "string \<Rightarrow> (go_error, LongMemEvalQuestion list) result" where
  "ParseLongMemEval data = unmarshal (dec_list (dec_struct lme_question)) ''eval: parse longmemeval: %w'' data"

definition LoadLongMemEval :: "(go_error, string) result \<Rightarrow> (go_error, LongMemEvalQuestion list) result" where
  "LoadLongMemEval file =
     (case file of Inl e \<Rightarrow> Inl (Wrapf ''eval: load longmemeval: %w'' [] e) | Inr data \<Rightarrow> ParseLongMemEval data)"

section \<open>The order of the conversation map does not matter\<close>

text \<open>What an entry does, as a function on the session map, and whether its value decodes.\<close>

type_synonym session_map = "int \<Rightarrow> LoCoMoSession option"

definition smap :: "LoCoMoSession list \<Rightarrow> session_map" where
  "smap ss idx = List.find (\<lambda>s. lsIndex s = idx) ss"

definition touch :: "int \<Rightarrow> (LoCoMoSession \<Rightarrow> LoCoMoSession) \<Rightarrow> session_map \<Rightarrow> session_map" where
  "touch idx f M = M(idx \<mapsto> f (case M idx of Some s \<Rightarrow> s | None \<Rightarrow> \<lparr>lsIndex = idx, lsDateTime = [], lsTurns = []\<rparr>))"

lemma smap_upd:
  assumes "\<And>s. lsIndex (f s) = lsIndex s"
  shows "smap (upd_session idx f ss) = touch idx f (smap ss)"
proof (induction ss)
  case (Cons s ss)
  show ?case
  proof (cases "lsIndex s = idx")
    case True
    then show ?thesis using assms by (auto simp: smap_def touch_def fun_eq_iff)
  next
    case False
    have "smap (s # upd_session idx f ss) i = (if lsIndex s = i then Some s else smap (upd_session idx f ss) i)" for i
      by (simp add: smap_def)
    then show ?thesis using Cons False by (auto simp: touch_def smap_def fun_eq_iff split: option.splits)
  qed
qed (auto simp: smap_def touch_def assms fun_eq_iff)

lemma upd_session_indices:
  assumes "\<And>s. lsIndex (f s) = lsIndex s"
  shows "set (map lsIndex (upd_session idx f ss)) = insert idx (set (map lsIndex ss))"
    and "distinct (map lsIndex ss) \<Longrightarrow> distinct (map lsIndex (upd_session idx f ss))"
proof -
  show s: "set (map lsIndex (upd_session idx f ss)) = insert idx (set (map lsIndex ss))" for ss
    by (induction ss) (auto simp: assms)
  show "distinct (map lsIndex ss) \<Longrightarrow> distinct (map lsIndex (upd_session idx f ss))"
  proof (induction ss)
    case (Cons x ss)
    then show ?case using s [of ss] by (auto simp: assms)
  qed simp
qed

datatype effect = SetA string | SetB string | Turns int "LoCoMoTurn list" | Date int "string option" | Ignored

definition effect_of :: "string \<times> json \<Rightarrow> effect option" where
  "effect_of e =
     (let key = fst e; val = snd e in
      if key = ''speaker_a'' then (case val of JStr s \<Rightarrow> Some (SetA s) | JNull \<Rightarrow> Some Ignored | _ \<Rightarrow> None)
      else if key = ''speaker_b'' then (case val of JStr s \<Rightarrow> Some (SetB s) | JNull \<Rightarrow> Some Ignored | _ \<Rightarrow> None)
      else case session_key [] key of
        Some idx \<Rightarrow> map_option (Turns idx) (dec_list (dec_struct locomo_turn) val)
      | None \<Rightarrow>
          (case session_key ''_date_time'' key of
             Some idx \<Rightarrow> (case val of JStr d \<Rightarrow> Some (Date idx (Some d)) | JNull \<Rightarrow> Some (Date idx None) | _ \<Rightarrow> None)
           | None \<Rightarrow> Some Ignored))"

fun apply_effect :: "effect \<Rightarrow> string \<times> string \<times> session_map \<Rightarrow> string \<times> string \<times> session_map" where
  "apply_effect (SetA s) (a, b, M) = (s, b, M)"
| "apply_effect (SetB s) (a, b, M) = (a, s, M)"
| "apply_effect (Turns i ts) (a, b, M) = (a, b, touch i (\<lambda>s. s\<lparr>lsTurns := ts\<rparr>) M)"
| "apply_effect (Date i d) (a, b, M) = (a, b, touch i (\<lambda>s. case d of None \<Rightarrow> s | Some x \<Rightarrow> s\<lparr>lsDateTime := x\<rparr>) M)"
| "apply_effect Ignored x = x"

definition view :: "locomo_acc \<Rightarrow> string \<times> string \<times> session_map" where
  "view a = (laSpeakerA a, laSpeakerB a, smap (laSessions a))"

lemma conv_entry_effect:
  "(case conv_entry e a of None \<Rightarrow> effect_of e = None
    | Some b \<Rightarrow> \<exists>f. effect_of e = Some f \<and> view b = apply_effect f (view a) \<and>
        (distinct (map lsIndex (laSessions a)) \<longrightarrow> distinct (map lsIndex (laSessions b))))"
proof -
  note d = conv_entry_def effect_of_def view_def Let_def
  consider "fst e = ''speaker_a''" | "fst e = ''speaker_b''"
    | idx where "fst e \<noteq> ''speaker_a''" "fst e \<noteq> ''speaker_b''" "session_key [] (fst e) = Some idx"
    | idx where "fst e \<noteq> ''speaker_a''" "fst e \<noteq> ''speaker_b''" "session_key [] (fst e) = None"
        "session_key ''_date_time'' (fst e) = Some idx"
    | "fst e \<noteq> ''speaker_a''" "fst e \<noteq> ''speaker_b''" "session_key [] (fst e) = None" "session_key ''_date_time'' (fst e) = None"
    by fastforce
  then show ?thesis
  proof cases
    case 1
    then show ?thesis by (cases "snd e") (simp_all add: d)
  next
    case 2
    then show ?thesis by (cases "snd e") (simp_all add: d)
  next
    case 3
    then show ?thesis by (cases "dec_list (dec_struct locomo_turn) (snd e)") (simp_all add: d smap_upd upd_session_indices(2))
  next
    case 4
    then show ?thesis by (cases "snd e") (simp_all add: d smap_upd upd_session_indices(2))
  next
    case 5
    then show ?thesis by (simp add: d)
  qed
qed

lemma conv_entries_effects:
  "(case conv_entries es a of None \<Rightarrow> \<exists>e\<in>set es. effect_of e = None
    | Some b \<Rightarrow> (\<forall>e\<in>set es. effect_of e \<noteq> None) \<and>
        view b = foldl (\<lambda>v f. apply_effect f v) (view a) (map (the \<circ> effect_of) es) \<and>
        (distinct (map lsIndex (laSessions a)) \<longrightarrow> distinct (map lsIndex (laSessions b))))"
proof (induction es arbitrary: a)
  case (Cons e es)
  show ?case
  proof (cases "conv_entry e a")
    case None
    then show ?thesis using conv_entry_effect [of e a] by simp
  next
    case (Some b)
    then show ?thesis using conv_entry_effect [of e a] Cons [of b] by (auto split: option.splits)
  qed
qed simp

text \<open>Effects that touch different parts commute.\<close>

fun indep :: "effect \<Rightarrow> effect \<Rightarrow> bool" where
  "indep (SetA s) (SetA t) = False"
| "indep (SetB s) (SetB t) = False"
| "indep (Turns i s) (Turns j t) = (i \<noteq> j)"
| "indep (Date i s) (Date j t) = (i \<noteq> j)"
| "indep _ _ = True"

lemma effects_commute: "indep f g \<Longrightarrow> apply_effect f (apply_effect g v) = apply_effect g (apply_effect f v)"
  by (cases v; cases f; cases g) (auto simp: touch_def fun_eq_iff split: option.splits)

lemma indep_sym: "indep f g \<longleftrightarrow> indep g f"
  by (cases f; cases g) auto

lemma foldl_effect_front:
  "\<forall>g\<in>set gs. indep f g \<Longrightarrow>
   foldl (\<lambda>v f. apply_effect f v) v (gs @ [f]) = foldl (\<lambda>v f. apply_effect f v) (apply_effect f v) gs"
proof (induction gs arbitrary: v)
  case (Cons g gs)
  then show ?case using effects_commute [of f g v] by simp
qed simp

lemma foldl_effects_perm:
  assumes "mset fs = mset gs" and "sorted_wrt indep fs"
  shows "foldl (\<lambda>v f. apply_effect f v) v fs = foldl (\<lambda>v f. apply_effect f v) v gs"
  using assms
proof (induction fs arbitrary: v gs)
  case (Cons f fs)
  have "f \<in> set gs" using Cons.prems(1) by (metis list.set_intros(1) mset_eq_setD)
  then obtain as bs where gs: "gs = as @ f # bs" by (meson split_list)
  have m: "mset fs = mset (as @ bs)" using Cons.prems(1) gs by simp
  have "set (as @ bs) = set fs" using m by (metis mset_eq_setD)
  then have i: "\<forall>g\<in>set as. indep f g" using Cons.prems(2) by auto
  have "foldl (\<lambda>v f. apply_effect f v) v (f # fs) = foldl (\<lambda>v f. apply_effect f v) (apply_effect f v) (as @ bs)"
    using Cons.IH [OF m] Cons.prems(2) by simp
  also have "\<dots> = foldl (\<lambda>v f. apply_effect f v) v ((as @ [f]) @ bs)"
    unfolding foldl_append [of _ _ as bs] foldl_append [of _ _ "as @ [f]" bs] foldl_effect_front [OF i] ..
  finally show ?case using gs by simp
qed simp

lemma effect_origin:
  "effect_of e = Some (SetA s) \<Longrightarrow> fst e = ''speaker_a''"
  "effect_of e = Some (SetB s) \<Longrightarrow> fst e = ''speaker_b''"
  "effect_of e = Some (Turns i ts) \<Longrightarrow> session_key [] (fst e) = Some i"
  "effect_of e = Some (Date i d) \<Longrightarrow> session_key ''_date_time'' (fst e) = Some i"
  by (auto simp: effect_of_def Let_def split: if_splits option.splits json.splits)

text \<open>No two keys name the same session, as \<^verbatim>\<open>session_1\<close> and \<^verbatim>\<open>session_01\<close> would.\<close>

definition clear_pair :: "string \<times> json \<Rightarrow> string \<times> json \<Rightarrow> bool" where
  "clear_pair e f \<longleftrightarrow>
     list_all (\<lambda>suf. session_key suf (fst e) = None \<or> session_key suf (fst e) \<noteq> session_key suf (fst f)) [[], ''_date_time'']"

definition clear_keys :: "(string \<times> json) list \<Rightarrow> bool" where
  "clear_keys es \<longleftrightarrow> sorted_wrt clear_pair es"

lemma effects_indep:
  assumes "effect_of e = Some f" and "effect_of e' = Some g" and "fst e \<noteq> fst e'" and "clear_pair e e'"
  shows "indep f g"
proof -
  have c: "session_key suf (fst e') \<noteq> Some i" if "session_key suf (fst e) = Some i" "suf = [] \<or> suf = ''_date_time''" for suf i
    using assms(4) that by (auto simp: clear_pair_def)
  consider "indep f g" | s t where "f = SetA s" "g = SetA t" | s t where "f = SetB s" "g = SetB t"
    | i s t where "f = Turns i s" "g = Turns i t" | i s t where "f = Date i s" "g = Date i t"
    by (cases f; cases g) auto
  then show ?thesis
  proof cases
    case 2
    then show ?thesis using effect_origin(1) [of e] effect_origin(1) [of e'] assms by simp
  next
    case 3
    then show ?thesis using effect_origin(2) [of e] effect_origin(2) [of e'] assms by simp
  next
    case 4
    then show ?thesis using effect_origin(3) [of e] effect_origin(3) [of e'] assms(1,2) c by simp
  next
    case 5
    then show ?thesis using effect_origin(4) [of e] effect_origin(4) [of e'] assms(1,2) c by simp
  qed
qed

lemma effects_sorted:
  assumes "distinct (map fst es)" and "clear_keys es" and "\<forall>e\<in>set es. effect_of e \<noteq> None"
  shows "sorted_wrt indep (map (the \<circ> effect_of) es)"
  using assms
proof (induction es)
  case (Cons e es)
  have "indep (the (effect_of e)) (the (effect_of e'))" if "e' \<in> set es" for e'
  proof (rule effects_indep [of e _ e'])
    show "effect_of e = Some (the (effect_of e))" "effect_of e' = Some (the (effect_of e'))" using Cons.prems(3) that by auto
    show "fst e \<noteq> fst e'" using Cons.prems(1) that by force
    show "clear_pair e e'" using Cons.prems(2) that by (simp add: clear_keys_def)
  qed
  moreover have "sorted_wrt indep (map (the \<circ> effect_of) es)"
    by (rule Cons.IH) (use Cons.prems in \<open>auto simp: clear_keys_def\<close>)
  ultimately show ?case by (simp add: comp_def)
qed simp

lemma smap_determines:
  assumes "smap xs = smap ys" and "distinct (map lsIndex xs)" and "distinct (map lsIndex ys)"
  shows "sort_key lsIndex xs = sort_key lsIndex ys"
proof -
  have mem: "s \<in> set zs \<longleftrightarrow> smap zs (lsIndex s) = Some s" if "distinct (map lsIndex zs)" for zs s
    using that
  proof (induction zs)
    case (Cons z zs)
    then show ?case by (auto simp: smap_def find_Some_iff image_iff)
  qed (simp add: smap_def)
  have "set xs = set ys" using mem [OF assms(2)] mem [OF assms(3)] assms(1) by auto
  then have "mset xs = mset ys" using assms(2,3) by (metis distinct_map set_eq_iff_mset_eq_distinct)
  then show ?thesis using assms(2) by (intro sort_key_inj_key_eq) (simp_all add: distinct_map)
qed

lemma conv_entries_perm:
  assumes "mset es' = mset es" and "distinct (map fst es)" and "clear_keys es"
    and "distinct (map lsIndex (laSessions a))"
  shows "map_option (\<lambda>b. (laSpeakerA b, laSpeakerB b, sort_key lsIndex (laSessions b))) (conv_entries es a) =
    map_option (\<lambda>b. (laSpeakerA b, laSpeakerB b, sort_key lsIndex (laSessions b))) (conv_entries es' a)"
proof -
  have set: "set es' = set es" using assms(1) by (metis mset_eq_setD)
  note E = conv_entries_effects [of es a] and E' = conv_entries_effects [of es' a]
  show ?thesis
  proof (cases "conv_entries es a")
    case None
    then show ?thesis using E E' set by (cases "conv_entries es' a") auto
  next
    case (Some b)
    then have ok: "\<forall>e\<in>set es. effect_of e \<noteq> None" using E by simp
    then obtain b' where b': "conv_entries es' a = Some b'" using E' set by (cases "conv_entries es' a") auto
    have "mset (map (the \<circ> effect_of) es) = mset (map (the \<circ> effect_of) es')" using assms(1) by simp
    note p = foldl_effects_perm [OF this effects_sorted [OF assms(2,3) ok], of "view a"]
    have "view b = foldl (\<lambda>v f. apply_effect f v) (view a) (map (the \<circ> effect_of) es)"
      "view b' = foldl (\<lambda>v f. apply_effect f v) (view a) (map (the \<circ> effect_of) es')"
      using E E' Some b' by simp_all
    then have "view b = view b'" using p by argo
    then have v: "laSpeakerA b = laSpeakerA b'" "laSpeakerB b = laSpeakerB b'" "smap (laSessions b) = smap (laSessions b')"
      by (simp_all add: view_def)
    have "distinct (map lsIndex (laSessions b))" "distinct (map lsIndex (laSessions b'))" using E E' Some b' assms(4) by simp_all
    from smap_determines [OF v(3) this] show ?thesis using Some b' v(1,2) by simp
  qed
qed

lemma go_map_distinct: "distinct (map fst (go_map es)) \<and> fst ` set (go_map es) = fst ` set es"
  by (induction es) auto

lemma last_map_distinct: "distinct (map fst m) \<Longrightarrow> last_map m vs = Some n \<Longrightarrow> distinct (map fst n)"
proof (induction m vs rule: last_map.induct)
  case (2 m v vs)
  then show ?case by (cases v) (auto simp: go_map_distinct)
qed simp

text \<open>C20. Loading a LoCoMo sample does not depend on the order in which Go visits the map of the conversation:
  any two orders give the same sample, or both fail, as long as no two keys name the same session; the
  sessions come out in strictly ascending order of their index.\<close>

theorem locomo_order_independent:
  assumes "\<And>es. mset (order1 es) = mset es" and "\<And>es. mset (order2 es) = mset es"
    and "\<And>conv. last_map [] (field_values ''conversation'' ms) = Some conv \<Longrightarrow> clear_keys conv"
  shows "locomo_sample order1 ms = locomo_sample order2 ms \<and>
    (case locomo_sample order1 ms of None \<Rightarrow> True | Some s \<Rightarrow> sorted_wrt (<) (map lsIndex (lmSessions s)))"
proof -
  let ?a = "\<lparr>laSpeakerA = [], laSpeakerB = [], laSessions = []\<rparr>"
  let ?get = "map_option (\<lambda>b. (laSpeakerA b, laSpeakerB b, sort_key lsIndex (laSessions b)))"
  have sample: "locomo_sample order ms =
      do { i \<leftarrow> sfield ms ''sample_id''; conv \<leftarrow> last_map [] (field_values ''conversation'' ms);
           qa \<leftarrow> slice_field (dec_list (dec_struct locomo_qa)) [] (field_values ''qa'' ms);
           (a, b, ss) \<leftarrow> ?get (conv_entries (order conv) ?a);
           Some \<lparr>lmSampleID = i, lmSpeakerA = a, lmSpeakerB = b, lmSessions = ss, lmQA = qa\<rparr> }" for order
    unfolding locomo_sample_def by (intro Option.bind_cong refl) (auto split: Option.bind_splits)
  have eq: "?get (conv_entries (order1 conv) ?a) = ?get (conv_entries (order2 conv) ?a)"
    if l: "last_map [] (field_values ''conversation'' ms) = Some conv" for conv
  proof -
    have d: "distinct (map fst conv)" using last_map_distinct [OF _ l] by simp
    show ?thesis
      using conv_entries_perm [OF assms(1) d assms(3) [OF l], of ?a] conv_entries_perm [OF assms(2) d assms(3) [OF l], of ?a]
      by simp
  qed
  have "locomo_sample order1 ms = locomo_sample order2 ms"
    unfolding sample by (intro Option.bind_cong refl) (simp add: eq)
  moreover have "sorted_wrt (<) (map lsIndex (lmSessions s))" if ls: "locomo_sample order1 ms = Some s" for s
  proof -
    obtain conv a where "conv_entries (order1 conv) ?a = Some a" "lmSessions s = sort_key lsIndex (laSessions a)"
      using ls by (auto simp: locomo_sample_def split: Option.bind_splits)
    moreover have "distinct (map lsIndex (laSessions a))"
      using conv_entries_effects [of "order1 conv" ?a] calculation(1) by simp
    ultimately show ?thesis by (simp add: strict_sorted_iff distinct_map)
  qed
  ultimately show ?thesis by (auto split: option.splits)
qed

definition demo_conv :: "(string \<times> json) list" where
  "demo_conv = [(''conversation'', JObj [(''session_2'', JArr []), (''speaker_a'', JStr ''Ana''),
     (''session_1_date_time'', JStr ''1:56 pm on 8 May, 2023''), (''session_1'', JArr [])])]"

theorem locomo_order_independent_witness:
  "locomo_sample (\<lambda>es. es) demo_conv = locomo_sample rev demo_conv \<and>
   map_option (map lsIndex \<circ> lmSessions) (locomo_sample rev demo_conv) = Some [1, 2]"
proof -
  have "last_map [] (field_values ''conversation'' demo_conv) =
      Some [(''session_2'', JArr []), (''speaker_a'', JStr ''Ana''),
        (''session_1_date_time'', JStr ''1:56 pm on 8 May, 2023''), (''session_1'', JArr [])]"
    by code_simp
  moreover have "clear_keys [(''session_2'', JArr []), (''speaker_a'', JStr ''Ana''),
        (''session_1_date_time'', JStr ''1:56 pm on 8 May, 2023''), (''session_1'', JArr [])]"
    by code_simp
  ultimately have "locomo_sample (\<lambda>es. es) demo_conv = locomo_sample rev demo_conv"
    using locomo_order_independent [of "\<lambda>es. es" rev demo_conv] by simp
  moreover have "map_option (map lsIndex \<circ> lmSessions) (locomo_sample rev demo_conv) = Some [1, 2]" by code_simp
  ultimately show ?thesis by blast
qed

section \<open>Turn ids\<close>

lemma dec_no_underscore: "CHR ''_'' \<notin> set (dec n)"
  using digits_range [of "CHR ''_''" n] by (auto simp: dec_def)

text \<open>A turn id determines its session and its position: the index has no underscore.\<close>

lemma TurnID_inj: "TurnID s i = TurnID t j \<longleftrightarrow> s = t \<and> i = j"
proof
  assume eq: "TurnID s i = TurnID t j"
  have tail: "takeWhile (\<lambda>c. c \<noteq> CHR ''_'') (rev (TurnID u n)) = rev (dec n)" for u n
    using dec_no_underscore [of n] by (simp add: TurnID_def takeWhile_append takeWhile_tail)
  have "rev (dec i) = rev (dec j)" using tail [of s i] tail [of t j] eq by argo
  then show "s = t \<and> i = j" using eq by (simp add: TurnID_def)
qed simp

end
