(* ===== verification/GoParse.thy ===== *)
theory GoParse
  imports GoFloat Json
begin

text \<open>
  What the mock embedder's settings use of the standard library: \<^verbatim>\<open>strconv.ParseFloat(s, 64)\<close> (decimal and
  hexadecimal literals, underscores between digits, the spelled-out special values, one rounding of the exact value)
  and \<^verbatim>\<open>time.ParseDuration\<close> (a sum of decimal numbers with units, in 64-bit nanoseconds).
\<close>

section \<open>\<^verbatim>\<open>strconv.ParseFloat\<close>\<close>

definition split_sign :: "string \<Rightarrow> bool \<times> string" where
  "split_sign s = (case s of
       c # cs \<Rightarrow> if c = CHR ''-'' then (True, cs) else if c = CHR ''+'' then (False, cs) else (False, s)
     | [] \<Rightarrow> (False, []))"

definition digit_value :: "char \<Rightarrow> int" where
  "digit_value c = byte_of c - 48"

text \<open>\<^verbatim>\<open>lower(c)\<close> sets the bit that distinguishes the cases of a letter.\<close>

definition lower_byte :: "char \<Rightarrow> int" where
  "lower_byte c = (if byte_of c mod 64 < 32 then byte_of c + 32 else byte_of c)"

definition hex_letter :: "char \<Rightarrow> bool" where
  "hex_letter c \<longleftrightarrow> 97 \<le> lower_byte c \<and> lower_byte c \<le> 102"

fun prefix_len_ignore_case :: "string \<Rightarrow> string \<Rightarrow> nat" where
  "prefix_len_ignore_case (c # cs) (p # ps) =
     (if (if 65 \<le> byte_of c \<and> byte_of c \<le> 90 then byte_of c + 32 else byte_of c) = byte_of p
      then 1 + prefix_len_ignore_case cs ps else 0)"
| "prefix_len_ignore_case _ _ = 0"

text \<open>\<^verbatim>\<open>special\<close>: the value and the number of characters it takes.\<close>

definition special_inf :: "bool \<Rightarrow> nat \<Rightarrow> string \<Rightarrow> (f64 \<times> nat) option" where
  "special_inf neg nsign s =
     (let k = prefix_len_ignore_case s ''infinity''; n = (if 3 < k \<and> k < 8 then 3 else k)
      in if n = 3 \<or> n = 8 then Some (if neg then NInf else PInf, nsign + n) else None)"

definition special :: "string \<Rightarrow> (f64 \<times> nat) option" where
  "special s = (case s of
       [] \<Rightarrow> None
     | c # cs \<Rightarrow>
         if c = CHR ''+'' \<or> c = CHR ''-'' then special_inf (c = CHR ''-'') 1 cs
         else if c = CHR ''i'' \<or> c = CHR ''I'' then special_inf False 0 s
         else if c = CHR ''n'' \<or> c = CHR ''N'' then (if prefix_len_ignore_case s ''nan'' = 3 then Some (NaN, 3) else None)
         else None)"

text \<open>The digits of the mantissa: whether there was one, their value, how many follow the point, and the rest.\<close>

fun mantissa :: "bool \<Rightarrow> bool \<Rightarrow> bool \<Rightarrow> int \<Rightarrow> int \<Rightarrow> string \<Rightarrow> bool \<times> int \<times> int \<times> string" where
  "mantissa hex dot saw m fr [] = (saw, m, fr, [])"
| "mantissa hex dot saw m fr (c # cs) =
     (if c = CHR ''_'' then mantissa hex dot saw m fr cs
      else if c = CHR ''.'' then (if dot then (saw, m, fr, c # cs) else mantissa hex True saw m fr cs)
      else if jdigit c then
        mantissa hex dot True ((if hex then 16 else 10) * m + digit_value c) (if dot then fr + 1 else fr) cs
      else if hex \<and> hex_letter c then
        mantissa hex dot True (16 * m + (lower_byte c - 87)) (if dot then fr + 1 else fr) cs
      else (saw, m, fr, c # cs))"

text \<open>The digits of the exponent, of which at most five count.\<close>

fun exponent :: "int \<Rightarrow> string \<Rightarrow> int \<times> string" where
  "exponent e [] = (e, [])"
| "exponent e (c # cs) =
     (if c = CHR ''_'' then exponent e cs
      else if jdigit c then exponent (if e < 10000 then e * 10 + digit_value c else e) cs
      else (e, c # cs))"

definition signed_exponent :: "string \<Rightarrow> (int \<times> string) option" where
  "signed_exponent s =
     (let (neg, t) = split_sign s
      in case t of
           [] \<Rightarrow> None
         | c # cs \<Rightarrow> if jdigit c then (let (e, r) = exponent 0 t in Some (if neg then - e else e, r)) else None)"

text \<open>\<^verbatim>\<open>underscoreOK\<close>: an underscore stands between digits, the prefix of the base counting as one.\<close>

fun underscores_separate :: "bool \<Rightarrow> char \<Rightarrow> string \<Rightarrow> bool" where
  "underscores_separate hex seen [] = (seen \<noteq> CHR ''_'')"
| "underscores_separate hex seen (c # cs) =
     (if jdigit c \<or> hex \<and> hex_letter c then underscores_separate hex (CHR ''0'') cs
      else if c = CHR ''_'' then seen = CHR ''0'' \<and> underscores_separate hex (CHR ''_'') cs
      else seen \<noteq> CHR ''_'' \<and> underscores_separate hex (CHR ''!'') cs)"

definition underscoreOK :: "string \<Rightarrow> bool" where
  "underscoreOK s =
     (let t = snd (split_sign s)
      in case t of
           z # b # u \<Rightarrow>
             if z = CHR ''0'' \<and> lower_byte b \<in> {98, 111, 120} then underscores_separate (lower_byte b = 120) (CHR ''0'') u
             else underscores_separate False (CHR ''^'') t
         | _ \<Rightarrow> underscores_separate False (CHR ''^'') t)"

definition hex_prefix :: "string \<Rightarrow> bool" where
  "hex_prefix t = (case t of z # x # _ # _ \<Rightarrow> z = CHR ''0'' \<and> lower_byte x = 120 | _ \<Rightarrow> False)"

text \<open>\<^verbatim>\<open>readFloat\<close>: the sign, the exact magnitude and the rest of the text.\<close>

definition readFloat :: "string \<Rightarrow> (bool \<times> rat \<times> string) option" where
  "readFloat s =
     (let (neg, t) = split_sign s; hex = hex_prefix t;
          (saw, m, fr, r) = mantissa hex False False 0 0 (if hex then drop 2 t else t)
      in if \<not> saw then None
         else case (if r \<noteq> [] \<and> lower_byte (hd r) = (if hex then 112 else 101) then signed_exponent (tl r)
                    else if hex then None else Some (0, r)) of
           None \<Rightarrow> None
         | Some (e, rest) \<Rightarrow>
             (let consumed = take (length s - length rest) s
              in if CHR ''_'' \<in> set consumed \<and> \<not> underscoreOK consumed then None
                 else Some (neg, of_int m * (if hex then 2 powi (e - 4 * fr) else 10 powi (e - fr)), rest)))"

definition ParseFloat :: "string \<Rightarrow> f64 option" where
  "ParseFloat s = (case special s of
       Some (x, n) \<Rightarrow> if n = length s then Some x else None
     | None \<Rightarrow>
         (case readFloat s of
            None \<Rightarrow> None
          | Some (neg, q, rest) \<Rightarrow>
              (let x = mk64 neg (if neg then - q else q)
               in if rest \<noteq> [] \<or> is_inf x then None else Some x)))"

section \<open>\<^verbatim>\<open>time.ParseDuration\<close>\<close>

fun leadingInt :: "int \<Rightarrow> string \<Rightarrow> (int \<times> string) option" where
  "leadingInt x [] = Some (x, [])"
| "leadingInt x (c # cs) =
     (if \<not> jdigit c then Some (x, c # cs)
      else if 2 ^ 63 div 10 < x then None
      else let y = x * 10 + digit_value c in if 2 ^ 63 < y then None else leadingInt y cs)"

fun leadingFraction :: "bool \<Rightarrow> int \<Rightarrow> f64 \<Rightarrow> string \<Rightarrow> int \<times> f64 \<times> string" where
  "leadingFraction overflow x scale [] = (x, scale, [])"
| "leadingFraction overflow x scale (c # cs) =
     (if \<not> jdigit c then (x, scale, c # cs)
      else if overflow \<or> (2 ^ 63 - 1) div 10 < x then leadingFraction True x scale cs
      else let y = x * 10 + digit_value c
           in if 2 ^ 63 < y then leadingFraction True x scale cs
              else leadingFraction False y (f64_mul scale (Num 10)) cs)"

text \<open>The two micro signs, U+00B5 and U+03BC, are their UTF-8 bytes.\<close>

definition unitMap :: "string \<Rightarrow> int option" where
  "unitMap = map_of [(''ns'', 1), (''us'', 1000), ([CHR 0xC2, CHR 0xB5, CHR ''s''], 1000),
     ([CHR 0xCE, CHR 0xBC, CHR ''s''], 1000), (''ms'', 1000000), (''s'', 1000000000),
     (''m'', 60000000000), (''h'', 3600000000000)]"

text \<open>One number with its unit.\<close>

definition duration_term :: "string \<Rightarrow> (int \<times> string) option" where
  "duration_term s =
     (if s = [] \<or> \<not> (hd s = CHR ''.'' \<or> jdigit (hd s)) then None
      else case leadingInt 0 s of
        None \<Rightarrow> None
      | Some (v, s1) \<Rightarrow>
          (let (f, scale, s2) = (if s1 \<noteq> [] \<and> hd s1 = CHR ''.'' then leadingFraction False 0 (Num 1) (tl s1) else (0, Num 1, s1));
               pre = length s1 \<noteq> length s;
               post = (s1 \<noteq> [] \<and> hd s1 = CHR ''.'' \<and> length s2 \<noteq> length (tl s1));
               (u, rest) = span (\<lambda>c. \<not> (c = CHR ''.'' \<or> jdigit c)) s2
           in if \<not> pre \<and> \<not> post \<or> u = [] then None
              else case unitMap u of
                None \<Rightarrow> None
              | Some unit \<Rightarrow>
                  if 2 ^ 63 div unit < v then None
                  else let w = v * unit + (if 0 < f then \<lfloor>fval (f64_mul (f64_of_int f) (f64_div (f64_of_int unit) scale))\<rfloor> else 0)
                       in if 0 < f \<and> 2 ^ 63 < w then None else Some (w, rest)))"

lemma leadingInt_length: "leadingInt x s = Some (y, r) \<Longrightarrow> length r \<le> length s"
  by (induction x s rule: leadingInt.induct) (auto simp: Let_def split: if_splits)

lemma leadingFraction_length: "leadingFraction b x sc s = (y, sc', r) \<Longrightarrow> length r \<le> length s"
proof (induction b x sc s rule: leadingFraction.induct)
  case (2 overflow x scale c cs)
  then show ?case by (auto simp: Let_def split: if_splits)
qed simp

lemma duration_term_shorter:
  assumes "duration_term s = Some (w, rest)"
  shows "length rest < length s"
proof -
  obtain v s1 where i: "leadingInt 0 s = Some (v, s1)"
    using assms by (auto simp: duration_term_def split: if_splits option.splits)
  obtain f sc s2 where f: "(if s1 \<noteq> [] \<and> hd s1 = CHR ''.'' then leadingFraction False 0 (Num 1) (tl s1) else (0, Num 1, s1)) = (f, sc, s2)"
    by (metis surj_pair)
  have "length s2 \<le> length s1"
    using f leadingFraction_length [of False 0 "Num 1" "tl s1" f sc s2] by (auto split: if_splits)
  moreover have "takeWhile (\<lambda>c. \<not> (c = CHR ''.'' \<or> jdigit c)) s2 \<noteq> []"
    and "rest = dropWhile (\<lambda>c. \<not> (c = CHR ''.'' \<or> jdigit c)) s2"
    using assms by (auto simp: duration_term_def i f Let_def span_def split: if_splits option.splits)
  moreover from this have "length rest < length s2"
    by (metis append_Nil length_append length_greater_0_conv less_add_same_cancel2 takeWhile_dropWhile_id)
  ultimately show ?thesis using leadingInt_length [OF i] by linarith
qed

text \<open>The sum wraps at 64 bits before it is compared.\<close>

function duration_sum :: "int \<Rightarrow> string \<Rightarrow> int option" where
  "duration_sum d s =
     (if s = [] then Some d
      else case duration_term s of
        None \<Rightarrow> None
      | Some (w, rest) \<Rightarrow>
          (let d' = (d + w) mod 2 ^ 64 in if 2 ^ 63 < d' then None else duration_sum d' rest))"
  by pat_completeness auto
termination
  by (relation "measure (\<lambda>(d, s). length s)") (auto dest: duration_term_shorter)

declare duration_sum.simps [simp del]

definition ParseDuration :: "string \<Rightarrow> int option" where
  "ParseDuration s =
     (let (neg, t) = split_sign s
      in if t = ''0'' then Some 0
         else if t = [] then None
         else case duration_sum 0 t of
           None \<Rightarrow> None
         | Some d \<Rightarrow> if neg then Some (- d) else if 2 ^ 63 - 1 < d then None else Some d)"

section \<open>What a duration parses to\<close>

lemma digit_value_char: "d < 10 \<Longrightarrow> digit_value (char_of (48 + d)) = int d" and jdigit_char: "d < 10 \<Longrightarrow> jdigit (char_of (48 + d))"
  for d :: nat
proof -
  assume d: "d < 10"
  have "byte_of (char_of (48 + d)) = int (of_char (char_of (48 + d) :: char))" unfolding byte_of_def by (rule of_nat_of_char [symmetric])
  then have "byte_of (char_of (48 + d)) = 48 + int d" using digit_char [OF d] by simp
  then show "digit_value (char_of (48 + d)) = int d" and "jdigit (char_of (48 + d))"
    using d by (simp_all add: digit_value_def jdigit_def)
qed

lemma leadingInt_digits: "n \<le> 2 ^ 63 \<Longrightarrow> leadingInt 0 (digits n @ s) = leadingInt (int n) s"
proof (induction n arbitrary: s rule: digits.induct)
  case (1 n)
  note d = digit_value_char [of "n mod 10"] jdigit_char [of "n mod 10"]
  show ?case
  proof (cases "n < 10")
    case True
    then show ?thesis using d by (subst digits.simps) simp
  next
    case False
    have "int n \<le> 2 ^ 63" using 1(2) by (simp add: nat_le_iff of_nat_le_iff [symmetric])
    moreover have "int (n div 10) * 10 + int (n mod 10) = int n" by (metis div_mult_mod_eq of_nat_add of_nat_mult of_nat_numeral)
    moreover have "n div 10 \<le> 2 ^ 63" using 1(2) by simp
    ultimately show ?thesis
      using False d 1(1) [OF False, of "char_of (48 + n mod 10) # s"] by (subst digits.simps) (simp add: Let_def)
  qed
qed

lemma digits_front: "digits n \<noteq> [] \<and> jdigit (hd (digits n))"
proof (induction n rule: digits.induct)
  case (1 n)
  then show ?case using jdigit_char [of n] by (subst (1 2) digits.simps) auto
qed

lemma leadingInt_stop: "\<not> jdigit c \<Longrightarrow> leadingInt x (c # cs) = Some (x, c # cs)"
  by simp

text \<open>A decimal number of seconds.\<close>

lemma ParseDuration_seconds:
  assumes "n \<le> 9223372036"
  shows "ParseDuration (dec n @ ''s'') = Some (int n * 1000000000)"
proof -
  let ?s = "dec n @ ''s''"
  have s: "\<not> jdigit (CHR ''s'')" by code_simp
  have front: "?s \<noteq> []" "jdigit (hd ?s)" using digits_front [of n] by (simp_all add: dec_def)
  have "leadingInt 0 ?s = Some (int n, ''s'')"
    using leadingInt_digits [of n "''s''"] assms s by (simp add: dec_def)
  then have "duration_term ?s = Some (int n * 1000000000, [])"
    using front s digits_front [of n] assms by (simp add: duration_term_def span_def unitMap_def dec_def)
  moreover have "(int n * 1000000000) mod 2 ^ 64 = int n * 1000000000" using assms by simp
  ultimately have "duration_sum 0 ?s = Some (int n * 1000000000)"
    using assms by (simp add: duration_sum.simps [of 0 ?s] duration_sum.simps [of _ "[]"])
  moreover have "split_sign ?s = (False, ?s)"
    using front by (cases ?s) (auto simp: split_sign_def jdigit_def byte_of_def)
  moreover have "?s \<noteq> ''0''" using digits_front [of n] by (cases "digits n") (auto simp: dec_def)
  ultimately show ?thesis using assms by (simp add: ParseDuration_def)
qed

lemma duration_sum_range: "duration_sum d s = Some e \<Longrightarrow> 0 \<le> d \<Longrightarrow> d \<le> 2 ^ 63 \<Longrightarrow> 0 \<le> e \<and> e \<le> 2 ^ 63"
proof (induction d s rule: duration_sum.induct)
  case (1 d s)
  show ?case
  proof (cases "s = []")
    case False
    then obtain w rest where t: "duration_term s = Some (w, rest)" "\<not> 2 ^ 63 < (d + w) mod 2 ^ 64"
      "duration_sum ((d + w) mod 2 ^ 64) rest = Some e"
      using 1(2) by (subst (asm) duration_sum.simps) (auto simp: Let_def split: option.splits if_splits)
    then show ?thesis using 1(1) [OF False t(1) refl refl] by simp
  qed (use 1 in \<open>simp add: duration_sum.simps\<close>)
qed

lemma ParseDuration_range: "ParseDuration s = Some d \<Longrightarrow> - (2 ^ 63) \<le> d \<and> d < 2 ^ 63"
  using duration_sum_range [of 0] by (fastforce simp: ParseDuration_def split: prod.splits if_splits option.splits)

end
