(* ===== verification/Mock.thy ===== *)
theory Mock
  imports Batch Loaders GoParse
begin

text \<open>
  The mock embedding service (\<^verbatim>\<open>tools/mockembedder\<close>): the deterministic vector of a text, the handler with its
  fault injection, and the settings the injection is configured with. Instants are nanoseconds of the Unix epoch. The pseudo-random normal deviates of a seed (\<^verbatim>\<open>rand.New(rand.NewSource(seed))\<close>), the process-wide
  random source, the clock and the timer are arguments.
\<close>

unbundle bit_operations_syntax

section \<open>The vector of a text\<close>

definition mock_dims :: nat where
  "mock_dims = 768"

text \<open>\<^verbatim>\<open>hash/fnv.New64a\<close>.\<close>

definition fnv64a :: "bytes \<Rightarrow> 64 word" where
  "fnv64a bs = foldl (\<lambda>h b. (h XOR ucast b) * 1099511628211) 14695981039346656037 bs"

text \<open>\<open>NormFloat64 seed i\<close> is the deviate number \<open>i\<close> of the source seeded with \<open>seed\<close>.\<close>

definition deterministicVector :: "(int64 \<Rightarrow> nat \<Rightarrow> f64) \<Rightarrow> string \<Rightarrow> nat \<Rightarrow> f32 list" where
  "deterministicVector NormFloat64 text n =
     (let seed = fnv64a (string_bytes text);
          xs = map (NormFloat64 seed) [0..<n];
          v = map f64_to_f32 xs;
          norm0 = f64_sqrt (foldl (\<lambda>s x. f64_add s (f64_mul x x)) (Num 0) xs);
          norm = (if f64_eq norm0 (Num 0) then Num 1 else norm0)
      in map (\<lambda>f. f64_to_f32 (f64_div (f32_to_f64 f) norm)) v)"

section \<open>The handler\<close>

record mock_server =
  msLatency :: duration
  msFailRate :: f64
  msBadDimsRate :: f64
  msOutageUntil :: int

text \<open>The surroundings: the clock, the global random source, and a wait for a duration that tells whether the
  timer fired before the context ended.\<close>

record 'w mock_env =
  mNow :: "'w \<Rightarrow> int"
  mFloat64 :: "'w \<Rightarrow> f64 \<times> 'w"
  mWait :: "duration \<Rightarrow> 'w \<Rightarrow> bool \<times> 'w"

abbreviation (input) codes_DeadlineExceeded :: nat where "codes_DeadlineExceeded \<equiv> 4"
abbreviation (input) codes_Unavailable :: nat where "codes_Unavailable \<equiv> 14"

text \<open>A rate draws only when it is positive.\<close>

definition draw :: "'w mock_env \<Rightarrow> f64 \<Rightarrow> 'w \<Rightarrow> bool \<times> 'w" where
  "draw e rate w =
     (if f64_lt (Num 0) rate then (case mFloat64 e w of (x, w') \<Rightarrow> (f64_lt x rate, w')) else (False, w))"

definition Mock_Embed ::
  "(int64 \<Rightarrow> nat \<Rightarrow> f64) \<Rightarrow> 'w mock_env \<Rightarrow> mock_server \<Rightarrow> string \<times> string \<Rightarrow> 'w \<Rightarrow> (go_error, f32 list) result \<times> 'w" where
  "Mock_Embed NormFloat64 e s req w0 =
     (let (fired, w1) = (if 0 < msLatency s then mWait e (msLatency s) w0 else (True, w0)) in
      if \<not> fired then (Inl (StatusError codes_DeadlineExceeded ''ctx cancelled''), w1)
      else if mNow e w1 < msOutageUntil s then (Inl (StatusError codes_Unavailable ''simulated outage''), w1)
      else case draw e (msFailRate s) w1 of
        (True, w2) \<Rightarrow> (Inl (StatusError codes_Unavailable ''simulated transient failure''), w2)
      | (False, w2) \<Rightarrow>
          (case draw e (msBadDimsRate s) w2 of
             (bad, w3) \<Rightarrow> (Inr (deterministicVector NormFloat64 (fst req) (if bad then 512 else mock_dims)), w3)))"

section \<open>The settings\<close>

definition envInt :: "(string \<Rightarrow> string) \<Rightarrow> string \<Rightarrow> int \<Rightarrow> int" where
  "envInt Getenv k def =
     (if Getenv k \<noteq> [] then (case ParseInt 64 (Getenv k) of Some n \<Rightarrow> n | None \<Rightarrow> def) else def)"

definition envFloat :: "(string \<Rightarrow> string) \<Rightarrow> string \<Rightarrow> f64 \<Rightarrow> f64" where
  "envFloat Getenv k def =
     (if Getenv k \<noteq> [] then (case ParseFloat (Getenv k) of Some f \<Rightarrow> f | None \<Rightarrow> def) else def)"

definition envDur :: "(string \<Rightarrow> string) \<Rightarrow> string \<Rightarrow> duration \<Rightarrow> duration" where
  "envDur Getenv k def =
     (if Getenv k \<noteq> [] then (case ParseDuration (Getenv k) of Some d \<Rightarrow> d | None \<Rightarrow> def) else def)"

text \<open>The zero value of \<^verbatim>\<open>time.Time\<close> is the first instant of year 1.\<close>

definition zero_time :: int where
  "zero_time = - 62135596800000000000"

definition mock_main :: "(string \<Rightarrow> string) \<Rightarrow> int \<Rightarrow> mock_server" where
  "mock_main Getenv now =
     (let s = \<lparr>msLatency = mul64 (envInt Getenv ''MOCK_LATENCY_MS'' 50) 1000000,
               msFailRate = envFloat Getenv ''MOCK_FAIL_RATE'' (Num 0),
               msBadDimsRate = envFloat Getenv ''MOCK_BAD_DIMS_RATE'' (Num 0),
               msOutageUntil = zero_time\<rparr>;
          d = envDur Getenv ''MOCK_FAIL_UNTIL'' 0
      in if 0 < d then s\<lparr>msOutageUntil := now + d\<rparr> else s)"

section \<open>Behind the transport\<close>

lemma deterministicVector_length [simp]: "length (deterministicVector g text n) = n"
  by (simp add: deterministicVector_def Let_def)

text \<open>What the gRPC transport makes of an answer of the service.\<close>

definition mock_reply_ok :: "(int64 \<Rightarrow> nat \<Rightarrow> f64) \<Rightarrow> string \<Rightarrow> (go_error, f32 list) result \<Rightarrow> bool" where
  "mock_reply_ok g text r \<longleftrightarrow>
     (case r of
        Inr v \<Rightarrow> v = deterministicVector g text Dims
      | Inl err \<Rightarrow> IsPermanent err \<or> status_code err = codes_Unavailable \<or> status_code err = codes_DeadlineExceeded)"

lemma mock_service_cases:
  "(\<exists>c m w'. Mock_Embed g e s req w = (Inl (StatusError c m), w') \<and> (c = 4 \<or> c = 14)) \<or>
   (\<exists>n w'. Mock_Embed g e s req w = (Inr (deterministicVector g (fst req) n), w') \<and> (n = Dims \<or> n = 512))"
  by (auto simp: Mock_Embed_def Let_def Dims_def mock_dims_def split: prod.splits bool.splits)

lemma mock_transport: "mock_reply_ok g text (fst (GRPCEmbedder_Embed None (Mock_Embed g e s) text w))"
proof -
  let ?req = "(text, if HasPrefix text QueryPrefix then ''search_query'' else ''search_document'')"
  have n: "512 \<noteq> Dims" by (simp add: Dims_def)
  from mock_service_cases [of g e s ?req w] show ?thesis
    using n by (auto simp: GRPCEmbedder_Embed_def mock_reply_ok_def Permanentf_def)
qed

lemma mock_dims_loop:
  "mock_reply_ok g text (nil_or_err lastErr) \<or> 0 < n \<and> lastErr = None \<Longrightarrow>
   mock_reply_ok g text (fst (dims_loop n (GRPCEmbedder_Embed None (Mock_Embed g e s)) text lastErr w))"
proof (induction n arbitrary: lastErr w)
  case (Suc n)
  obtain r w' where r: "GRPCEmbedder_Embed None (Mock_Embed g e s) text w = (r, w')" by force
  then have ok: "mock_reply_ok g text r" using mock_transport [of g "text" e s w] by simp
  show ?case
  proof (cases r)
    case (Inl err)
    then have "mock_reply_ok g text (nil_or_err (Some err))" using ok by (simp add: nil_or_err_def)
    then show ?thesis using Suc.IH [of "Some err" w'] r Inl ok by simp
  qed (use r ok in simp)
qed simp

text \<open>C39. Whatever the mock service injects (latency, an outage, random failures, wrong dimensions), the server's
  transport (the gRPC client with its re-asks) only ever succeeds with the 768-dimensional vector that the text
  determines, independent of the clock and of the random source; and a failure is permanent, which only
  wrong dimensions cause, or has the status Unavailable or DeadlineExceeded, which the retries cover.\<close>

theorem mock_success_deterministic:
  "mock_reply_ok g text (fst (dimsRetryEmbedder_Embed 2 (GRPCEmbedder_Embed None (Mock_Embed g e s)) text w)) \<and>
   (case fst (GRPCEmbedder_Embed None (Mock_Embed g e s) text w) of
      Inr v \<Rightarrow> length v = Dims
    | Inl err \<Rightarrow> IsPermanent err = (case fst (Mock_Embed g e s (text, if HasPrefix text QueryPrefix then ''search_query'' else ''search_document'') w) of
          Inr v \<Rightarrow> length v = 512 | Inl _ \<Rightarrow> False))"
proof
  show "mock_reply_ok g text (fst (dimsRetryEmbedder_Embed 2 (GRPCEmbedder_Embed None (Mock_Embed g e s)) text w))"
    unfolding dimsRetryEmbedder_Embed_def by (rule mock_dims_loop) simp
  let ?req = "(text, if HasPrefix text QueryPrefix then ''search_query'' else ''search_document'')"
  from mock_service_cases [of g e s ?req w]
  show "case fst (GRPCEmbedder_Embed None (Mock_Embed g e s) text w) of
      Inr v \<Rightarrow> length v = Dims
    | Inl err \<Rightarrow> IsPermanent err = (case fst (Mock_Embed g e s ?req w) of Inr v \<Rightarrow> length v = 512 | Inl _ \<Rightarrow> False)"
    by (auto simp: GRPCEmbedder_Embed_def Permanentf_def)
qed

text \<open>The world after the pause of one call.\<close>

definition after_pause :: "'w mock_env \<Rightarrow> mock_server \<Rightarrow> 'w \<Rightarrow> 'w" where
  "after_pause e s w = (if 0 < msLatency s then snd (mWait e (msLatency s) w) else w)"

text \<open>C38. The outage the mock service simulates begins with its start and ends when it was asked to. Start it with
  \<^verbatim>\<open>MOCK_FAIL_UNTIL\<close> set to any whole number of seconds a duration can hold, and with no random faults. As long as no context
  ends during the pause of a call, whatever the latency, the handler answers a call with Unavailable while the clock,
  read after the pause, is less than that many seconds past the start, and from then on answers every text with its vector of 768 floats.\<close>

theorem mock_outage_ends:
  assumes "Getenv ''MOCK_FAIL_UNTIL'' = dec n @ ''s''" and "0 < n" and "n \<le> 9223372036"
    and "Getenv ''MOCK_FAIL_RATE'' = []" and "Getenv ''MOCK_BAD_DIMS_RATE'' = []"
    and "\<forall>d w. fst (mWait e d w)" and "s = mock_main Getenv start"
  shows "Mock_Embed g e s req w =
    (if mNow e (after_pause e s w) < start + int n * 1000000000 then Inl (StatusError codes_Unavailable ''simulated outage'')
     else Inr (deterministicVector g (fst req) 768), after_pause e s w)"
proof -
  have "Getenv ''MOCK_FAIL_UNTIL'' \<noteq> []" using assms(1) by simp
  then have "envDur Getenv ''MOCK_FAIL_UNTIL'' 0 = int n * 1000000000"
    using ParseDuration_seconds [OF assms(3)] assms(1) by (simp add: envDur_def)
  then have s: "msFailRate s = Num 0" "msBadDimsRate s = Num 0" "msOutageUntil s = start + int n * 1000000000"
    using assms(2,4,5,7) by (simp_all add: mock_main_def envFloat_def)
  have fired: "(if 0 < msLatency s then mWait e (msLatency s) w else (True, w)) = (True, after_pause e s w)"
    using assms(6) by (simp add: after_pause_def prod_eq_iff)
  have "draw e (Num 0) x = (False, x)" for x by (simp add: draw_def f64_lt_def)
  then show ?thesis by (simp add: Mock_Embed_def fired s mock_dims_def)
qed

text \<open>A service started at instant 1000 with an outage of 30 seconds, whose pauses take their time.\<close>

definition demo_mock_env :: "int mock_env" where
  "demo_mock_env = \<lparr>mNow = (\<lambda>w. w), mFloat64 = (\<lambda>w. (Num 0, w)), mWait = (\<lambda>d w. (True, w + d))\<rparr>"

definition demo_mock_vars :: "string \<Rightarrow> string" where
  "demo_mock_vars k = (if k = ''MOCK_FAIL_UNTIL'' then ''30s'' else [])"

theorem mock_outage_ends_witness:
  "fst (Mock_Embed (\<lambda>_ _. Num 1) demo_mock_env (mock_main demo_mock_vars 1000) (''x'', ''search_document'') 2000) =
     Inl (StatusError 14 ''simulated outage'') \<and>
   fst (Mock_Embed (\<lambda>_ _. Num 1) demo_mock_env (mock_main demo_mock_vars 1000) (''x'', ''search_document'') 29950001000) =
     Inr (deterministicVector (\<lambda>_ _. Num 1) ''x'' 768)"
proof -
  let ?s = "mock_main demo_mock_vars 1000"
  have v: "demo_mock_vars ''MOCK_FAIL_UNTIL'' = dec 30 @ ''s''" by code_simp
  have r: "demo_mock_vars ''MOCK_FAIL_RATE'' = []" "demo_mock_vars ''MOCK_BAD_DIMS_RATE'' = []" by code_simp+
  have w: "\<forall>d w. fst (mWait demo_mock_env d w)" by (simp add: demo_mock_env_def)
  have l: "msLatency ?s = 50000000" by code_simp
  have n: "0 < (30 :: nat)" "(30 :: nat) \<le> 9223372036" by simp_all
  note o = mock_outage_ends [OF v n r w refl, where start = 1000 and g = "\<lambda>_ _. Num 1" and req = "(''x'', ''search_document'')"]
  have "mNow demo_mock_env (after_pause demo_mock_env ?s t) = t + 50000000" for t by (simp add: after_pause_def l demo_mock_env_def)
  then show ?thesis using o [of 2000] o [of 29950001000] by simp
qed

interpretation mock_source: retried_source "GRPCEmbedder_Embed None (Mock_Embed g e s)" "\<lambda>_. True" 2 for g e s
  by unfold_locales (auto simp: GRPCEmbedder_Embed_def Let_def split: prod.splits sum.splits if_splits)

end
