(* ===== verification/Sweep.thy ===== *)
theory Sweep
  imports Batch
begin

text \<open>
  The sweep workflow, its schedule and the worker configuration (\<^verbatim>\<open>internal/enrich/workflow.go\<close>,
  \<^verbatim>\<open>schedule.go\<close>, \<^verbatim>\<open>worker.go\<close>). The Temporal SDK is a parameter: executing an activity, fanning
  out the batches of a wave and sleeping are functions on the state of the world, which has a clock.
  Workflow time is in nanoseconds.
\<close>

section \<open>The workflow\<close>

record SweepInput =
  siVersion :: int16
  siBatchSize :: int
  siFanOut :: int

record RetryPolicy =
  InitialInterval :: duration
  BackoffCoefficient :: int
  MaximumInterval :: duration
  MaximumAttempts :: nat
  NonRetryableErrorTypes :: "string list"

record ActivityOptions =
  StartToCloseTimeout :: duration
  HeartbeatTimeout :: duration
  ao_RetryPolicy :: RetryPolicy

definition second :: duration where
  "second = 1000000000"

definition PermanentErrorType :: string where
  "PermanentErrorType = ''PermanentEnrichmentError''"

definition sweepActivityOptions :: ActivityOptions where
  "sweepActivityOptions =
     \<lparr>StartToCloseTimeout = 300 * second, HeartbeatTimeout = 15 * second,
      ao_RetryPolicy =
        \<lparr>InitialInterval = second, BackoffCoefficient = 2, MaximumInterval = 30 * second,
         MaximumAttempts = 5, NonRetryableErrorTypes = [PermanentErrorType]\<rparr>\<rparr>"

definition SoftDeadline :: duration where
  "SoftDeadline = 50 * second"

definition interWavePause :: duration where
  "interWavePause = second"

text \<open>What the workflow asks of the SDK: the clock, the three activities (with the activity options the
  workflow sets) and the timer. \<open>wfBatches\<close> starts one activity per batch and waits for all of them.\<close>

record 'w workflow_env =
  wfNow :: "'w \<Rightarrow> int"
  wfCount :: "ActivityOptions \<Rightarrow> int16 \<Rightarrow> 'w \<Rightarrow> (go_error, int) result \<times> 'w"
  wfPlan :: "ActivityOptions \<Rightarrow> int16 \<Rightarrow> int \<Rightarrow> int \<Rightarrow> 'w \<Rightarrow> (go_error, BatchInput list) result \<times> 'w"
  wfBatches :: "ActivityOptions \<Rightarrow> BatchInput list \<Rightarrow> 'w \<Rightarrow> (go_error, BatchResult) result list \<times> 'w"
  wfSleep :: "duration \<Rightarrow> 'w \<Rightarrow> (go_error, unit) result \<times> 'w"

text \<open>Why a run ended; all but the last are a nil error of the workflow.\<close>

datatype sweep_end =
    Drained
  | NothingClaimable
  | DeadlineHit
  | SweepFailed go_error

text \<open>The loop, with at most \<open>fuel\<close> tests of its condition; the results of the batches are only
  logged.\<close>

fun sweep_loop ::
  "nat \<Rightarrow> 'w workflow_env \<Rightarrow> int16 \<Rightarrow> int \<Rightarrow> int \<Rightarrow> int \<Rightarrow> 'w \<Rightarrow> (sweep_end \<times> 'w) option" where
  "sweep_loop 0 e version batchSize fanOut deadline w = None"
| "sweep_loop (Suc fuel) e version batchSize fanOut deadline w =
     (if \<not> wfNow e w < deadline then Some (DeadlineHit, w)
      else case wfCount e sweepActivityOptions version w of
        (Inl err, w1) \<Rightarrow> Some (SweepFailed err, w1)
      | (Inr backlog, w1) \<Rightarrow>
          if backlog = 0 then Some (Drained, w1)
          else case wfPlan e sweepActivityOptions version batchSize fanOut w1 of
            (Inl err, w2) \<Rightarrow> Some (SweepFailed err, w2)
          | (Inr batches, w2) \<Rightarrow>
              if batches = [] then Some (NothingClaimable, w2)
              else case wfSleep e interWavePause (snd (wfBatches e sweepActivityOptions batches w2)) of
                (Inl err, w4) \<Rightarrow> Some (SweepFailed err, w4)
              | (Inr _, w4) \<Rightarrow> sweep_loop fuel e version batchSize fanOut deadline w4)"

definition EnrichmentSweepWorkflow ::
  "nat \<Rightarrow> int16 \<Rightarrow> 'w workflow_env \<Rightarrow> SweepInput \<Rightarrow> 'w \<Rightarrow> (sweep_end \<times> 'w) option" where
  "EnrichmentSweepWorkflow fuel dv e inp w =
     sweep_loop fuel e
       (if siVersion inp = 0 then dv else siVersion inp)
       (if siBatchSize inp \<le> 0 then DefaultBatchSize else siBatchSize inp)
       (if siFanOut inp \<le> 0 then DefaultFanOut else siFanOut inp)
       (wfNow e w + SoftDeadline) w"

section \<open>The schedule and the worker\<close>

record ScheduleConfig =
  scID :: string
  scTaskQueue :: string
  scInterval :: duration
  scVersion :: int16
  scPaused :: bool

definition TaskQueue :: string where "TaskQueue = ''enrichment''"
definition ScheduleID :: string where "ScheduleID = ''enrichment-sweep''"

datatype overlap = OverlapSkip

record ScheduleOptions =
  soID :: string
  soEvery :: duration
  soOverlap :: overlap
  soPaused :: bool
  soWorkflowID :: string
  soArgs :: SweepInput
  soTaskQueue :: string

text \<open>The errors creating a schedule can have, as the code tells them apart.\<close>

datatype schedule_error =
    ErrScheduleAlreadyRunning
  | ServiceAlreadyExists
  | OtherScheduleError go_error

definition schedule_options :: "int16 \<Rightarrow> ScheduleConfig \<Rightarrow> ScheduleOptions" where
  "schedule_options dv cfg =
     \<lparr>soID = (if scID cfg = [] then ScheduleID else scID cfg),
      soEvery = (if scInterval cfg \<le> 0 then 60 * second else scInterval cfg),
      soOverlap = OverlapSkip, soPaused = scPaused cfg,
      soWorkflowID = ''enrichment-sweep-wf'',
      soArgs = \<lparr>siVersion = (if scVersion cfg = 0 then dv else scVersion cfg), siBatchSize = 0, siFanOut = 0\<rparr>,
      soTaskQueue = (if scTaskQueue cfg = [] then TaskQueue else scTaskQueue cfg)\<rparr>"

definition EnsureSchedule ::
  "int16 \<Rightarrow> (ScheduleOptions \<Rightarrow> 'w \<Rightarrow> schedule_error option \<times> 'w) \<Rightarrow> ScheduleConfig \<Rightarrow> 'w \<Rightarrow> schedule_error option \<times> 'w"
  where
  "EnsureSchedule dv create cfg w =
     (case create (schedule_options dv cfg) w of
        (None, w') \<Rightarrow> (None, w')
      | (Some err, w') \<Rightarrow>
          (case err of
             ErrScheduleAlreadyRunning \<Rightarrow> (None, w')
           | ServiceAlreadyExists \<Rightarrow> (None, w')
           | OtherScheduleError ge \<Rightarrow> if status_code ge = 6 then (None, w') else (Some err, w')))"

definition TriggerScheduleNow ::
  "(string \<Rightarrow> overlap \<Rightarrow> 'w \<Rightarrow> (go_error, unit) result \<times> 'w) \<Rightarrow> string \<Rightarrow> 'w \<Rightarrow> (go_error, unit) result \<times> 'w" where
  "TriggerScheduleNow trigger scheduleID w = trigger scheduleID OverlapSkip w"

definition TriggerNow ::
  "(string \<Rightarrow> overlap \<Rightarrow> 'w \<Rightarrow> (go_error, unit) result \<times> 'w) \<Rightarrow> 'w \<Rightarrow> (go_error, unit) result \<times> 'w" where
  "TriggerNow trigger w = TriggerScheduleNow trigger ScheduleID w"

record WorkerConfig =
  wcTaskQueue :: string
  wcMaxConcurrentActivities :: int
  wcTaskQueueActivitiesPerSecond :: f64

record WorkerOptions =
  woTaskQueue :: string
  MaxConcurrentActivityExecutionSize :: int
  TaskQueueActivitiesPerSecond :: f64
  WorkerActivitiesPerSecond :: f64

definition NewWorker :: "WorkerConfig \<Rightarrow> WorkerOptions" where
  "NewWorker cfg =
     \<lparr>woTaskQueue = (if wcTaskQueue cfg = [] then TaskQueue else wcTaskQueue cfg),
      MaxConcurrentActivityExecutionSize =
        (if wcMaxConcurrentActivities cfg \<le> 0 then 64 else wcMaxConcurrentActivities cfg),
      TaskQueueActivitiesPerSecond =
        (if f64_le (wcTaskQueueActivitiesPerSecond cfg) (Num 0) then Num 600
         else wcTaskQueueActivitiesPerSecond cfg),
      WorkerActivitiesPerSecond = Num 0\<rparr>"

section \<open>Executing the workflow over the Postgres store\<close>

text \<open>An execution of the SDK's side: the goroutines of a batch run in any order, and a failed
  activity is retried under the policy, with the last heartbeat as its details and the backoff of the
  policy between the attempts. The order is the choice of \<open>sch\<close>, a number for every step of every run of a batch (named by the state it
  starts in, its input and its attempt), which picks one of the enabled actions. \<open>emb\<close> is the embedder, whose answer
  to a text may be another one at every step, and \<open>took\<close> is the time an attempt at a batch takes.\<close>

type_synonym 'd scheduler = "'d \<Rightarrow> BatchInput \<Rightarrow> int \<Rightarrow> nat \<Rightarrow> nat"
type_synonym 'd durations = "'d \<Rightarrow> BatchInput \<Rightarrow> int \<Rightarrow> duration"
type_synonym 'd answers = "'d \<Rightarrow> BatchInput \<Rightarrow> int \<Rightarrow> nat \<Rightarrow> string \<Rightarrow> (go_error, f32 list) result"

definition act_of :: "(string \<Rightarrow> (go_error, f32 list) result) \<Rightarrow> MemoryText list \<Rightarrow> nat \<times> phase \<Rightarrow> act option" where
  "act_of emb items ip =
     (case snd ip of
        Queued \<Rightarrow> None
      | Running \<Rightarrow> Some (EmbedReturns (fst ip) (emb (mtText (items ! fst ip))))
      | Embedded r \<Rightarrow> Some (Inserts (fst ip))
      | Inserted t \<Rightarrow> Some (Marks (fst ip))
      | Marked w \<Rightarrow> Some (Beats (fst ip))
      | Exited \<Rightarrow> None)"

definition enabled_acts :: "(string \<Rightarrow> (go_error, f32 list) result) \<Rightarrow> batch_env \<Rightarrow> phase list \<Rightarrow> act list" where
  "enabled_acts emb env ps =
     (if Queued \<in> set ps \<and> count_by active ps < eLimit env then [Launch] else []) @
     List.map_filter (act_of emb (eItems env)) (enumerate 0 ps)"

fun drive ::
  "nat \<Rightarrow> (nat \<Rightarrow> nat) \<Rightarrow> 'd enrich_store \<Rightarrow> batch_env \<Rightarrow> (nat \<Rightarrow> string \<Rightarrow> (go_error, f32 list) result) \<Rightarrow> 'd batch \<Rightarrow> act list" where
  "drive 0 sch st env emb b = []"
| "drive (Suc n) sch st env emb b =
     (let as = enabled_acts (emb n) env (bPhase b); a = as ! (sch n mod length as) in
      if as = [] then []
      else case batch_step st env a b of None \<Rightarrow> [] | Some b' \<Rightarrow> a # drive n sch st env emb b')"

definition batch_schedule ::
  "'d scheduler \<Rightarrow> int16 \<Rightarrow> 'd Activities \<Rightarrow> (go_error \<Rightarrow> string) \<Rightarrow> 'd answers \<Rightarrow> heartbeat \<Rightarrow> int \<Rightarrow> BatchInput \<Rightarrow> 'd \<Rightarrow> act list"
  where
  "batch_schedule sch dv a render emb hb attempt inp d =
     (let n = length (biIDs inp); startIdx = resume_index hb n in
      if startIdx \<ge> n then []
      else case aSource a (drop startIdx (biIDs inp)) d of
        Inl e \<Rightarrow> []
      | Inr items \<Rightarrow>
          drive (5 * length items) (sch d inp attempt) (aStore a) (batch_env_of dv a render attempt startIdx inp items)
            (emb d inp attempt) (start_batch n startIdx (length items) d))"

definition pg_sleep :: "duration \<Rightarrow> pg_state \<Rightarrow> pg_state" where
  "pg_sleep t s = s\<lparr>ps_now := ps_now s + (max 0 t + 999) div 1000\<rparr>"

definition retry_pause :: "RetryPolicy \<Rightarrow> nat \<Rightarrow> duration" where
  "retry_pause p k = min (InitialInterval p * BackoffCoefficient p ^ k) (MaximumInterval p)"

fun execute_batch ::
  "nat \<Rightarrow> nat \<Rightarrow> RetryPolicy \<Rightarrow> pg_state scheduler \<Rightarrow> pg_state durations \<Rightarrow> int16 \<Rightarrow> pg_state Activities \<Rightarrow> (go_error \<Rightarrow> string) \<Rightarrow>
     pg_state answers \<Rightarrow> heartbeat \<Rightarrow> BatchInput \<Rightarrow> pg_state \<Rightarrow> (go_error, BatchResult) result \<times> pg_state"
  where
  "execute_batch 0 k p sch took dv a render emb hb inp s = (Inl (Errorf ''attempts exhausted'' []), s)"
| "execute_batch (Suc n) k p sch took dv a render emb hb inp s =
     (case ProcessBatch dv a render hb (int k + 1) (batch_schedule sch dv a render emb hb (int k + 1) inp s) inp s of
        Some (Returned res None, beats, s') \<Rightarrow> (Inr res, pg_sleep (took s inp (int k + 1)) s')
      | Some (e, beats, s') \<Rightarrow>
          if n = 0
          then (Inl (case e of Returned res (Some er) \<Rightarrow> er | _ \<Rightarrow> Errorf ''panic'' []), pg_sleep (took s inp (int k + 1)) s')
          else execute_batch n (k + 1) p sch took dv a render emb
                 (if beats = [] then hb else Details (int (last beats))) inp
                 (pg_sleep (retry_pause p k) (pg_sleep (took s inp (int k + 1)) s'))
      | None \<Rightarrow> (Inl (Errorf ''no run'' []), s))"

fun execute_batches ::
  "RetryPolicy \<Rightarrow> pg_state scheduler \<Rightarrow> pg_state durations \<Rightarrow> int16 \<Rightarrow> pg_state Activities \<Rightarrow> (go_error \<Rightarrow> string) \<Rightarrow> pg_state answers \<Rightarrow>
     BatchInput list \<Rightarrow> pg_state \<Rightarrow> (go_error, BatchResult) result list \<times> pg_state"
  where
  "execute_batches p sch took dv a render emb [] s = ([], s)"
| "execute_batches p sch took dv a render emb (b # bs) s =
     (let (r, s1) = execute_batch (MaximumAttempts p) 0 p sch took dv a render emb NoDetails b s;
          (rs, s2) = execute_batches p sch took dv a render emb bs s1
      in (r # rs, s2))"

text \<open>An activity without heartbeats, retried under the same policy: the attempts of \<^verbatim>\<open>CountBacklog\<close> and
  \<^verbatim>\<open>PlanRanges\<close>.\<close>

fun execute_retried ::
  "nat \<Rightarrow> nat \<Rightarrow> RetryPolicy \<Rightarrow> (pg_state \<Rightarrow> (go_error, 'r) result \<times> pg_state) \<Rightarrow> pg_state \<Rightarrow> (go_error, 'r) result \<times> pg_state"
  where
  "execute_retried 0 k p f s = (Inl (Errorf ''attempts exhausted'' []), s)"
| "execute_retried (Suc n) k p f s =
     (case f s of
        (Inr r, s') \<Rightarrow> (Inr r, s')
      | (Inl e, s') \<Rightarrow> if n = 0 then (Inl e, s') else execute_retried n (k + 1) p f (pg_sleep (retry_pause p k) s'))"

definition execute_activity ::
  "ActivityOptions \<Rightarrow> (pg_state \<Rightarrow> (go_error, 'r) result \<times> pg_state) \<Rightarrow> pg_state \<Rightarrow> (go_error, 'r) result \<times> pg_state" where
  "execute_activity opt = execute_retried (MaximumAttempts (ao_RetryPolicy opt)) 0 (ao_RetryPolicy opt)"

definition pg_workflow ::
  "pg_state scheduler \<Rightarrow> pg_state durations \<Rightarrow> int16 \<Rightarrow> pg_state Activities \<Rightarrow> (go_error \<Rightarrow> string) \<Rightarrow> pg_state answers \<Rightarrow> pg_state workflow_env"
  where
  "pg_workflow sch took dv a render emb =
     \<lparr>wfNow = (\<lambda>s. 1000 * ps_now s),
      wfCount = (\<lambda>opt v. execute_activity opt (CountBacklog dv a v)),
      wfPlan = (\<lambda>opt v b f. execute_activity opt (PlanRanges dv a v b f)),
      wfBatches = (\<lambda>opt bs. execute_batches (ao_RetryPolicy opt) sch took dv a render emb bs),
      wfSleep = (\<lambda>t s. (Inr (), pg_sleep t s))\<rparr>"

section \<open>Retries\<close>

lemma execute_retried_Inr: "execute_retried n k p f s = (Inr r, s') \<Longrightarrow> \<exists>s0. f s0 = (Inr r, s')"
  by (induction n arbitrary: k s) (auto split: prod.splits sum.splits if_splits)

lemma execute_activity_Inr: "execute_activity opt f s = (Inr r, s') \<Longrightarrow> \<exists>s0. f s0 = (Inr r, s')"
  unfolding execute_activity_def by (rule execute_retried_Inr)

lemma first_attempt: "f s = (Inr r, s') \<Longrightarrow> execute_activity sweepActivityOptions f s = (Inr r, s')"
  by (simp add: execute_activity_def sweepActivityOptions_def numeral_eq_Suc)

section \<open>The scheduler\<close>

lemma set_enabled:
  "a \<in> set (enabled_acts emb env ps) \<longleftrightarrow>
     a = Launch \<and> Queued \<in> set ps \<and> count_by active ps < eLimit env \<or>
     (\<exists>i<length ps. act_of emb (eItems env) (i, ps ! i) = Some a)"
proof -
  have "a \<in> set (List.map_filter f xs) \<longleftrightarrow> (\<exists>x\<in>set xs. f x = Some a)" for f :: "nat \<times> phase \<Rightarrow> act option" and xs
    by (force simp: map_filter_def)
  moreover have "(\<exists>x\<in>set (enumerate 0 ps). act_of emb (eItems env) x = Some a) \<longleftrightarrow>
      (\<exists>i<length ps. act_of emb (eItems env) (i, ps ! i) = Some a)"
    by (auto simp: in_set_enumerate_eq)
  ultimately show ?thesis by (simp add: enabled_acts_def)
qed

lemma act_of_SomeD:
  assumes "act_of emb items (i, p) = Some a"
  shows "p = Running \<and> a = EmbedReturns i (emb (mtText (items ! i))) \<or> (\<exists>r. p = Embedded r \<and> a = Inserts i) \<or>
    (\<exists>t. p = Inserted t \<and> a = Marks i) \<or> (\<exists>w. p = Marked w \<and> a = Beats i)"
  using assms by (auto simp: act_of_def split: phase.splits)

lemma enabled_steps:
  assumes "a \<in> set (enabled_acts emb env (bPhase b))" and "\<not> bPanic b"
  shows "\<exists>b'. batch_step st env a b = Some b'"
proof (cases "a = Launch")
  case True
  then have "Queued \<in> set (bPhase b)" "count_by active (bPhase b) < eLimit env"
    using assms(1) by (auto simp: set_enabled dest!: act_of_SomeD)
  then show ?thesis using True assms(2) first_queued_None [of "bPhase b"] by (auto simp: batch_step_def)
next
  case False
  then obtain i where "i < length (bPhase b)" "act_of emb (eItems env) (i, bPhase b ! i) = Some a"
    using assms(1) by (auto simp: set_enabled)
  then show ?thesis using assms(2) by (auto simp: batch_step_def phase_of_def dest!: act_of_SomeD)
qed

lemma enabled_none:
  assumes "enabled_acts emb env ps = []" and "0 < eLimit env"
  shows "list_all (\<lambda>p. p = Exited) ps"
proof -
  have none: "act_of emb (eItems env) (i, ps ! i) = None" if "i < length ps" for i
    using assms(1) set_enabled [of _ emb env ps] that by (cases "act_of emb (eItems env) (i, ps ! i)") auto
  have idle: "p = Queued \<or> p = Exited" if p: "p \<in> set ps" for p
  proof -
    obtain i where "i < length ps" "p = ps ! i" using p by (auto simp: in_set_conv_nth)
    then have "act_of emb (eItems env) (i, p) = None" using none by simp
    then show ?thesis by (cases p) (simp_all add: act_of_def)
  qed
  then have "\<not> active p" if "p \<in> set ps" for p using that by (auto simp: active_def)
  then have "count_by active ps = 0" using count_by_pos [of active ps] by auto
  then have "Queued \<notin> set ps" using assms by (auto simp: enabled_acts_def split: if_splits)
  then show ?thesis using idle by (auto simp: list_all_iff)
qed

text \<open>Whatever it chooses, the driver brings a batch to its end, and what every enabled action keeps holds then.\<close>

lemma drive_inv:
  assumes env: "env_ok env ids" "0 < eLimit env"
    and I: "\<And>b a b' k. I b \<Longrightarrow> batch_ok env ids b \<Longrightarrow> a \<in> set (enabled_acts (emb k) env (bPhase b)) \<Longrightarrow>
      batch_step st env a b = Some b' \<Longrightarrow> I b'"
  shows "I b \<Longrightarrow> batch_ok env ids b \<Longrightarrow> (\<Sum>p\<leftarrow>bPhase b. weight p) \<le> n \<Longrightarrow>
     \<exists>b'. run_acts st env (drive n sch st env emb b) b = Some b' \<and> list_all (\<lambda>p. p = Exited) (bPhase b') \<and>
       I b' \<and> batch_ok env ids b'"
proof (induction n arbitrary: b)
  case 0
  have "p = Exited" if "p \<in> set (bPhase b)" for p using 0(3) that by (cases p) (auto simp: sum_list_eq_0_iff)
  then show ?case using 0 by (simp add: list_all_iff)
next
  case (Suc n)
  let ?as = "enabled_acts (emb n) env (bPhase b)"
  show ?case
  proof (cases "?as = []")
    case True
    then show ?thesis using enabled_none [OF True env(2)] Suc.prems by simp
  next
    case False
    let ?a = "?as ! (sch n mod length ?as)"
    have a: "?a \<in> set ?as" using False by simp
    have "\<not> bPanic b" using Suc.prems(2) by (simp add: batch_ok_def)
    then obtain b1 where b1: "batch_step st env ?a b = Some b1" using enabled_steps [OF a] by blast
    have ok1: "batch_ok env ids b1" by (rule batch_step_ok [OF env(1) Suc.prems(2) b1])
    then have "(\<Sum>p\<leftarrow>bPhase b1. weight p) \<le> n" using batch_step_weight [OF b1] Suc.prems(3) by (simp add: batch_ok_def)
    then show ?thesis using Suc.IH [OF I [OF Suc.prems(1,2) a b1] ok1] b1 False by (simp add: Let_def)
  qed
qed

lemma start_batch_ok:
  "eStart env \<le> length ids \<Longrightarrow> batch_ok env ids (start_batch (length ids) (eStart env) (length (eItems env)) d)"
  by (auto simp: batch_ok_def start_batch_def prog_ok_def beats_behind_def nth_append)

text \<open>So a scheduled batch is a complete run, for every store and every answer.\<close>

lemma scheduled_batch_runs:
  assumes "source_ok a"
  shows "\<exists>r. ProcessBatch dv a render hb k (batch_schedule sch dv a render emb hb k inp d) inp d = Some r"
proof -
  let ?n = "length (biIDs inp)" and ?i = "resume_index hb (length (biIDs inp))"
  show ?thesis
  proof (cases "?i \<ge> ?n")
    case False
    show ?thesis
    proof (cases "aSource a (drop ?i (biIDs inp)) d")
      case (Inr items)
      let ?env = "batch_env_of dv a render k ?i inp items"
      have env: "env_ok ?env (biIDs inp)" by (rule env_of_ok [OF assms Inr resume_index_le])
      have f: "eStart ?env = ?i" "eItems ?env = items" by (simp_all add: batch_env_of_def)
      have "batch_ok ?env (biIDs inp) (start_batch ?n ?i (length items) d)"
        using start_batch_ok [of ?env "biIDs inp" d] resume_index_le [of hb ?n] by (simp add: f)
      moreover have "(\<Sum>p\<leftarrow>bPhase (start_batch ?n ?i (length items) d). weight p) \<le> 5 * length items"
        by (simp add: start_batch_def sum_list_replicate)
      ultimately obtain b where "run_acts (aStore a) ?env
          (drive (5 * length items) (sch d inp k) (aStore a) ?env (emb d inp k) (start_batch ?n ?i (length items) d))
          (start_batch ?n ?i (length items) d) = Some b" "list_all (\<lambda>p. p = Exited) (bPhase b)"
        using drive_inv [OF env env_of_limit, of "\<lambda>_. True"] by blast
      then show ?thesis using False Inr by (simp add: ProcessBatch_def batch_schedule_def Let_def batch_over_def)
    qed (simp add: ProcessBatch_def batch_schedule_def Let_def)
  qed (simp add: ProcessBatch_def batch_schedule_def Let_def)
qed

text \<open>And every complete run of the goroutines, with any answers, is the choice of some scheduler.\<close>

lemma drive_cong:
  "\<forall>k<n. sch k = sch' k \<and> emb k = emb' k \<Longrightarrow> drive n sch st env emb b = drive n sch' st env emb' b"
proof (induction n arbitrary: b)
  case (Suc n)
  have "drive n sch st env emb = drive n sch' st env emb'" by (rule ext, rule Suc.IH) (use Suc.prems in simp)
  moreover have "sch n = sch' n" "emb n = emb' n" using Suc.prems by simp_all
  ultimately show ?case by (simp add: Let_def split: option.split)
qed simp

lemma step_enabled:
  assumes "batch_step st env a b = Some b'"
  shows "\<exists>emb. a \<in> set (enabled_acts emb env (bPhase b))"
proof (cases a)
  case Launch
  then show ?thesis
    using assms first_queued_None [of "bPhase b"] by (auto simp: batch_step_def set_enabled split: if_splits option.splits)
next
  case (EmbedReturns i r)
  then have "i < length (bPhase b)" "act_of (\<lambda>_. r) (eItems env) (i, bPhase b ! i) = Some a"
    using assms by (auto simp: batch_step_def act_of_def phase_of_def split: if_splits)
  then show ?thesis by (auto simp: set_enabled)
next
  case (Inserts i)
  then have "i < length (bPhase b)" "act_of emb (eItems env) (i, bPhase b ! i) = Some a" for emb
    using assms by (auto simp: batch_step_def act_of_def phase_of_def split: if_splits option.splits phase.splits)
  then show ?thesis by (auto simp: set_enabled)
next
  case (Marks i)
  then have "i < length (bPhase b)" "act_of emb (eItems env) (i, bPhase b ! i) = Some a" for emb
    using assms by (auto simp: batch_step_def act_of_def phase_of_def split: if_splits option.splits phase.splits)
  then show ?thesis by (auto simp: set_enabled)
next
  case (Beats i)
  then have "i < length (bPhase b)" "act_of emb (eItems env) (i, bPhase b ! i) = Some a" for emb
    using assms by (auto simp: batch_step_def act_of_def phase_of_def split: if_splits option.splits phase.splits)
  then show ?thesis by (auto simp: set_enabled)
qed

lemma every_run_scheduled:
  assumes "run_acts st env as b = Some b'" and "list_all (\<lambda>p. p = Exited) (bPhase b')" and "length as \<le> n"
  shows "\<exists>sch emb. drive n sch st env emb b = as"
  using assms
proof (induction as arbitrary: b n)
  case Nil
  have "Queued \<notin> set (bPhase b)" "\<forall>i<length (bPhase b). bPhase b ! i = Exited"
    using Nil by (auto simp: list_all_iff)
  then have "a \<notin> set (enabled_acts emb env (bPhase b))" for emb a by (auto simp: set_enabled act_of_def)
  then have "enabled_acts emb env (bPhase b) = []" for emb by (metis last_in_set)
  then show ?case by (cases n) simp_all
next
  case (Cons a as)
  obtain b1 where b1: "batch_step st env a b = Some b1" "run_acts st env as b1 = Some b'"
    using Cons.prems(1) by (auto split: option.splits)
  obtain m where m: "n = Suc m" "length as \<le> m" using Cons.prems(3) by (cases n) auto
  obtain sch emb where s: "drive m sch st env emb b1 = as" using Cons.IH [OF b1(2) Cons.prems(2) m(2)] by blast
  obtain e where e: "a \<in> set (enabled_acts e env (bPhase b))" using step_enabled [OF b1(1)] by blast
  then obtain j where j: "j < length (enabled_acts e env (bPhase b))" "enabled_acts e env (bPhase b) ! j = a"
    by (auto simp: in_set_conv_nth)
  have "drive m (sch(m := j)) st env (emb(m := e)) b1 = as"
    using s drive_cong [of m "sch(m := j)" sch "emb(m := e)" emb st env b1] by simp
  then have "drive n (sch(m := j)) st env (emb(m := e)) b = a # as"
    using j b1(1) e m(1) by (auto simp: Let_def)
  then show ?case by blast
qed

section \<open>What a run of the sweep rests on\<close>

text \<open>A preorder on the states of the world that every call of the workflow respects is respected by
  the whole run.\<close>

locale workflow_order =
  fixes e :: "'w workflow_env" and R :: "'w \<Rightarrow> 'w \<Rightarrow> bool"
  assumes order_refl: "R w w"
    and order_trans: "R w w' \<Longrightarrow> R w' w'' \<Longrightarrow> R w w''"
    and count_order: "R w (snd (wfCount e opt v w))"
    and plan_order: "R w (snd (wfPlan e opt v b f w))"
    and batches_order: "R w (snd (wfBatches e opt bs w))"
    and sleep_order: "R w (snd (wfSleep e t w))"
begin

lemma wave_order:
  assumes "wfCount e o1 v w = (c, w1)" and "wfPlan e o2 v b f w1 = (p, w2)"
  shows "R w w1" and "R w w2" and "R w (snd (wfBatches e o3 bs w2))"
    and "wfSleep e t (snd (wfBatches e o3 bs w2)) = (u, w4) \<Longrightarrow> R w w4"
proof -
  show 1: "R w w1" using count_order [of w o1 v] assms(1) by simp
  show 2: "R w w2" using plan_order [of w1 o2 v b f] assms(2) by (intro order_trans [OF 1]) simp
  show 3: "R w (snd (wfBatches e o3 bs w2))" by (rule order_trans [OF 2 batches_order])
  show "R w w4" if "wfSleep e t (snd (wfBatches e o3 bs w2)) = (u, w4)"
    using that sleep_order [of "snd (wfBatches e o3 bs w2)" t] by (intro order_trans [OF 3]) simp
qed

lemma sweep_loop_order: "sweep_loop n e v b f deadline w = Some r \<Longrightarrow> R w (snd r)"
proof (induction n arbitrary: w)
  case (Suc n)
  obtain c w1 where c: "wfCount e sweepActivityOptions v w = (c, w1)" by force
  obtain p w2 where p: "wfPlan e sweepActivityOptions v b f w1 = (p, w2)" by force
  have "R w (snd r)" if "wfSleep e interWavePause (snd (wfBatches e sweepActivityOptions bs w2)) = (u, w4)"
      and "sweep_loop n e v b f deadline w4 = Some r" for bs u w4
    using order_trans [OF wave_order(4) [OF c p that(1)] Suc.IH [OF that(2)]] .
  moreover have "R w w4" if "wfSleep e interWavePause (snd (wfBatches e sweepActivityOptions bs w2)) = (u, w4)"
    for bs u w4
    using wave_order(4) [OF c p that] .
  ultimately show ?case
    using Suc.prems order_refl [of w] wave_order(1,2) [OF c p]
    by (simp add: c p split: if_splits prod.splits sum.splits) auto
qed simp

end

text \<open>The clock: it never runs backwards, and a sleep takes its time. The soft deadline then bounds the
  run.\<close>

locale workflow_clock = workflow_order e "\<lambda>w w'. wfNow e w \<le> wfNow e w'"
  for e :: "'w workflow_env" +
  assumes sleep_time: "fst (wfSleep e t w) = Inr u \<Longrightarrow> wfNow e w + t \<le> wfNow e (snd (wfSleep e t w))"
begin

lemma sweep_loop_ends:
  "deadline \<le> wfNow e w + int k * interWavePause \<Longrightarrow> \<exists>r. sweep_loop (Suc k) e v b f deadline w = Some r"
proof (induction k arbitrary: w)
  case 0
  then show ?case by simp
next
  case (Suc k)
  obtain c w1 where c: "wfCount e sweepActivityOptions v w = (c, w1)" by force
  obtain p w2 where p: "wfPlan e sweepActivityOptions v b f w1 = (p, w2)" by force
  have IH: "\<exists>r. sweep_loop (Suc k) e v b f deadline w4 = Some r"
    if "wfSleep e interWavePause (snd (wfBatches e sweepActivityOptions bs w2)) = (Inr u, w4)" for bs u w4
  proof (rule Suc.IH)
    show "deadline \<le> wfNow e w4 + int k * interWavePause"
      using Suc.prems wave_order(3) [OF c p, of sweepActivityOptions bs] that
        sleep_time [of interWavePause "snd (wfBatches e sweepActivityOptions bs w2)" u]
      by (simp add: algebra_simps)
  qed
  then show ?case
    unfolding sweep_loop.simps(2) [of "Suc k"] c p
    by (auto simp: p simp del: sweep_loop.simps split: sum.splits prod.splits)
qed

end

section \<open>The Postgres world only moves forward\<close>

text \<open>Time does not run backwards, the ledger only grows, and it keeps its invariant.\<close>

definition pg_extends :: "pg_state \<Rightarrow> pg_state \<Rightarrow> bool" where
  "pg_extends d d' \<longleftrightarrow> ps_now d \<le> ps_now d' \<and> appended (ps_db d) (ps_db d') \<and>
     (ledger_ok (ps_db d) \<longrightarrow> ledger_ok (ps_db d'))"

lemma pg_extends_refl [simp, intro]: "pg_extends d d"
  by (simp add: pg_extends_def)

lemma pg_extends_trans: "pg_extends d d' \<Longrightarrow> pg_extends d' d'' \<Longrightarrow> pg_extends d d''"
  using appended_trans by (auto simp: pg_extends_def)

lemma pg_read_extends: "pg_extends s (snd (pg_statement (\<lambda>now db. (f now db, db)) s))"
  using pg_statement_cases [of "\<lambda>now db. (f now db, db)" s]
  by (cases "pg_statement (\<lambda>now db. (f now db, db)) s") (auto simp: pg_extends_def)

lemma pg_insert_extends:
  "PGStore_InsertDone e s = (r, s') \<Longrightarrow> pg_extends s s'" "PGStore_InsertFailed f s = (r, s') \<Longrightarrow> pg_extends s s'"
  using pg_insert_done [of e s r s'] pg_insert_failed [of f s r s']
    pg_statement_cases [of "\<lambda>now. InsertEnrichmentDone now e" s r s']
    pg_statement_cases [of "\<lambda>now. InsertEnrichmentFailed now f" s r s']
  by (auto simp: pg_extends_def PGStore_InsertDone_def PGStore_InsertFailed_def)

lemma CountBacklog_snd: "snd (CountBacklog dv a v d) = snd (stCountPending (aStore a) (act_version dv a v) d)"
  by (auto simp: CountBacklog_def split: prod.splits sum.splits)

lemma PlanRanges_snd:
  "\<exists>n. snd (PlanRanges dv a v b f d) = snd (stPendingIDs (aStore a) (act_version dv a v) n d)"
  by (auto simp: PlanRanges_def Let_def split: prod.splits sum.splits) (metis snd_conv)+

lemma insert_extends: "pg_extends (bStore b) (bStore (insert_outcome (pg_store s) env i r b))"
proof (cases r)
  case (Inl err)
  obtain ir d' where x: "PGStore_InsertFailed (failed_event env (eItems env ! i) err) (bStore b) = (ir, d')" by force
  from pg_insert_extends(2) [OF x] show ?thesis
    using Inl x by (cases ir) (auto simp: insert_outcome_def Let_def pg_store_def)
next
  case (Inr vec)
  obtain ir d' where x: "PGStore_InsertDone (done_event env (eItems env ! i) vec) (bStore b) = (ir, d')" by force
  from pg_insert_extends(1) [OF x] show ?thesis
    using Inr x by (cases ir) (auto simp: insert_outcome_def Let_def pg_store_def)
qed

lemma step_extends:
  assumes "batch_step (pg_store s) env a b = Some b'"
  shows "pg_extends (bStore b) (bStore b')"
proof -
  have "bStore b' = bStore b \<or> (\<exists>i r. b' = insert_outcome (pg_store s) env i r b)"
    using assms by (auto simp: batch_step_def mark_outcome_def
        split: if_splits option.splits act.splits phase.splits prod.splits)
  then show ?thesis using insert_extends by auto
qed

lemma run_extends: "run_acts (pg_store s) env as b = Some b' \<Longrightarrow> pg_extends (bStore b) (bStore b')"
  by (induction as arbitrary: b) (auto split: option.splits dest: step_extends intro: pg_extends_trans)

lemma ProcessBatch_extends:
  assumes "aStore a = pg_store s" and "ProcessBatch dv a render hb k acts inp d = Some (res, beats, d')"
  shows "pg_extends d d'"
  using assms run_extends [of s]
  by (fastforce simp: ProcessBatch_def Let_def start_batch_def split: if_splits sum.splits option.splits)

lemma pg_sleep_extends: "pg_extends s (pg_sleep t s)" and pg_sleep_now: "t \<le> 1000 * (ps_now (pg_sleep t s) - ps_now s)"
  by (auto simp: pg_sleep_def pg_extends_def)

lemma execute_batch_extends:
  "aStore a = pg_store s \<Longrightarrow> pg_extends d (snd (execute_batch n k p sch took dv a render emb hb inp d))"
proof (induction n arbitrary: k hb d)
  case (Suc n)
  let ?r = "ProcessBatch dv a render hb (int k + 1) (batch_schedule sch dv a render emb hb (int k + 1) inp d) inp d"
  show ?case
  proof (cases ?r)
    case (Some x)
    obtain e beats d' where x: "x = (e, beats, d')" by (cases x) auto
    have "pg_extends d d'" using ProcessBatch_extends [OF Suc.prems] Some x by blast
    then have d': "pg_extends d (pg_sleep t d')" for t using pg_sleep_extends pg_extends_trans by blast
    then have "pg_extends d (snd (execute_batch n k' p sch took dv a render emb hb' inp (pg_sleep t' (pg_sleep t d'))))" for k' hb' t t'
      using Suc.IH [OF Suc.prems, of "pg_sleep t' (pg_sleep t d')" k' hb'] pg_sleep_extends pg_extends_trans by blast
    then show ?thesis using Some x d' by (auto split: batch_end.splits option.splits)
  qed simp
qed simp

lemma execute_batches_extends:
  "aStore a = pg_store s \<Longrightarrow> pg_extends d (snd (execute_batches p sch took dv a render emb bs d))"
proof (induction bs arbitrary: d)
  case (Cons b bs)
  obtain r d1 where d1: "execute_batch (MaximumAttempts p) 0 p sch took dv a render emb NoDetails b d = (r, d1)" by force
  have "pg_extends d d1"
    using execute_batch_extends [OF Cons.prems, of d "MaximumAttempts p" 0 p sch took dv render emb NoDetails b] d1 by simp
  then show ?case using Cons.IH [OF Cons.prems, of d1] d1 by (auto split: prod.splits intro: pg_extends_trans)
qed simp

lemma execute_activity_extends:
  assumes "\<And>d. pg_extends d (snd (f d))"
  shows "pg_extends d (snd (execute_activity opt f d))"
proof -
  have "pg_extends d (snd (execute_retried n k p f d))" for n k p
  proof (induction n arbitrary: k d)
    case (Suc n)
    obtain q d1 where q: "f d = (q, d1)" by force
    then have d1: "pg_extends d d1" using assms [of d] by simp
    have "pg_extends d (snd (execute_retried n (k + 1) p f (pg_sleep t d1)))" for t
      using pg_extends_trans [OF pg_extends_trans [OF d1 pg_sleep_extends] Suc.IH] .
    then show ?case using q d1 by (cases q) auto
  qed simp
  then show ?thesis by (simp add: execute_activity_def)
qed

text \<open>So the workflow over the Postgres store keeps both laws, whatever the source and the embedder are.\<close>

lemma pg_workflow_order:
  assumes store: "aStore a = pg_store s"
  shows "workflow_order (pg_workflow sch took dv a render emb) pg_extends"
proof
  let ?e = "pg_workflow sch took dv a render emb"
  show "pg_extends w w" for w by simp
  show "pg_extends w w''" if "pg_extends w w'" "pg_extends w' w''" for w w' w''
    using that by (rule pg_extends_trans)
  show "pg_extends w (snd (wfCount ?e opt v w))" for w opt v
    using store by (auto simp: pg_workflow_def CountBacklog_snd pg_store_def PGStore_CountPending_def
        intro!: execute_activity_extends pg_read_extends)
  have "pg_extends d (snd (PlanRanges dv a v b f d))" for d v b f
    using store PlanRanges_snd [of dv a v b f d] by (auto simp: pg_store_def PGStore_PendingIDs_def pg_read_extends)
  then show "pg_extends w (snd (wfPlan ?e opt v b f w))" for w opt v b f
    by (simp add: pg_workflow_def execute_activity_extends)
  show "pg_extends w (snd (wfBatches ?e opt bs w))" for w opt bs
    using execute_batches_extends [OF store] by (simp add: pg_workflow_def)
  show "pg_extends w (snd (wfSleep ?e t w))" for w t
    by (simp add: pg_workflow_def pg_sleep_extends)
qed

lemma pg_workflow_clock:
  assumes store: "aStore a = pg_store s"
  shows "workflow_clock (pg_workflow sch took dv a render emb)"
proof -
  let ?e = "pg_workflow sch took dv a render emb"
  have now: "pg_extends w w' \<Longrightarrow> wfNow ?e w \<le> wfNow ?e w'" for w w' by (simp add: pg_extends_def pg_workflow_def)
  note world = pg_workflow_order [OF store, of sch took dv render emb]
  show ?thesis
  proof
    show "wfNow ?e w \<le> wfNow ?e (snd (wfCount ?e opt v w))" for w opt v
      by (rule now [OF workflow_order.count_order [OF world]])
    show "wfNow ?e w \<le> wfNow ?e (snd (wfPlan ?e opt v b f w))" for w opt v b f
      by (rule now [OF workflow_order.plan_order [OF world]])
    show "wfNow ?e w \<le> wfNow ?e (snd (wfBatches ?e opt bs w))" for w opt bs
      by (rule now [OF workflow_order.batches_order [OF world]])
    show "wfNow ?e w \<le> wfNow ?e (snd (wfSleep ?e t w))" for w t
      by (rule now [OF workflow_order.sleep_order [OF world]])
    show "wfNow ?e w + t \<le> wfNow ?e (snd (wfSleep ?e t w))" if "fst (wfSleep ?e t w) = Inr u" for w t u
      using pg_sleep_now [where s = w and t = t] by (simp add: pg_workflow_def)
  qed simp_all
qed

interpretation pg_world: workflow_order "pg_workflow sch took dv (a\<lparr>aStore := pg_store s\<rparr>) render emb" pg_extends
  for sch took dv a s render emb
  by (rule pg_workflow_order [of _ s]) simp

interpretation pg_clock: workflow_clock "pg_workflow sch took dv (a\<lparr>aStore := pg_store s\<rparr>) render emb"
  for sch took dv a s render emb
  by (rule pg_workflow_clock [of _ s]) simp

section \<open>Properties\<close>

definition sweep_facts :: "'w workflow_env \<Rightarrow> int16 \<Rightarrow> int \<Rightarrow> sweep_end \<times> 'w \<Rightarrow> bool" where
  "sweep_facts e v deadline r \<longleftrightarrow>
     (fst r = Drained \<longrightarrow> (\<exists>w. wfCount e sweepActivityOptions v w = (Inr 0, snd r))) \<and>
     (fst r = DeadlineHit \<longrightarrow> deadline \<le> wfNow e (snd r))"

lemma sweep_loop_facts: "sweep_loop n e v b f deadline w = Some r \<Longrightarrow> sweep_facts e v deadline r"
proof (induction n arbitrary: w)
  case (Suc n)
  then show ?case
    by (auto simp: sweep_facts_def split: if_splits prod.splits sum.splits)
qed simp

lemma CountBacklog_zero:
  assumes "aStore a = pg_store s" and "CountBacklog dv a v d = (Inr 0, d')"
  shows "pending_set (ps_now d') (act_version dv a v) (MaxAttempts s) (BackoffBase s) (ps_db d') = []"
proof -
  have "PGStore_CountPending s (act_version dv a v) d = (Inr 0, d')"
    using assms by (auto simp: CountBacklog_def pg_store_def split: prod.splits sum.splits)
  then show ?thesis
    using pg_statement_cases [of _ d "Inr 0" d'] by (fastforce simp: PGStore_CountPending_def CountPending_def)
qed

lemma sweep_returns:
  assumes "aStore a = pg_store s"
  shows "\<exists>r d'. EnrichmentSweepWorkflow 51 dv (pg_workflow sch took dv a render emb) inp d = Some (r, d') \<and>
    (r = Drained \<longrightarrow>
      pending_set (ps_now d') (act_version dv a (if siVersion inp = 0 then dv else siVersion inp))
        (MaxAttempts s) (BackoffBase s) (ps_db d') = []) \<and>
    (r = DeadlineHit \<longrightarrow> ps_now d + 50000000 \<le> ps_now d')"
proof -
  let ?e = "pg_workflow sch took dv a render emb" and ?v = "if siVersion inp = 0 then dv else siVersion inp"
  let ?dl = "wfNow ?e d + SoftDeadline"
  have "?dl \<le> wfNow ?e d + int 50 * interWavePause" by (simp add: SoftDeadline_def interWavePause_def second_def)
  moreover have "51 = Suc 50" by simp
  moreover have "a\<lparr>aStore := pg_store s\<rparr> = a" using assms by (cases a) simp
  ultimately have "\<exists>r. EnrichmentSweepWorkflow 51 dv ?e inp d = Some r"
    unfolding EnrichmentSweepWorkflow_def by (metis pg_clock.sweep_loop_ends)
  then obtain r d' where r: "EnrichmentSweepWorkflow 51 dv ?e inp d = Some (r, d')" by auto
  then have "sweep_facts ?e ?v ?dl (r, d')"
    unfolding EnrichmentSweepWorkflow_def by (rule sweep_loop_facts)
  then show ?thesis
    using r CountBacklog_zero [OF assms, of dv ?v]
    by (auto simp: sweep_facts_def pg_workflow_def SoftDeadline_def second_def dest!: execute_activity_Inr)
qed

lemma sweep_extends:
  assumes "aStore a = pg_store s"
    and "EnrichmentSweepWorkflow n dv (pg_workflow sch took dv a render emb) inp d = Some (r, d')"
  shows "pg_extends d d'"
proof -
  have a: "a\<lparr>aStore := pg_store s\<rparr> = a" using assms(1) by (cases a) simp
  show ?thesis
    using assms(2) pg_world.sweep_loop_order [where a = a and s = s and dv = dv and render = render and emb = emb]
    unfolding EnrichmentSweepWorkflow_def a
    by fastforce
qed

text \<open>A sweep run always ends, after at most 50 waves, because each wave moves the clock by at least
  the pause between waves and the deadline is 50 pauses away, whatever the embedder, the source and
  the database do. If it ends because the backlog is drained, no memory was claimable then; if it
  ends on the deadline, fifty seconds have passed.\<close>

theorem sweep_ends:
  assumes "aStore a = pg_store s"
  shows "\<exists>r d'. EnrichmentSweepWorkflow 51 dv (pg_workflow sch took dv a render emb) inp d = Some (r, d') \<and>
    (r = Drained \<longrightarrow>
      pending_set (ps_now d') (act_version dv a (if siVersion inp = 0 then dv else siVersion inp))
        (MaxAttempts s) (BackoffBase s) (ps_db d') = []) \<and>
    (r = DeadlineHit \<longrightarrow> ps_now d + 50000000 \<le> ps_now d')"
  by (rule sweep_returns [OF assms])

theorem sweep_ends_witness:
  "\<exists>r d'. EnrichmentSweepWorkflow 51 1 (pg_workflow (\<lambda>_ _ _ n. n) (\<lambda>_ _ _. 0) 1 demo_activities (\<lambda>_. []) (\<lambda>_ _ _ _ _. Inr []))
     \<lparr>siVersion = 1, siBatchSize = 0, siFanOut = 0\<rparr> demo_state = Some (r, d')"
proof -
  have "aStore demo_activities = pg_store (NewPGStore\<lparr>MaxAttempts := 200\<rparr>)" by (simp add: demo_activities_def)
  then show ?thesis using sweep_ends by blast
qed

end
