(* ===== verification/Wiring.thy ===== *)
theory Wiring
  imports Bridge Mock Sweep
begin

text \<open>
  How the embedding services are put together: the retry and keepalive settings of the gRPC connection
  (\<^verbatim>\<open>internal/embed/grpc.go\<close>), the settings, the ping policy and the statistics of the bridge (\<^verbatim>\<open>main\<close> and \<^verbatim>\<open>logStats\<close> of
  \<^verbatim>\<open>tools/nomicbridge\<close>). gRPC itself, which interprets the settings, is not modelled.
\<close>

section \<open>The connection to the embedder\<close>

definition lines_of :: "string list \<Rightarrow> string" where
  "lines_of ls = join_with [CHR 0x0A] ls"

definition quoted :: "string \<Rightarrow> string" where
  "quoted s = [CHR 0x22] @ s @ [CHR 0x22]"

definition ServiceConfig :: string where
  "ServiceConfig = lines_of
     [''{'',
      ''  '' @ quoted ''methodConfig'' @ '': [{'',
      ''    '' @ quoted ''name'' @ '': [{'' @ quoted ''service'' @ '': '' @ quoted ''embed.v1.Embedder'' @ ''}],'',
      ''    '' @ quoted ''timeout'' @ '': '' @ quoted ''30s'' @ '','',
      ''    '' @ quoted ''retryPolicy'' @ '': {'',
      ''      '' @ quoted ''maxAttempts'' @ '': 5,'',
      ''      '' @ quoted ''initialBackoff'' @ '': '' @ quoted ''0.1s'' @ '','',
      ''      '' @ quoted ''maxBackoff'' @ '': '' @ quoted ''3s'' @ '','',
      ''      '' @ quoted ''backoffMultiplier'' @ '': 2.0,'',
      ''      '' @ quoted ''retryableStatusCodes'' @ '': ['' @ quoted ''UNAVAILABLE'' @ '','' @ quoted ''RESOURCE_EXHAUSTED'' @
         '','' @ quoted ''DEADLINE_EXCEEDED'' @ '']'',
      ''    }'',
      ''  }]'',
      ''}'']"

record ClientParameters =
  kaTime :: duration
  kaTimeout :: duration
  kaPermitWithoutStream :: bool

definition KeepaliveParams :: ClientParameters where
  "KeepaliveParams = \<lparr>kaTime = 30 * second, kaTimeout = 10 * second, kaPermitWithoutStream = True\<rparr>"

record DialOption =
  doServiceConfig :: string
  doKeepalive :: ClientParameters
  doMaxCallAttempts :: int

definition DialOptions :: DialOption where
  "DialOptions = \<lparr>doServiceConfig = ServiceConfig, doKeepalive = KeepaliveParams, doMaxCallAttempts = 5\<rparr>"

text \<open>\<open>grpcNewClient\<close> is gRPC's, which connects lazily.\<close>

definition Dial :: "(string \<Rightarrow> DialOption \<Rightarrow> 'c) \<Rightarrow> string \<Rightarrow> 'c" where
  "Dial grpcNewClient target = grpcNewClient target DialOptions"

section \<open>The bridge's settings\<close>

definition envStr :: "(string \<Rightarrow> string) \<Rightarrow> string \<Rightarrow> string \<Rightarrow> string" where
  "envStr Getenv k def = (if Getenv k \<noteq> [] then Getenv k else def)"

definition TrimRight :: "string \<Rightarrow> char \<Rightarrow> string" where
  "TrimRight s c = rev (dropWhile (\<lambda>x. x = c) (rev s))"

text \<open>What \<^verbatim>\<open>main\<close> builds: the HTTP client, the target, the queue and the ping policy of the listener.\<close>

definition upstreamTimeout :: duration where
  "upstreamTimeout = 30 * second"

record bridge_config =
  bcTimeout :: duration
  bcMaxIdleConns :: int
  bcMaxIdleConnsPerHost :: int
  bcIdleConnTimeout :: duration
  bcURL :: string
  bcModel :: string
  bcQueue :: nat
  bcMinTime :: duration
  bcPermitWithoutStream :: bool

definition bridge_main :: "(string \<Rightarrow> string) \<Rightarrow> bridge_config" where
  "bridge_main Getenv =
     (let baseURL = TrimRight (envStr Getenv ''OPENAI_BASE_URL'' ''http://model-runner.docker.internal/engines/v1'') (CHR ''/'');
          model = envStr Getenv ''EMBED_MODEL'' ''ai/nomic-embed-text-v1.5''
      in \<lparr>bcTimeout = upstreamTimeout, bcMaxIdleConns = 64, bcMaxIdleConnsPerHost = 64, bcIdleConnTimeout = 90 * second,
          bcURL = baseURL @ ''/embeddings'', bcModel = model, bcQueue = queueDepth, bcMinTime = 20 * second, bcPermitWithoutStream = True\<rparr>)"

text \<open>The client's pings keep to the policy of the bridge, as the comments of both require.\<close>

lemma keepalive_within_policy:
  "bcMinTime (bridge_main Getenv) \<le> kaTime KeepaliveParams \<and>
   (kaPermitWithoutStream KeepaliveParams \<longrightarrow> bcPermitWithoutStream (bridge_main Getenv))"
  by (simp add: bridge_main_def KeepaliveParams_def second_def Let_def)

lemma TrimRight_last: "TrimRight s c \<noteq> [] \<Longrightarrow> last (TrimRight s c) \<noteq> c"
  using hd_dropWhile [of "\<lambda>x. x = c" "rev s"] by (simp add: TrimRight_def last_rev)

section \<open>The service configuration says what the code says\<close>

text \<open>The configuration is valid JSON; its number of attempts is the one the channel allows, the codes it retries are
  those the mock service and the bridge use for transient faults, and its durations are durations.\<close>

definition json_at :: "string \<Rightarrow> json \<Rightarrow> json option" where
  "json_at k j = (case j of JObj kvs \<Rightarrow> map_of kvs k | _ \<Rightarrow> None)"

definition method_config :: "json option" where
  "method_config =
     (case Option.bind (json_parse ServiceConfig) (json_at ''methodConfig'') of Some (JArr [m]) \<Rightarrow> Some m | _ \<Rightarrow> None)"

definition retry_policy :: "json option" where
  "retry_policy = Option.bind method_config (json_at ''retryPolicy'')"

lemma service_config_decodes:
  "Option.bind retry_policy (json_at ''maxAttempts'') = Some (JNum ''5'')"
  "Option.bind retry_policy (json_at ''retryableStatusCodes'') =
     Some (JArr [JStr ''UNAVAILABLE'', JStr ''RESOURCE_EXHAUSTED'', JStr ''DEADLINE_EXCEEDED''])"
  "Option.bind method_config (json_at ''timeout'') = Some (JStr ''30s'')"
  "ParseInt 64 ''5'' = Some (doMaxCallAttempts DialOptions)"
  "ParseDuration ''30s'' = Some (30 * second)"
  by code_simp+

section \<open>The statistics of the bridge\<close>

text \<open>The collector adds to two counters, the logger reads them one after the other; every access is one atomic action. A
  line of the log has the batches, the items and their average since the previous tick.\<close>

datatype stat_act = AddBatch | AddItems int | LoadBatches | LoadItems

record stats =
  stBatches :: int
  stItems :: int
  stLoaded :: "int option"
  stLast :: "int \<times> int"
  stLog :: "(int \<times> int \<times> f64) list"

definition new_stats :: stats where
  "new_stats = \<lparr>stBatches = 0, stItems = 0, stLoaded = None, stLast = (0, 0), stLog = []\<rparr>"

definition log_tick :: "int \<Rightarrow> int \<Rightarrow> stats \<Rightarrow> stats" where
  "log_tick b it s =
     (let db = b - fst (stLast s); di = it - snd (stLast s); s' = s\<lparr>stLast := (b, it)\<rparr>
      in if db = 0 then s'
         else s'\<lparr>stLog := stLog s @ [(db, di, f64_div (f64_of_int di) (f64_of_int db))]\<rparr>)"

fun stat_step :: "stat_act \<Rightarrow> stats \<Rightarrow> stats" where
  "stat_step AddBatch s = s\<lparr>stBatches := stBatches s + 1\<rparr>"
| "stat_step (AddItems n) s = s\<lparr>stItems := stItems s + n\<rparr>"
| "stat_step LoadBatches s = s\<lparr>stLoaded := Some (stBatches s)\<rparr>"
| "stat_step LoadItems s =
     (case stLoaded s of
        None \<Rightarrow> s
      | Some b \<Rightarrow> (log_tick b (stItems s) s)\<lparr>stLoaded := None\<rparr>)"

text \<open>In every interleaving the lines of the log account for every batch that the logger has seen.\<close>

lemma logged_batches:
  assumes "sum_list (map fst (stLog s)) = fst (stLast s)"
  shows "sum_list (map fst (stLog (fold stat_step as s))) = fst (stLast (fold stat_step as s))"
  using assms
proof (induction as arbitrary: s)
  case (Cons a as)
  have "sum_list (map fst (stLog (stat_step a s))) = fst (stLast (stat_step a s))"
    using Cons.prems by (cases a) (auto simp: log_tick_def Let_def split: option.splits)
  then show ?case using Cons.IH by simp
qed simp

text \<open>The items are not so lucky: a flush between the two reads of a tick lets the tick pass as idle and still counts its items
  as seen, and the next line has the batch with no items.\<close>

theorem stats_may_lose_items:
  "stLog (fold stat_step [LoadBatches, AddBatch, AddItems 32, LoadItems, LoadBatches, LoadItems] new_stats) = [(1, 0, Num 0)]"
  by code_simp

end
