(* ===== verification/Drain.thy ===== *)
theory Drain
  imports Sweep
begin

text \<open>
  Liveness of the enrichment: over a database that answers, with a source that serves the texts of the
  stored memories and an embedder that answers those texts, a batch enriches its whole page however its goroutines interleave, a wave
  enriches its whole claim, and a sweep of a version enriches every memory, also after an outage that left
  transient failures behind.
\<close>

section \<open>A healthy world\<close>

text \<open>The failures recorded at a version so far are transient, leave attempts in the budget of every memory, and
  are older than the longest backoff (64 times its base).\<close>

definition failures_waited :: "PGStore \<Rightarrow> int16 \<Rightarrow> instant \<Rightarrow> ledger \<Rightarrow> bool" where
  "failures_waited s v now db \<longleftrightarrow>
     (\<forall>m\<in>set (memories db). int (length (fail_rows v db (mr_id m))) < MaxAttempts s) \<and>
     (\<forall>e\<in>set (events db). ev_version e = v \<longrightarrow> ev_status e = Failed \<longrightarrow>
        \<not> ev_permanent e \<and> ev_created_at e + 64 * pgInterval (BackoffBase s) < now)"

text \<open>The memories stay, every done event of the version satisfies \<open>P\<close>, and no failure holds a memory back.\<close>

definition steady ::
  "PGStore \<Rightarrow> memory_row list \<Rightarrow> int16 \<Rightarrow> (event_row \<Rightarrow> bool) \<Rightarrow> pg_state \<Rightarrow> bool" where
  "steady s ms v P d \<longleftrightarrow> ps_fates d = [] \<and> memories (ps_db d) = ms \<and> ledger_ok (ps_db d) \<and>
     failures_waited s v (ps_now d) (ps_db d) \<and>
     (\<forall>e\<in>set (events (ps_db d)). ev_version e = v \<longrightarrow> ev_status e = Done \<longrightarrow> P e)"

text \<open>A done event that records what the source and the embedder answer for its memory.\<close>

definition records_answer ::
  "(int \<Rightarrow> MemoryText) \<Rightarrow> (string \<Rightarrow> (go_error, f32 list) result) \<Rightarrow> event_row \<Rightarrow> bool" where
  "records_answer item emb e \<longleftrightarrow>
     (case emb (mtText (item (ev_memory_id e))) of
        Inl _ \<Rightarrow> False
      | Inr vec \<Rightarrow> ev_normalized_text e = Some (mtText (item (ev_memory_id e))) \<and>
          ev_lexemes e = Some (mtLexemes (item (ev_memory_id e))) \<and> ev_ts e = mtTS (item (ev_memory_id e)) \<and>
          ev_embedding e = Some (PackVector vec))"

definition serves :: "pg_state Activities \<Rightarrow> memory_row list \<Rightarrow> (int \<Rightarrow> MemoryText) \<Rightarrow> bool" where
  "serves a ms item \<longleftrightarrow>
     (\<forall>ids d. set ids \<subseteq> mr_id ` set ms \<longrightarrow> memories (ps_db d) = ms \<longrightarrow> aSource a ids d = Inr (map item ids)) \<and>
     (\<forall>i. mtMemoryID (item i) = i)"

lemma pg_answered:
  assumes "ps_fates s = []"
  shows "pg_statement f s =
    (case fst (f (ps_now s) (ps_db s)) of Inl e \<Rightarrow> Inl (PgError e) | Inr x \<Rightarrow> Inr x,
     s\<lparr>ps_db := snd (f (ps_now s) (ps_db s))\<rparr>)"
proof -
  have "s\<lparr>ps_fates := tl (ps_fates s)\<rparr> = s" using assms by (cases s) simp
  then show ?thesis using assms by (simp add: pg_statement_def Let_def split: prod.splits)
qed

lemma failures_waited_pending:
  assumes "failures_waited s v now db" and "0 \<le> BackoffBase s" and "m \<in> set (memories db)"
  shows "pending_core now v (MaxAttempts s) (pgInterval (BackoffBase s)) db (mr_id m) \<longleftrightarrow> \<not> has_done v db (mr_id m)"
proof
  assume "\<not> has_done v db (mr_id m)"
  then show "pending_core now v (MaxAttempts s) (pgInterval (BackoffBase s)) db (mr_id m)"
    using assms
    by (intro pending_when_waited) (auto simp: failures_waited_def has_permanent_failure_def list_ex_iff fail_rows_def)
qed (simp add: pending_core_def)

lemma steady_pending:
  assumes "steady s ms v P d" and "0 \<le> BackoffBase s"
  shows "pending_set (ps_now d) v (MaxAttempts s) (BackoffBase s) (ps_db d) = filter (\<lambda>i. \<not> has_done v (ps_db d) i) (map mr_id ms)"
proof -
  have "pending_core (ps_now d) v (MaxAttempts s) (pgInterval (BackoffBase s)) (ps_db d) i \<longleftrightarrow> \<not> has_done v (ps_db d) i"
    if "i \<in> set (map mr_id ms)" for i
    using that failures_waited_pending [OF _ assms(2)] assms(1) by (auto simp: steady_def)
  then show ?thesis using assms(1) unfolding pending_set_def steady_def by (auto intro!: filter_cong)
qed

lemma failures_waited_later:
  "failures_waited s v now db \<Longrightarrow> now \<le> now' \<Longrightarrow> failures_waited s v now' db"
  by (fastforce simp: failures_waited_def)

text \<open>The insertion of a done event of a stored memory.\<close>

lemma failures_waited_insert_done:
  assumes "failures_waited s v now db" and "InsertEnrichmentDone t e db = (q, db')"
  shows "failures_waited s v now db'"
  using assms by (auto simp: failures_waited_def InsertEnrichmentDone_def fail_rows_def done_row_def split: if_splits)

lemma steady_insert_done:
  assumes s: "steady s ms v P d" and m: "dMemoryID e \<in> mr_id ` set ms" and v: "dVersion e = v"
    and P: "\<And>i now. P (done_row i now e)"
  shows "\<exists>d'. PGStore_InsertDone e d = (Inr (), d') \<and> steady s ms v P d' \<and> ps_now d' = ps_now d \<and>
    has_done v (ps_db d') (dMemoryID e)"
proof -
  obtain q db' where i: "InsertEnrichmentDone (ps_now d) e (ps_db d) = (q, db')" by force
  have q: "q = Inr ()" and db': "memories db' = ms"
    "\<forall>x\<in>set (events db'). ev_version x = v \<longrightarrow> ev_status x = Done \<longrightarrow> P x"
    using s m i P v by (auto simp: steady_def InsertEnrichmentDone_def has_memory_iff split: if_splits)
  have "ledger_ok db'" using InsertEnrichmentDone_ok [OF _ i] s by (simp add: steady_def)
  moreover have "failures_waited s v (ps_now d) db'" using failures_waited_insert_done [OF _ i] s by (simp add: steady_def)
  moreover have "has_done v db' (dMemoryID e)" using has_done_after [OF i [unfolded q]] v by simp
  ultimately show ?thesis
    using s db' i q by (simp add: steady_def PGStore_InsertDone_def pg_answered)
qed

section \<open>A batch that is driven to its end\<close>

text \<open>What holds of a goroutine in a healthy run: an embedding is the embedder's answer, and once the event is
  inserted the memory is done.\<close>

definition phase_good ::
  "(string \<Rightarrow> (go_error, f32 list) result) \<Rightarrow> int16 \<Rightarrow> ledger \<Rightarrow> MemoryText \<Rightarrow> phase \<Rightarrow> bool" where
  "phase_good emb v db it p \<longleftrightarrow>
     (case p of
        Queued \<Rightarrow> True
      | Running \<Rightarrow> True
      | Embedded r \<Rightarrow> r = emb (mtText it)
      | Inserted t \<Rightarrow> has_done v db (mtMemoryID it)
      | Marked w \<Rightarrow> has_done v db (mtMemoryID it)
      | Exited \<Rightarrow> has_done v db (mtMemoryID it))"

definition batch_good ::
  "PGStore \<Rightarrow> memory_row list \<Rightarrow> (int \<Rightarrow> MemoryText) \<Rightarrow> (string \<Rightarrow> (go_error, f32 list) result) \<Rightarrow> batch_env \<Rightarrow> pg_state batch \<Rightarrow> bool"
  where
  "batch_good s ms item emb env b \<longleftrightarrow>
     steady s ms (eVersion env) (records_answer item emb) (bStore b) \<and> bErr b = None \<and> bFailed b = 0 \<and>
     length (bPhase b) = length (eItems env) \<and>
     (\<forall>i<length (bPhase b). phase_good emb (eVersion env) (ps_db (bStore b)) (eItems env ! i) (bPhase b ! i))"

lemma batch_good_set:
  assumes "batch_good s ms item emb env b"
    and "phase_good emb (eVersion env) (ps_db (bStore b)) (eItems env ! j) p"
  shows "batch_good s ms item emb env (set_phase j p b)"
proof -
  have "(bPhase b)[j := p] ! i = (if i = j then p else bPhase b ! i)" if "i < length (bPhase b)" for i
    using that by (cases "i = j") auto
  then show ?thesis using assms by (auto simp: batch_good_def)
qed

lemma phase_good_mono: "phase_good emb v db it p \<Longrightarrow> appended db db' \<Longrightarrow> phase_good emb v db' it p"
  using has_done_mono by (auto simp: phase_good_def split: phase.splits)

lemma batch_good_store:
  assumes "batch_good s ms item emb env b" and "steady s ms (eVersion env) (records_answer item emb) d'"
    and "appended (ps_db (bStore b)) (ps_db d')"
  shows "batch_good s ms item emb env (b\<lparr>bStore := d', bDone := n\<rparr>)"
  using assms phase_good_mono by (fastforce simp: batch_good_def)

text \<open>One item's embedding enters the ledger.\<close>

lemma insert_good:
  assumes good: "batch_good s ms item emb env b" and j: "j < length (bPhase b)" "bPhase b ! j = Embedded r"
    and items: "eItems env = map item ids" "set ids \<subseteq> mr_id ` set ms" "\<And>i. mtMemoryID (item i) = i"
    and emb: "\<forall>i\<in>mr_id ` set ms. \<exists>vec. emb (mtText (item i)) = Inr vec"
  shows "\<exists>d' n. insert_outcome (pg_store s) env j r b = set_phase j (Inserted True) (b\<lparr>bStore := d', bDone := n\<rparr>) \<and>
    batch_good s ms item emb env (set_phase j (Inserted True) (b\<lparr>bStore := d', bDone := n\<rparr>)) \<and>
    ps_now d' = ps_now (bStore b)"
proof -
  let ?it = "eItems env ! j"
  have l: "j < length ids" using good j(1) items(1) by (simp add: batch_good_def)
  then have it: "?it = item (ids ! j)" "mtMemoryID ?it = ids ! j" using items by simp_all
  have "phase_good emb (eVersion env) (ps_db (bStore b)) ?it (Embedded r)"
    using good j unfolding batch_good_def by metis
  moreover have "ids ! j \<in> mr_id ` set ms" using items(2) l by (meson nth_mem subsetD)
  ultimately obtain vec where r: "r = Inr vec" "emb (mtText ?it) = Inr vec"
    using emb it(1) by (auto simp: phase_good_def)
  let ?e = "done_event env ?it vec"
  have "records_answer item emb (done_row i now ?e)" for i now
    using it r(2) by (simp add: records_answer_def done_row_def done_event_def)
  moreover have "dMemoryID ?e \<in> mr_id ` set ms" using items(2) l it by (auto simp: done_event_def)
  moreover have "steady s ms (eVersion env) (records_answer item emb) (bStore b)"
    using good by (simp add: batch_good_def)
  ultimately obtain d' where d': "PGStore_InsertDone ?e (bStore b) = (Inr (), d')"
    "steady s ms (eVersion env) (records_answer item emb) d'" "ps_now d' = ps_now (bStore b)"
    "has_done (eVersion env) (ps_db d') (dMemoryID ?e)"
    using steady_insert_done [of s ms "eVersion env" "records_answer item emb" "bStore b" ?e]
    by (auto simp: done_event_def)
  have "appended (ps_db (bStore b)) (ps_db d')" using pg_insert_done(1) [OF d'(1)] .
  then have g: "batch_good s ms item emb env (b\<lparr>bStore := d', bDone := bDone b + 1\<rparr>)"
    by (rule batch_good_store [OF good d'(2)])
  have "batch_good s ms item emb env (set_phase j (Inserted True) (b\<lparr>bStore := d', bDone := bDone b + 1\<rparr>))"
    using d'(4) by (intro batch_good_set [OF g]) (simp add: phase_good_def done_event_def)
  then show ?thesis
    using r(1) d'(1,3) by (intro exI [of _ d'] exI [of _ "bDone b + 1"]) (simp add: insert_outcome_def pg_store_def)
qed

lemma batch_good_more:
  assumes "batch_good s ms item emb env b"
  shows "batch_good s ms item emb env (b\<lparr>bProg := p\<rparr>)" and "batch_good s ms item emb env (b\<lparr>bBeats := bs\<rparr>)"
  using assms by (simp_all add: batch_good_def)

definition healthy_page :: "memory_row list \<Rightarrow> (int \<Rightarrow> MemoryText) \<Rightarrow> batch_env \<Rightarrow> int list \<Rightarrow> bool" where
  "healthy_page ms item env ids \<longleftrightarrow>
     env_ok env ids \<and> 0 < eLimit env \<and> (\<forall>i. mtMemoryID (item i) = i) \<and> set ids \<subseteq> mr_id ` set ms \<and>
     eItems env = map item (drop (eStart env) ids)"

lemma step_good:
  assumes page: "healthy_page ms item env ids" and emb: "\<forall>i\<in>mr_id ` set ms. \<exists>vec. emb (mtText (item i)) = Inr vec"
    and good: "batch_good s ms item emb env b" and ok: "batch_ok env ids b"
    and act: "a \<in> set (enabled_acts emb env (bPhase b))" and st: "batch_step (pg_store s) env a b = Some b'"
  shows "batch_good s ms item emb env b' \<and> ps_now (bStore b') = ps_now (bStore b)"
proof -
  have np: "\<not> bPanic b" using ok by (simp add: batch_ok_def)
  from act consider (launch) "a = Launch" | (move) i where "i < length (bPhase b)" "act_of emb (eItems env) (i, bPhase b ! i) = Some a"
    by (auto simp: set_enabled)
  then show ?thesis
  proof cases
    case launch
    then show ?thesis
      using st batch_good_set [OF good, of _ Running] by (auto simp: batch_step_def phase_good_def split: if_splits option.splits)
  next
    case (move i)
    then have ph: "phase_of i b = Some (bPhase b ! i)" by (simp add: phase_of_def)
    have pg: "phase_good emb (eVersion env) (ps_db (bStore b)) (eItems env ! i) (bPhase b ! i)"
      using good move(1) by (simp add: batch_good_def)
    from act_of_SomeD [OF move(2)] consider
        (ret) "bPhase b ! i = Running" "a = EmbedReturns i (emb (mtText (eItems env ! i)))"
      | (ins) r where "bPhase b ! i = Embedded r" "a = Inserts i"
      | (mrk) t where "bPhase b ! i = Inserted t" "a = Marks i"
      | (bea) w where "bPhase b ! i = Marked w" "a = Beats i" by blast
    then show ?thesis
    proof cases
      case ret
      then show ?thesis
        using st np ph batch_good_set [OF good, of i "Embedded (emb (mtText (eItems env ! i)))"]
        by (auto simp: batch_step_def phase_good_def)
    next
      case ins
      obtain d' n where o: "insert_outcome (pg_store s) env i r b = set_phase i (Inserted True) (b\<lparr>bStore := d', bDone := n\<rparr>)"
        "batch_good s ms item emb env (set_phase i (Inserted True) (b\<lparr>bStore := d', bDone := n\<rparr>))"
        "ps_now d' = ps_now (bStore b)"
        using insert_good [OF good move(1) ins(1), of "drop (eStart env) ids"] page emb set_drop_subset [of "eStart env" ids]
        by (fastforce simp: healthy_page_def)
      have "b' = set_phase i (Inserted True) (b\<lparr>bStore := d', bDone := n\<rparr>)" using ins np ph st o(1) by (simp add: batch_step_def)
      then show ?thesis using o(2,3) by simp
    next
      case mrk
      have b': "b' = mark_outcome env i t b" using mrk np ph st by (simp add: batch_step_def)
      have "\<not> bPanic b'" using batch_step_ok [OF _ ok st] page by (simp add: healthy_page_def batch_ok_def)
      then have "\<exists>w p. b' = set_phase i (Marked w) (b\<lparr>bProg := p\<rparr>)"
        unfolding b'
      proof (cases t)
        case False
        have "b = b\<lparr>bProg := bProg b\<rparr>" by simp
        then show "\<exists>w p. mark_outcome env i t b = set_phase i (Marked w) (b\<lparr>bProg := p\<rparr>)"
          using False by (metis mark_outcome_def)
      qed (auto simp: mark_outcome_def split: option.splits)
      then obtain w p where "b' = set_phase i (Marked w) (b\<lparr>bProg := p\<rparr>)" by blast
      then show ?thesis
        using pg mrk(1) batch_good_set [OF batch_good_more(1) [OF good]] by (simp add: phase_good_def)
    next
      case bea
      then show ?thesis
        using st np ph pg batch_good_set [OF batch_good_more(2) [OF good], where j = i and p = Exited]
        by (auto simp: batch_step_def phase_good_def)
    qed
  qed
qed

section \<open>A batch, a wave and a sweep\<close>

text \<open>What a healthy sweep relies on.\<close>

definition healthy ::
  "pg_state Activities \<Rightarrow> PGStore \<Rightarrow> memory_row list \<Rightarrow> (int \<Rightarrow> MemoryText) \<Rightarrow> (string \<Rightarrow> (go_error, f32 list) result) \<Rightarrow> bool"
  where
  "healthy a s ms item emb \<longleftrightarrow>
     aStore a = pg_store s \<and> 0 \<le> BackoffBase s \<and> serves a ms item \<and>
     (\<forall>i\<in>mr_id ` set ms. \<exists>vec. emb (mtText (item i)) = Inr vec)"

abbreviation enriching ::
  "PGStore \<Rightarrow> memory_row list \<Rightarrow> (int \<Rightarrow> MemoryText) \<Rightarrow> (string \<Rightarrow> (go_error, f32 list) result) \<Rightarrow> int16 \<Rightarrow> pg_state \<Rightarrow> bool" where
  "enriching s ms item emb v d \<equiv> steady s ms v (records_answer item emb) d"

lemma start_batch_store: "bStore (start_batch n i k d) = d"
  by (simp add: start_batch_def)

lemma ProcessBatch_healthy:
  assumes h: "healthy a s ms item emb" and st: "enriching s ms item emb v d" and v: "act_version dv a (biVersion inp) = v"
    and ids: "set (biIDs inp) \<subseteq> mr_id ` set ms" "biIDs inp \<noteq> []"
  shows "\<exists>res beats d'. ProcessBatch dv a render NoDetails k (batch_schedule sch dv a render (\<lambda>_ _ _ _. emb) NoDetails k inp d) inp d =
      Some (Returned res None, beats, d') \<and> enriching s ms item emb v d' \<and>
      (\<forall>i\<in>set (biIDs inp). has_done v (ps_db d') i) \<and> ps_now d' = ps_now d"
proof -
  let ?ids = "biIDs inp" and ?items = "map item (biIDs inp)"
  let ?env = "batch_env_of dv a render k 0 inp ?items" and ?b0 = "start_batch (length (biIDs inp)) 0 (length (biIDs inp)) d"
  have store: "aStore a = pg_store s" and emb: "\<forall>i\<in>mr_id ` set ms. \<exists>vec. emb (mtText (item i)) = Inr vec" and sv: "serves a ms item"
    using h by (auto simp: healthy_def)
  have src: "aSource a ?ids d = Inr ?items" and mid: "\<And>i. mtMemoryID (item i) = i"
    using sv ids st by (auto simp: serves_def steady_def)
  have f: "eStart ?env = 0" "eItems ?env = ?items" "eVersion ?env = v" by (simp_all add: batch_env_of_def v)
  have page: "healthy_page ms item ?env ?ids"
    using ids mid f env_of_limit [of dv a render k 0 inp ?items] by (simp add: healthy_page_def env_ok_def comp_def)
  let ?I = "\<lambda>b. batch_good s ms item emb ?env b \<and> ps_now (bStore b) = ps_now d"
  have "?I ?b0" using st f by (simp add: batch_good_def start_batch_def phase_good_def)
  moreover have "batch_ok ?env ?ids ?b0" using start_batch_ok [of ?env ?ids d] f by simp
  moreover have "(\<Sum>p\<leftarrow>bPhase ?b0. weight p) \<le> 5 * length ?items"
    by (simp add: start_batch_def sum_list_replicate)
  moreover have env: "env_ok ?env ?ids" using page by (simp add: healthy_page_def)
  moreover have "?I b'" if "?I b" "batch_ok ?env ?ids b" "act \<in> set (enabled_acts emb ?env (bPhase b))"
      "batch_step (pg_store s) ?env act b = Some b'" for b act b'
    using step_good [OF page emb _ that(2-4)] that(1) by simp
  ultimately obtain b where b: "run_acts (pg_store s) ?env
      (drive (5 * length ?items) (sch d inp k) (pg_store s) ?env (\<lambda>_. emb) ?b0) ?b0 = Some b"
    "list_all (\<lambda>p. p = Exited) (bPhase b)" "batch_good s ms item emb ?env b" "batch_ok ?env ?ids b" "ps_now (bStore b) = ps_now d"
    using drive_inv [OF env env_of_limit, of ?I "\<lambda>_. emb" "pg_store s" ?b0 "5 * length ?items" "sch d inp k"] by blast
  have dn: "has_done v (ps_db (bStore b)) i" if i: "i \<in> set ?ids" for i
  proof -
    obtain j where j: "j < length ?ids" "?ids ! j = i" using i by (auto simp: in_set_conv_nth)
    then have "bPhase b ! j = Exited" using b(2,3) f by (simp add: batch_good_def list_all_length)
    then show ?thesis using b(3) j f mid unfolding batch_good_def by (fastforce simp: phase_good_def)
  qed
  have "batch_over b" using b(2) by (simp add: batch_over_def)
  moreover have "\<exists>res. batch_result b = Returned res None"
    using b(3,4) by (simp add: batch_result_def batch_good_def batch_ok_def Let_def)
  ultimately show ?thesis
    using b(1,3,5) dn f(3) store src ids(2)
    by (auto simp: ProcessBatch_def batch_schedule_def Let_def resume_index_def batch_good_def)
qed

lemma enriching_sleep: "enriching s ms item emb v d \<Longrightarrow> enriching s ms item emb v (pg_sleep t d)"
  using failures_waited_later [of s v "ps_now d" "ps_db d" "ps_now (pg_sleep t d)"] by (simp add: steady_def pg_sleep_def)

text \<open>No attempt at a batch takes more than \<open>T\<close> microseconds.\<close>

definition batches_take :: "pg_state durations \<Rightarrow> nat \<Rightarrow> bool" where
  "batches_take took T \<longleftrightarrow> (\<forall>d inp k. took d inp k \<le> 1000 * int T)"

lemma batches_take_sleep: "batches_take took T \<Longrightarrow> ps_now (pg_sleep (took d inp k) d') \<le> ps_now d' + int T"
proof -
  assume "batches_take took T"
  then have "(max 0 (took d inp k) + 999) div 1000 \<le> (1000 * int T + 999) div 1000"
    by (intro zdiv_mono1) (auto simp: batches_take_def)
  then show ?thesis by (simp add: pg_sleep_def)
qed

lemma execute_batches_healthy:
  assumes h: "healthy a s ms item emb" and p: "0 < MaximumAttempts p" and T: "batches_take took T"
  shows "enriching s ms item emb v d \<Longrightarrow>
    \<forall>b\<in>set bs. act_version dv a (biVersion b) = v \<and> set (biIDs b) \<subseteq> mr_id ` set ms \<and> biIDs b \<noteq> [] \<Longrightarrow>
    \<exists>rs d'. execute_batches p sch took dv a render (\<lambda>_ _ _ _. emb) bs d = (rs, d') \<and> enriching s ms item emb v d' \<and>
      (\<forall>b\<in>set bs. \<forall>i\<in>set (biIDs b). has_done v (ps_db d') i) \<and> ps_now d' \<le> ps_now d + int (length bs * T)"
proof (induction bs arbitrary: d)
  case (Cons b bs)
  have store: "aStore a = pg_store s" using h by (simp add: healthy_def)
  obtain n where n: "MaximumAttempts p = Suc n" using p by (cases "MaximumAttempts p") auto
  have b: "act_version dv a (biVersion b) = v" "set (biIDs b) \<subseteq> mr_id ` set ms" "biIDs b \<noteq> []"
    using Cons.prems(2) by simp_all
  obtain res beats d0 where d0: "ProcessBatch dv a render NoDetails 1 (batch_schedule sch dv a render (\<lambda>_ _ _ _. emb) NoDetails 1 b d) b d =
      Some (Returned res None, beats, d0)" "enriching s ms item emb v d0" "\<forall>i\<in>set (biIDs b). has_done v (ps_db d0) i"
    "ps_now d0 = ps_now d"
    using ProcessBatch_healthy [OF h Cons.prems(1) b, of render 1 sch] by blast
  define d1 where "d1 = pg_sleep (took d b 1) d0"
  have e: "execute_batch (MaximumAttempts p) 0 p sch took dv a render (\<lambda>_ _ _ _. emb) NoDetails b d = (Inr res, d1)"
    using d0(1) by (simp add: n d1_def)
  have d1: "enriching s ms item emb v d1" "ps_db d1 = ps_db d0" "ps_now d1 \<le> ps_now d + int T"
    using enriching_sleep [OF d0(2)] batches_take_sleep [OF T, of d b 1 d0] d0(4) by (simp_all add: d1_def) (simp add: pg_sleep_def)
  obtain rs d2 where d2: "execute_batches p sch took dv a render (\<lambda>_ _ _ _. emb) bs d1 = (rs, d2)" "enriching s ms item emb v d2"
    "\<forall>b\<in>set bs. \<forall>i\<in>set (biIDs b). has_done v (ps_db d2) i" "ps_now d2 \<le> ps_now d1 + int (length bs * T)"
    using Cons.IH [OF d1(1)] Cons.prems(2) by auto
  have "appended (ps_db d0) (ps_db d2)"
    using execute_batches_extends [OF store, of d1 p sch took dv render "\<lambda>_ _ _ _. emb" bs] d2(1) d1(2) by (simp add: pg_extends_def)
  then have "\<forall>i\<in>set (biIDs b). has_done v (ps_db d2) i" using d0(3) has_done_mono by blast
  moreover have "ps_now d2 \<le> ps_now d + int (length (b # bs) * T)" using d1(3) d2(4) by simp
  ultimately show ?case
    using e d2(1-3) by (intro exI [of _ "Inr res # rs"] exI [of _ d2]) (simp del: execute_batch.simps)
qed simp

definition undone :: "memory_row list \<Rightarrow> int16 \<Rightarrow> ledger \<Rightarrow> int list" where
  "undone ms v db = filter (\<lambda>i. \<not> has_done v db i) (map mr_id ms)"

lemma count_healthy:
  assumes h: "healthy a s ms item emb" and st: "enriching s ms item emb v d" and v: "act_version dv a u = v"
  shows "CountBacklog dv a u d = (Inr (int (length (undone ms v (ps_db d)))), d)"
proof -
  have "pending_set (ps_now d) v (MaxAttempts s) (BackoffBase s) (ps_db d) = undone ms v (ps_db d)"
    using steady_pending [OF st] h by (simp add: healthy_def undone_def)
  then show ?thesis
    using h st v by (simp add: CountBacklog_def healthy_def pg_store_def PGStore_CountPending_def CountPending_def
        pg_answered steady_def)
qed

lemma plan_healthy:
  assumes h: "healthy a s ms item emb" and st: "enriching s ms item emb v d" and v: "act_version dv a u = v"
    and L: "0 < bs" "0 < f" "bs * f < 2 ^ 63"
  shows "PlanRanges dv a u bs f d =
    (Inr (map (\<lambda>p. \<lparr>biVersion = v, biIDs = p\<rparr>) (pages (nat bs) (take (nat (bs * f)) (undone ms v (ps_db d))))), d)"
proof -
  have p: "pending_set (ps_now d) v (MaxAttempts s) (BackoffBase s) (ps_db d) = undone ms v (ps_db d)"
    using steady_pending [OF st] h by (simp add: healthy_def undone_def)
  have "ledger_ok (ps_db d)" using st by (simp add: steady_def)
  from sort_pending [OF this, of "ps_now d" v "MaxAttempts s" "BackoffBase s"]
  have "sort (undone ms v (ps_db d)) = undone ms v (ps_db d)" by (simp only: p)
  moreover have "\<not> bs * f < 0" using L by (simp add: not_less)
  moreover have "mul64 bs f = bs * f" using L by (simp add: mul64_exact)
  ultimately show ?thesis
    using h st v p L by (simp add: PlanRanges_def healthy_def pg_store_def PGStore_PendingIDs_def PendingMemoryIDs_def
        pg_answered steady_def)
qed

text \<open>A wave leaves at most the part of the backlog that it did not claim.\<close>

lemma wave_healthy:
  assumes h: "healthy a s ms item emb" and st: "enriching s ms item emb v d" and v: "act_version dv a v = v" and bs: "0 < bs"
    and p: "0 < MaximumAttempts p" and T: "batches_take took T" and L: "L \<le> bs * f"
  shows "\<exists>rs d'. execute_batches p sch took dv a render (\<lambda>_ _ _ _. emb)
        (map (\<lambda>p. \<lparr>biVersion = v, biIDs = p\<rparr>) (pages bs (take L (undone ms v (ps_db d))))) d = (rs, d') \<and>
      enriching s ms item emb v d' \<and> ps_now d' \<le> ps_now d + int (f * T) \<and>
      length (undone ms v (ps_db d')) \<le> length (undone ms v (ps_db d)) - L"
proof -
  let ?u = "undone ms v (ps_db d)"
  let ?bs = "map (\<lambda>p. \<lparr>biVersion = v, biIDs = p\<rparr>) (pages bs (take L ?u))"
  have claim: "(\<Union>q\<in>set (pages bs (take L ?u)). set q) = set (take L ?u)"
    using concat_pages [OF bs, of "take L ?u"] by (metis set_concat)
  have sub: "set (take L ?u) \<subseteq> mr_id ` set ms" using set_take_subset [of L ?u] by (auto simp: undone_def)
  have "\<forall>b\<in>set ?bs. act_version dv a (biVersion b) = v \<and> set (biIDs b) \<subseteq> mr_id ` set ms \<and> biIDs b \<noteq> []"
    using v claim sub pages_sizes [of _ bs "take L ?u"] by auto
  from execute_batches_healthy [OF h p T st this]
  obtain rs d' where d': "execute_batches p sch took dv a render (\<lambda>_ _ _ _. emb) ?bs d = (rs, d')" "enriching s ms item emb v d'"
    "\<forall>b\<in>set ?bs. \<forall>i\<in>set (biIDs b). has_done v (ps_db d') i" "ps_now d' \<le> ps_now d + int (length ?bs * T)" by blast
  have "length (take L ?u) \<le> bs * f" using L by simp
  then have "length ?bs * T \<le> f * T" using length_pages [OF bs, of "take L ?u" f] by simp
  then have now: "ps_now d' \<le> ps_now d + int (f * T)" using d'(4) by linarith
  have dn: "\<forall>i\<in>set (take L ?u). has_done v (ps_db d') i" using d'(3) unfolding claim [symmetric] by auto
  have "aStore a = pg_store s" using h by (simp add: healthy_def)
  then have app: "appended (ps_db d) (ps_db d')"
    using execute_batches_extends [of a s d p sch took dv render "\<lambda>_ _ _ _. emb" ?bs] d'(1) by (simp add: pg_extends_def)
  have "undone ms v (ps_db d') = filter (\<lambda>i. \<not> has_done v (ps_db d') i) ?u"
    using has_done_mono [OF app] by (auto simp: undone_def intro!: filter_cong)
  also have "\<dots> = filter (\<lambda>i. \<not> has_done v (ps_db d') i) (take L ?u @ drop L ?u)" by simp
  also have "\<dots> = filter (\<lambda>i. \<not> has_done v (ps_db d') i) (drop L ?u)"
    unfolding filter_append using dn by (simp add: filter_empty_conv)
  finally have "length (undone ms v (ps_db d')) \<le> length ?u - L" by (metis length_drop length_filter_le)
  then show ?thesis using d' now by auto
qed

lemma sweep_loop_healthy:
  assumes h: "healthy a s ms item emb" and v: "v \<noteq> 0" and L: "0 < bs" "0 < f" "bs * f < 2 ^ 63"
    and T: "batches_take took T"
  shows "enriching s ms item emb v d \<Longrightarrow> length (undone ms v (ps_db d)) \<le> k * nat (bs * f) \<Longrightarrow>
    1000 * ps_now d + int k * (second + 1000 * (f * int T)) < deadline \<Longrightarrow> k < n \<Longrightarrow>
    \<exists>d'. sweep_loop n (pg_workflow sch took dv a render (\<lambda>_ _ _ _. emb)) v bs f deadline d = Some (Drained, d') \<and>
      enriching s ms item emb v d' \<and> undone ms v (ps_db d') = []"
proof (induction k arbitrary: d n)
  case 0
  obtain n' where "n = Suc n'" using 0 by (cases n) auto
  moreover have "act_version dv a v = v" using v by (simp add: act_version_def)
  ultimately show ?case
    using 0 first_attempt [of "CountBacklog dv a v" d, OF count_healthy [OF h 0(1), of dv v]] by (simp add: pg_workflow_def)
next
  case (Suc k)
  let ?e = "pg_workflow sch took dv a render (\<lambda>_ _ _ _. emb)" and ?u = "undone ms v (ps_db d)"
  obtain n' where n: "n = Suc n'" "k < n'" using Suc.prems(4) by (cases n) auto
  have av: "act_version dv a v = v" using v by (simp add: act_version_def)
  note c = first_attempt [of "CountBacklog dv a v" d, OF count_healthy [OF h Suc.prems(1) av]]
  note pl = first_attempt [of "PlanRanges dv a v bs f" d, OF plan_healthy [OF h Suc.prems(1) av L]]
  have w: "0 \<le> second + 1000 * (f * int T)" using L(2) by (simp add: second_def)
  then have now: "1000 * ps_now d < deadline"
    using Suc.prems(3) mult_nonneg_nonneg [of "int (Suc k)" "second + 1000 * (f * int T)"] by linarith
  show ?case
  proof (cases "?u = []")
    case True
    then show ?thesis using n c now Suc.prems(1) by (auto simp: pg_workflow_def)
  next
    case False
    let ?p = "pages (nat bs) (take (nat (bs * f)) ?u)"
    have L0: "0 < nat bs" "0 < nat (bs * f)" using L by auto
    have np: "?p \<noteq> []" using False L0 concat_pages [OF L0(1), of "take (nat (bs * f)) ?u"] by force
    obtain rs d1 where d1: "execute_batches (ao_RetryPolicy sweepActivityOptions) sch took dv a render (\<lambda>_ _ _ _. emb)
        (map (\<lambda>p. \<lparr>biVersion = v, biIDs = p\<rparr>) ?p) d = (rs, d1)" "enriching s ms item emb v d1"
      "ps_now d1 \<le> ps_now d + int (nat f * T)"
      "length (undone ms v (ps_db d1)) \<le> length ?u - nat (bs * f)"
      using wave_healthy [OF h Suc.prems(1) av L0(1) _ T, of "ao_RetryPolicy sweepActivityOptions" "nat (bs * f)" "nat f" sch render] L
      by (auto simp: sweepActivityOptions_def nat_mult_distrib)
    let ?d2 = "pg_sleep interWavePause d1"
    have "1000 * ps_now ?d2 = 1000 * ps_now d1 + second" by (simp add: pg_sleep_def interWavePause_def second_def)
    then have t: "1000 * ps_now ?d2 \<le> 1000 * ps_now d + (second + 1000 * (f * int T))" using d1(3) L(2) by simp
    have db: "ps_db ?d2 = ps_db d1" by (simp add: pg_sleep_def)
    have "length (undone ms v (ps_db ?d2)) \<le> k * nat (bs * f)" using d1(4) Suc.prems(2) db by simp
    moreover have "1000 * ps_now ?d2 + int k * (second + 1000 * (f * int T)) < deadline"
      using Suc.prems(3) t by (simp add: distrib_right)
    ultimately obtain d' where "sweep_loop n' ?e v bs f deadline ?d2 = Some (Drained, d')"
      "enriching s ms item emb v d'" "undone ms v (ps_db d') = []"
      using Suc.IH [OF enriching_sleep [OF d1(2)] _ _ n(2)] by blast
    then show ?thesis
      using n(1) False c now np pl d1(1)
      by (simp add: pg_workflow_def)
  qed
qed

section \<open>Liveness\<close>

lemma scan_rows_in: "scan_rows ps = Inr ems \<Longrightarrow> em \<in> set ems \<Longrightarrow> \<exists>p\<in>set ps. enriched_of p = Inr em"
  by (induction ps arbitrary: ems) (auto split: sum.splits)

lemma start_steady:
  assumes "ps_fates d = []" and "ledger_ok (ps_db d)" and "failures_waited s v (ps_now d) (ps_db d)"
    and "\<forall>e\<in>set (events (ps_db d)). ev_version e = v \<longrightarrow> ev_status e = Failed"
  shows "steady s (memories (ps_db d)) v P d"
  using assms by (auto simp: steady_def)

lemma fresh_waited:
  assumes "\<forall>e\<in>set (events db). ev_version e \<noteq> v" and "0 < MaxAttempts s"
  shows "failures_waited s v now db"
proof -
  have "fail_rows v db i = []" for i using assms(1) by (simp add: fail_rows_def filter_empty_conv)
  then show ?thesis using assms by (simp add: failures_waited_def)
qed

text \<open>What the fetch returns after a sweep that enriched everything.\<close>

lemma enriching_fetch:
  assumes st: "enriching s ms item emb v d" and all: "undone ms v (ps_db d) = []" and fetch: "FetchAtVersion conv v (ps_db d) = Inr ems"
  shows "map emMemoryID ems = map mr_id (filter (\<lambda>m. mr_conversation_id m = conv) ms)"
    and "em \<in> set ems \<Longrightarrow> \<exists>vec. emb (mtText (item (emMemoryID em))) = Inr vec \<and> emEmbedding em = PackVector vec \<and>
      emNormalizedText em = mtText (item (emMemoryID em)) \<and> emLexemes em = mtLexemes (item (emMemoryID em))"
    and "em \<in> set ems \<Longrightarrow> \<exists>m\<in>set ms. mr_id m = emMemoryID em \<and> mr_content_hash m = emContentHash em"
proof -
  have ok: "ledger_ok (ps_db d)" and ms: "memories (ps_db d) = ms"
    and ev: "\<And>e. e \<in> set (events (ps_db d)) \<Longrightarrow> ev_version e = v \<Longrightarrow> ev_status e = Done \<Longrightarrow> records_answer item emb e"
    using st by (auto simp: steady_def)
  let ?c = "map mr_id (filter (\<lambda>m. mr_conversation_id m = conv) ms)"
  have sorted: "sorted_wrt (<) (map emMemoryID ems)" and ids: "set (map emMemoryID ems) =
      {mid. \<exists>m\<in>set (memories (ps_db d)). mr_id m = mid \<and> mr_conversation_id m = conv \<and> has_done v (ps_db d) mid}"
    using FetchAtVersion_ok [OF ok, of conv v] fetch by auto
  have dn: "has_done v (ps_db d) (mr_id m)" if "m \<in> set ms" for m
    using all that by (auto simp: undone_def filter_empty_conv)
  have "sorted_wrt (<) ?c"
    using sorted_ids [OF ok] distinct_ids [OF ok] unfolding ms
    by (auto simp: strict_sorted_iff sorted_map distinct_map inj_on_def intro: sorted_wrt_filter)
  moreover have "set ?c = set (map emMemoryID ems)" unfolding ids ms using dn by auto
  ultimately show "map emMemoryID ems = ?c" using sorted by (intro strict_sorted_equal) auto
  have origin: "\<exists>e m. (e, m) \<in> set (at_version conv v (ps_db d)) \<and> enriched_of (e, m) = Inr em" if "em \<in> set ems"
    using fetch scan_rows_in [of "at_version conv v (ps_db d)" ems em] that by (auto simp: FetchAtVersion_def)
  show "\<exists>vec. emb (mtText (item (emMemoryID em))) = Inr vec \<and> emEmbedding em = PackVector vec \<and>
      emNormalizedText em = mtText (item (emMemoryID em)) \<and> emLexemes em = mtLexemes (item (emMemoryID em))"
    if em: "em \<in> set ems"
  proof -
    obtain e m where e: "(e, m) \<in> set (at_version conv v (ps_db d))" "enriched_of (e, m) = Inr em"
      using origin [OF em] by blast
    then have "records_answer item emb e" using ev by (auto simp: set_at_version)
    then show ?thesis
      using e(2) by (auto simp: records_answer_def enriched_of_def split: sum.splits option.splits)
  qed
  show "\<exists>m\<in>set ms. mr_id m = emMemoryID em \<and> mr_content_hash m = emContentHash em" if em: "em \<in> set ems"
  proof -
    obtain e m where e: "(e, m) \<in> set (at_version conv v (ps_db d))" "enriched_of (e, m) = Inr em"
      using origin [OF em] by blast
    have "m \<in> set ms \<and> mr_id m = ev_memory_id e" using e(1) ms by (simp add: set_at_version)
    moreover have "emMemoryID em = ev_memory_id e" "emContentHash em = mr_content_hash m"
      using e(2) by (auto simp: enriched_of_def split: option.splits)
    ultimately show ?thesis by auto
  qed
qed

text \<open>The sweep the schedule starts, of a version at which nothing is done yet and whose failures have waited, over at
  most \<open>W\<close> full waves of 8 batches of 128 memories, which fit in the soft deadline of 50 seconds: it drains the backlog.\<close>

lemma scheduled_sweep_drains:
  assumes h: "healthy a s (memories (ps_db d)) item emb" and d: "ps_fates d = []" "ledger_ok (ps_db d)"
    and waited: "failures_waited s (scVersion cfg) (ps_now d) (ps_db d)"
    and fresh: "\<forall>e\<in>set (events (ps_db d)). ev_version e = scVersion cfg \<longrightarrow> ev_status e = Failed" "scVersion cfg \<noteq> 0"
    and T: "batches_take took T" and fits: "W * (1000000 + 8 * T) < 50000000"
    and size: "length (memories (ps_db d)) \<le> W * 1024"
  shows "\<exists>d'. EnrichmentSweepWorkflow 51 dv (pg_workflow sch took dv a render (\<lambda>_ _ _ _. emb)) (soArgs (schedule_options dv cfg)) d =
      Some (Drained, d') \<and> enriching s (memories (ps_db d)) item emb (scVersion cfg) d' \<and>
      undone (memories (ps_db d)) (scVersion cfg) (ps_db d') = []"
proof -
  have L: "(0 :: int) < 128" "(0 :: int) < 8" "(128 * 8 :: int) < 2 ^ 63" by simp_all
  have "length (undone (memories (ps_db d)) (scVersion cfg) (ps_db d)) \<le> length (map mr_id (memories (ps_db d)))"
    unfolding undone_def by (rule length_filter_le)
  then have u: "length (undone (memories (ps_db d)) (scVersion cfg) (ps_db d)) \<le> W * nat (128 * 8)" using size by simp
  have "W * 1000000 \<le> W * (1000000 + 8 * T)" by (intro mult_le_mono2) simp
  then have w: "W < 51" using fits by linarith
  have "int (W * (1000000 + 8 * T)) < 50000000" using fits by linarith
  then have "1000 * ps_now d + int W * (second + 1000 * (8 * int T)) < 1000 * ps_now d + SoftDeadline"
    by (simp add: SoftDeadline_def second_def algebra_simps)
  from sweep_loop_healthy [OF h fresh(2) L T start_steady [OF d waited fresh(1)] u this w, where dv = dv and sch = sch and render = render]
  show ?thesis
    by (simp add: EnrichmentSweepWorkflow_def schedule_options_def fresh(2) DefaultBatchSize_def DefaultFanOut_def
        pg_workflow_def)
qed

end
