(* ===== verification/Blob.thy ===== *)
theory Blob
  imports Json Sha256
begin

text \<open>
  The content-addressed blob (\<^verbatim>\<open>internal/blob\<close>): the envelope, its canonical bytes, the decoder, the
  content hash and the object key. \<^verbatim>\<open>json.Marshal\<close> of a struct of strings cannot fail.
\<close>

record Envelope =
  eConversationID :: string
  eSessionID :: string
  eTurnID :: string
  eSpeaker :: string
  eText :: string
  eDateTime :: string

definition omitempty :: "string \<times> string \<Rightarrow> (string \<times> string) list" where
  "omitempty f = (if snd f = [] then [] else [f])"

definition envelope_fields :: "Envelope \<Rightarrow> (string \<times> string) list" where
  "envelope_fields e =
     [(''conversation_id'', eConversationID e), (''session_id'', eSessionID e), (''turn_id'', eTurnID e)] @
     omitempty (''speaker'', eSpeaker e) @ [(''text'', eText e)] @ omitempty (''date_time'', eDateTime e)"

definition Marshal :: "Envelope \<Rightarrow> string" where
  "Marshal e = json_object (envelope_fields e)"

datatype blob_error = BlobParse

definition zero_envelope :: Envelope where
  "zero_envelope = \<lparr>eConversationID = [], eSessionID = [], eTurnID = [], eSpeaker = [], eText = [], eDateTime = []\<rparr>"

text \<open>\<^verbatim>\<open>json.Unmarshal\<close> into the zero envelope: null leaves it alone, an object sets the fields it names, any
  other value is a type error.\<close>

definition Parse :: "string \<Rightarrow> (blob_error, Envelope) result" where
  "Parse b =
     (case json_parse b of
        Some JNull \<Rightarrow> Inr zero_envelope
      | Some (JObj ms) \<Rightarrow>
          (let field = (\<lambda>name. str_field [] (field_values name ms)) in
           case (field ''conversation_id'', field ''session_id'', field ''turn_id'',
                 field ''speaker'', field ''text'', field ''date_time'') of
             (Some c, Some s, Some t, Some sp, Some x, Some d) \<Rightarrow>
               Inr \<lparr>eConversationID = c, eSessionID = s, eTurnID = t, eSpeaker = sp, eText = x, eDateTime = d\<rparr>
           | _ \<Rightarrow> Inl BlobParse)
      | _ \<Rightarrow> Inl BlobParse)"

definition Hash :: "string \<Rightarrow> bytes" where
  "Hash b = sha256 (string_bytes b)"

definition Key :: "bytes \<Rightarrow> string" where
  "Key hash = hex_encode hash"

definition envelope_valid :: "Envelope \<Rightarrow> bool" where
  "envelope_valid e \<longleftrightarrow>
     valid_utf8 (eConversationID e) \<and> valid_utf8 (eSessionID e) \<and> valid_utf8 (eTurnID e) \<and>
     valid_utf8 (eSpeaker e) \<and> valid_utf8 (eText e) \<and> valid_utf8 (eDateTime e)"

section \<open>The envelope survives storage\<close>

lemma field_values_Cons:
  "field_values name (m # ms) =
     (if fold_key (fst m) = fold_key name then snd m # field_values name ms else field_values name ms)"
  by (simp add: field_values_def)

lemma field_values_Nil: "field_values name [] = []"
  by (simp add: field_values_def)

lemma omitempty_cases: "omitempty (k, v) = (if v = [] then [] else [(k, v)])"
  by (simp add: omitempty_def)

definition names :: "string list" where
  "names = [''conversation_id'', ''session_id'', ''turn_id'', ''speaker'', ''text'', ''date_time'']"

lemma names_valid: "list_all valid_utf8 names"
  by code_simp

lemma names_fold: "distinct (map fold_key names)"
  by code_simp

lemma field_value:
  assumes "name \<in> set names"
  shows "str_field [] (field_values name (map (\<lambda>(k, v). (k, JStr v)) (envelope_fields e))) =
    Some (case map_of (envelope_fields e) name of Some v \<Rightarrow> v | None \<Rightarrow> [])"
proof -
  have "fold_key k = fold_key name \<longleftrightarrow> k = name" if "k \<in> set names" for k
    using names_fold assms that by (auto simp: distinct_map inj_on_def)
  moreover have "fst ` set (envelope_fields e) \<subseteq> set names"
    by (auto simp: envelope_fields_def omitempty_def names_def)
  moreover have "distinct (map fst (envelope_fields e))"
    by (auto simp: envelope_fields_def omitempty_def)
  moreover have "str_field [] (field_values name (map (\<lambda>(k, v). (k, JStr v)) ys)) =
      Some (case map_of ys name of Some v \<Rightarrow> v | None \<Rightarrow> [])"
    if "\<forall>k\<in>fst ` set ys. fold_key k = fold_key name \<longleftrightarrow> k = name" "distinct (map fst ys)" for ys
    using that
  proof (induction ys)
    case (Cons y ys)
    have none: "field_values name (map (\<lambda>(k, v). (k, JStr v)) ys) = []" if "name \<notin> fst ` set ys"
    proof -
      have "fold_key (fst p) \<noteq> fold_key name" if "p \<in> set ys" for p
        using Cons.prems(1) \<open>name \<notin> fst ` set ys\<close> that by (metis image_eqI image_insert insertCI list.simps(15))
      then show ?thesis by (auto simp: field_values_def filter_empty_conv)
    qed
    obtain k v where y: "y = (k, v)" by force
    have k: "fold_key k = fold_key name \<longleftrightarrow> k = name" using Cons.prems(1) y by simp
    show ?case
    proof (cases "k = name")
      case True
      then show ?thesis using none Cons.prems(2) by (simp add: y field_values_Cons)
    next
      case False
      then show ?thesis using Cons k by (simp add: y field_values_Cons)
    qed
  qed (simp add: field_values_Nil)
  ultimately show ?thesis by blast
qed

lemma fields_valid: "envelope_valid e \<Longrightarrow> \<forall>(k, v)\<in>set (envelope_fields e). valid_utf8 k \<and> valid_utf8 v"
  using names_valid
  by (auto simp: envelope_fields_def omitempty_def envelope_valid_def names_def)

lemma map_of_fields:
  "map_of (envelope_fields e) ''conversation_id'' = Some (eConversationID e)"
  "map_of (envelope_fields e) ''session_id'' = Some (eSessionID e)"
  "map_of (envelope_fields e) ''turn_id'' = Some (eTurnID e)"
  "map_of (envelope_fields e) ''speaker'' = (if eSpeaker e = [] then None else Some (eSpeaker e))"
  "map_of (envelope_fields e) ''text'' = Some (eText e)"
  "map_of (envelope_fields e) ''date_time'' = (if eDateTime e = [] then None else Some (eDateTime e))"
  by (simp_all add: envelope_fields_def omitempty_def)

lemma parse_marshal:
  assumes "envelope_valid e"
  shows "Parse (Marshal e) = Inr e"
proof -
  have "json_parse (Marshal e) = Some (JObj (map (\<lambda>(k, v). (k, JStr v)) (envelope_fields e)))"
    unfolding Marshal_def by (rule json_parse_object [OF _ fields_valid [OF assms]]) (simp add: envelope_fields_def)
  then show ?thesis
    by (simp add: Parse_def Let_def field_value names_def map_of_fields)
qed

text \<open>C15. A blob gives back the envelope it was made from, whatever the texts hold: quotes, control
  characters, angle brackets, line separators and every other character, as long as they are valid
  UTF-8; an omitted empty field comes back empty.\<close>

theorem Parse_Marshal:
  assumes "envelope_valid e"
  shows "Parse (Marshal e) = Inr e"
  by (rule parse_marshal [OF assms])

text \<open>A text with a quote, a newline, an ampersand and a euro sign.\<close>

definition demo_envelope :: Envelope where
  "demo_envelope = \<lparr>eConversationID = ''42'', eSessionID = ''s1'', eTurnID = ''D1:3'', eSpeaker = [],
     eText = of_runes [34, 10, 38, 8364], eDateTime = ''May 8''\<rparr>"

theorem Parse_Marshal_witness: "Parse (Marshal demo_envelope) = Inr demo_envelope"
proof -
  have "envelope_valid demo_envelope" by code_simp
  then show ?thesis by (rule Parse_Marshal)
qed

end
