(* ===== verification/Ranking.thy ===== *)
theory Ranking
  imports GoFloat "HOL-Library.Multiset"
begin

text \<open>
  Ranked lists (\<^verbatim>\<open>internal/retrieve\<close>): the ordering of scored candidates, Reciprocal Rank Fusion
  (\<^verbatim>\<open>rrf.go\<close>), the temporal adjustment (\<^verbatim>\<open>temporal.go\<close>) and Maximal Marginal Relevance (\<^verbatim>\<open>mmr.go\<close>).
  \<^verbatim>\<open>sort.Slice\<close> is the insertion sort Go uses on short slices; the theorems on the order show that
  on NaN-free candidates with distinct ids every correct sort gives the same list. A Go map is an
  association list in insertion order; the order of its iteration is shown not to matter.
\<close>

section \<open>Sorting\<close>

record Scored =
  sID :: string
  sScore :: f64

fun ins_back :: "('a \<Rightarrow> 'a \<Rightarrow> bool) \<Rightarrow> 'a \<Rightarrow> 'a list \<Rightarrow> 'a list" where
  "ins_back lt x [] = [x]"
| "ins_back lt x (y # ys) = (if lt x y then y # ins_back lt x ys else x # y # ys)"

definition sort_slice :: "('a \<Rightarrow> 'a \<Rightarrow> bool) \<Rightarrow> 'a list \<Rightarrow> 'a list" where
  "sort_slice lt xs = rev (foldl (\<lambda>acc x. ins_back lt x acc) [] xs)"

definition scored_less :: "Scored \<Rightarrow> Scored \<Rightarrow> bool" where
  "scored_less s t =
     (if \<not> f64_eq (sScore s) (sScore t) then f64_lt (sScore t) (sScore s) else sID s < sID t)"

definition sortScored :: "Scored list \<Rightarrow> Scored list" where
  "sortScored s = sort_slice scored_less s"

definition idsOf :: "Scored list \<Rightarrow> string list" where
  "idsOf s = map sID s"

section \<open>Reciprocal Rank Fusion\<close>

text \<open>\<^verbatim>\<open>m[k] += v\<close> on a map with float values.\<close>

fun map_add_at :: "'k \<Rightarrow> f64 \<Rightarrow> ('k \<times> f64) list \<Rightarrow> ('k \<times> f64) list" where
  "map_add_at k v [] = [(k, f64_add (Num 0) v)]"
| "map_add_at k v ((k', x) # m) = (if k' = k then (k', f64_add x v) # m else (k', x) # map_add_at k v m)"

definition DefaultRRFK :: int where "DefaultRRFK = 60"

text \<open>\<^verbatim>\<open>k+i+1\<close> is a 64-bit sum, which wraps.\<close>

definition rrf_weight :: "int \<Rightarrow> nat \<Rightarrow> f64" where
  "rrf_weight k i = f64_div (Num 1) (f64_of_int (sint (word_of_int (k + int i + 1) :: 64 word)))"

fun rrf_list :: "int \<Rightarrow> nat \<Rightarrow> string list \<Rightarrow> (string \<times> f64) list \<Rightarrow> (string \<times> f64) list" where
  "rrf_list k i [] m = m"
| "rrf_list k i (d # ds) m = rrf_list k (i + 1) ds (map_add_at d (rrf_weight k i) m)"

definition RRF :: "int \<Rightarrow> string list list \<Rightarrow> (string \<times> f64) list" where
  "RRF k ls = foldl (\<lambda>m l. rrf_list k 0 l m) [] ls"

section \<open>Temporal adjustment\<close>

text \<open>An instant is a number of nanoseconds; \<^verbatim>\<open>Time.Sub\<close> saturates at the ends of \<^verbatim>\<open>int64\<close>, and
  negating the least \<^verbatim>\<open>int64\<close> gives it back.\<close>

type_synonym time = int

definition time_sub :: "time \<Rightarrow> time \<Rightarrow> duration" where
  "time_sub t u = max (- (2 ^ 63)) (min (2 ^ 63 - 1) (t - u))"

definition neg_duration :: "duration \<Rightarrow> duration" where
  "neg_duration d = (if d = - (2 ^ 63) then d else - d)"

record TemporalOptions =
  tWindow :: duration
  tBoost :: f64
  tHardFilter :: bool

definition DefaultTemporalBoost :: f64 where "DefaultTemporalBoost = f64_const (13 / 10)"
definition DefaultTemporalWindow :: duration where "DefaultTemporalWindow = 14 * 24 * 3600 * 1000000000"

definition temporal_window :: "TemporalOptions \<Rightarrow> duration" where
  "temporal_window opt = (if tWindow opt > 0 then tWindow opt else DefaultTemporalWindow)"

definition temporal_boost :: "TemporalOptions \<Rightarrow> f64" where
  "temporal_boost opt = (if f64_lt (Num 0) (tBoost opt) then tBoost opt else DefaultTemporalBoost)"

definition inWindow :: "(string \<Rightarrow> time option) \<Rightarrow> time \<Rightarrow> duration \<Rightarrow> string \<Rightarrow> bool" where
  "inWindow timeOf queryTime w i =
     (case timeOf i of
        None \<Rightarrow> False
      | Some t \<Rightarrow> let d = time_sub t queryTime; d' = (if d < 0 then neg_duration d else d) in d' \<le> w)"

definition TemporalAdjust ::
  "Scored list \<Rightarrow> (string \<Rightarrow> time option) \<Rightarrow> time \<Rightarrow> bool \<Rightarrow> TemporalOptions \<Rightarrow> Scored list" where
  "TemporalAdjust cands timeOf queryTime found opt =
     (if \<not> found \<or> cands = [] then cands
      else let w = temporal_window opt; inw = inWindow timeOf queryTime w in
        if tHardFilter opt then
          let kept = filter (\<lambda>c. inw (sID c)) cands
          in if kept = [] then cands else sortScored kept
        else let boost = temporal_boost opt
             in sortScored
                  (map (\<lambda>c. if inw (sID c) then c\<lparr>sScore := f64_mul (sScore c) boost\<rparr> else c) cands))"

section \<open>Maximal Marginal Relevance\<close>

record MMROptions =
  mLambda :: f64
  mMaxPerSession :: int

definition DefaultMMRLambda :: f64 where "DefaultMMRLambda = f64_const (7 / 10)"

definition mmr_lambda :: "MMROptions \<Rightarrow> f64" where
  "mmr_lambda opt = (if f64_lt (Num 0) (mLambda opt) then mLambda opt else DefaultMMRLambda)"

text \<open>The state of the selection: the indices in selection order; the used flags and the counts per
  session are functions of it.\<close>

definition per_session :: "string list option \<Rightarrow> nat list \<Rightarrow> string \<Rightarrow> int" where
  "per_session sessions selected s =
     (case sessions of None \<Rightarrow> 0 | Some ss \<Rightarrow> int (count_by (\<lambda>j. ss ! j = s) selected))"

definition eligible :: "string list option \<Rightarrow> MMROptions \<Rightarrow> nat list \<Rightarrow> nat \<Rightarrow> bool" where
  "eligible sessions opt selected i \<longleftrightarrow>
     i \<notin> set selected \<and>
     \<not> (0 < mMaxPerSession opt \<and>
        (case sessions of None \<Rightarrow> False
         | Some ss \<Rightarrow> mMaxPerSession opt \<le> per_session sessions selected (ss ! i)))"

definition max_sim :: "(nat \<Rightarrow> nat \<Rightarrow> f64) \<Rightarrow> nat list \<Rightarrow> nat \<Rightarrow> f64" where
  "max_sim sim selected i =
     (if selected = [] then Num 0
      else foldl (\<lambda>m j. let s = sim i j in if f64_lt m s then s else m) NInf selected)"

definition mmr_score :: "f64 list \<Rightarrow> (nat \<Rightarrow> nat \<Rightarrow> f64) \<Rightarrow> f64 \<Rightarrow> nat list \<Rightarrow> nat \<Rightarrow> f64" where
  "mmr_score rel sim lam selected i =
     f64_sub (f64_mul lam (rel ! i)) (f64_mul (f64_sub (Num 1) lam) (max_sim sim selected i))"

text \<open>The scan for the best candidate: the first index with the greatest score above \<open>-Inf\<close>.\<close>

fun scan_best :: "(nat \<Rightarrow> bool) \<Rightarrow> (nat \<Rightarrow> f64) \<Rightarrow> nat list \<Rightarrow> nat option \<Rightarrow> f64 \<Rightarrow> nat option" where
  "scan_best ok score [] best bestScore = best"
| "scan_best ok score (i # is) best bestScore =
     (if \<not> ok i then scan_best ok score is best bestScore
      else if f64_lt bestScore (score i) then scan_best ok score is (Some i) (score i)
      else scan_best ok score is best bestScore)"

fun mmr_loop ::
  "nat \<Rightarrow> nat \<Rightarrow> f64 list \<Rightarrow> (nat \<Rightarrow> nat \<Rightarrow> f64) \<Rightarrow> string list option \<Rightarrow> f64 \<Rightarrow> MMROptions \<Rightarrow> nat list \<Rightarrow> nat list" where
  "mmr_loop 0 n rel sim sessions lam opt selected = selected"
| "mmr_loop (Suc m) n rel sim sessions lam opt selected =
     (case scan_best (eligible sessions opt selected) (mmr_score rel sim lam selected) [0..<n] None NInf of
        None \<Rightarrow> selected
      | Some best \<Rightarrow> mmr_loop m n rel sim sessions lam opt (selected @ [best]))"

definition mmr_depth :: "int \<Rightarrow> nat \<Rightarrow> nat" where
  "mmr_depth k n = (if k \<le> 0 \<or> k > int n then n else nat k)"

text \<open>\<^const>\<open>None\<close> is the panic on slices of different lengths.\<close>

definition MMR ::
  "string list \<Rightarrow> f64 list \<Rightarrow> (nat \<Rightarrow> nat \<Rightarrow> f64) \<Rightarrow> string list option \<Rightarrow> int \<Rightarrow> MMROptions \<Rightarrow> Scored list option" where
  "MMR ids rel sim sessions k opt =
     (let n = length ids in
      if length rel \<noteq> n \<or> (case sessions of None \<Rightarrow> False | Some ss \<Rightarrow> length ss \<noteq> n) then None
      else Some (map (\<lambda>i. \<lparr>sID = ids ! i, sScore = rel ! i\<rparr>)
                   (mmr_loop (mmr_depth k n) n rel sim sessions (mmr_lambda opt) opt [])))"

section \<open>Orders on slices\<close>

text \<open>What \<^verbatim>\<open>sort.Slice\<close> needs of its less function, on the elements it is used on: a strict order
  whose incomparability is transitive.\<close>

locale slice_order =
  fixes lt :: "'a \<Rightarrow> 'a \<Rightarrow> bool" and ok :: "'a \<Rightarrow> bool"
  assumes asym: "ok x \<Longrightarrow> ok y \<Longrightarrow> lt x y \<Longrightarrow> \<not> lt y x"
    and negtrans: "ok x \<Longrightarrow> ok y \<Longrightarrow> ok z \<Longrightarrow> lt x z \<Longrightarrow> lt x y \<or> lt y z"
begin

definition in_order :: "'a list \<Rightarrow> bool" where
  "in_order xs \<longleftrightarrow> sorted_wrt (\<lambda>x y. \<not> lt y x) xs"

lemma ins_back_mset: "mset (ins_back lt x ys) = add_mset x (mset ys)"
  by (induction ys) auto

lemma ins_back_set: "set (ins_back lt x ys) = insert x (set ys)"
  using ins_back_mset [of x ys] by (metis set_mset_add_mset_insert set_mset_mset)

lemma ins_back_sorted:
  "ok x \<Longrightarrow> (\<forall>y\<in>set ys. ok y) \<Longrightarrow> sorted_wrt (\<lambda>a b. \<not> lt a b) ys \<Longrightarrow>
     sorted_wrt (\<lambda>a b. \<not> lt a b) (ins_back lt x ys)"
proof (induction ys)
  case (Cons y ys)
  show ?case
  proof (cases "lt x y")
    case True
    then have "\<not> lt y x" using asym Cons.prems by simp
    then show ?thesis using True Cons by (auto simp: ins_back_set)
  next
    case False
    then have "\<not> lt x z" if "z \<in> set ys" for z
      using negtrans [of x y z] Cons.prems that by auto
    then show ?thesis using False Cons.prems by simp
  qed
qed simp

lemma foldl_ins_back:
  "(\<forall>x\<in>set xs. ok x) \<Longrightarrow> (\<forall>y\<in>set acc. ok y) \<Longrightarrow> sorted_wrt (\<lambda>a b. \<not> lt a b) acc \<Longrightarrow>
   sorted_wrt (\<lambda>a b. \<not> lt a b) (foldl (\<lambda>acc x. ins_back lt x acc) acc xs) \<and>
   mset (foldl (\<lambda>acc x. ins_back lt x acc) acc xs) = mset acc + mset xs"
  by (induction xs arbitrary: acc) (auto simp: ins_back_set ins_back_mset ins_back_sorted)

lemma sort_slice_in_order: "\<forall>x\<in>set xs. ok x \<Longrightarrow> in_order (sort_slice lt xs)"
  using foldl_ins_back [of xs "[]"] by (simp add: sort_slice_def in_order_def sorted_wrt_rev)

lemma in_order_unique:
  assumes "mset xs = mset ys" and "in_order xs" and "in_order ys" and "\<forall>x\<in>set xs. ok x"
    and "\<And>x y. x \<in> set xs \<Longrightarrow> y \<in> set xs \<Longrightarrow> \<not> lt x y \<Longrightarrow> \<not> lt y x \<Longrightarrow> x = y"
  shows "xs = ys"
  using assms
proof (induction xs arbitrary: ys)
  case (Cons x xs)
  then obtain y ys' where ys: "ys = y # ys'" by (cases ys) auto
  have "set ys = set (x # xs)" using Cons.prems(1) by (metis set_mset_mset)
  then have "x \<in> set ys" "y \<in> set (x # xs)" using ys by auto
  then have "x = y \<or> (\<not> lt x y \<and> \<not> lt y x)"
    using Cons.prems(2,3) ys by (auto simp: in_order_def)
  then have "x = y" using Cons.prems(5) \<open>y \<in> set (x # xs)\<close> by (metis list.set_intros(1))
  then have "xs = ys'" using Cons.prems ys by (intro Cons.IH) (auto simp: in_order_def)
  then show ?case using ys \<open>x = y\<close> by simp
qed simp

end

lemma sort_slice_mset: "mset (sort_slice lt xs) = mset xs"
proof -
  have "mset (ins_back lt x ys) = add_mset x (mset ys)" for x ys by (induction ys) auto
  then have "mset (foldl (\<lambda>acc x. ins_back lt x acc) acc xs) = mset acc + mset xs" for acc
    by (induction xs arbitrary: acc) auto
  then show ?thesis by (simp add: sort_slice_def)
qed

definition no_NaN :: "Scored \<Rightarrow> bool" where
  "no_NaN s \<longleftrightarrow> sScore s \<noteq> NaN"

interpretation by_score: slice_order scored_less no_NaN
proof
  show "\<not> scored_less y x" if "no_NaN x" "no_NaN y" "scored_less x y" for x y
    using that by (auto simp: scored_less_def f64_eq_def f64_lt_def no_NaN_def split: if_splits)
  show "scored_less x y \<or> scored_less y z" if "no_NaN x" "no_NaN y" "no_NaN z" "scored_less x z" for x y z
    using that unfolding scored_less_def f64_eq_def f64_lt_def no_NaN_def
    by (cases "fkey (sScore x)" "fkey (sScore y)" rule: linorder_cases;
        cases "fkey (sScore y)" "fkey (sScore z)" rule: linorder_cases) (auto split: if_splits)
qed

lemma sortScored_mset [simp]: "mset (sortScored xs) = mset xs"
  by (simp add: sortScored_def sort_slice_mset)

lemma sortScored_set [simp]: "set (sortScored xs) = set xs"
  by (metis sortScored_mset set_mset_mset)

lemma sortScored_length [simp]: "length (sortScored xs) = length xs"
  by (metis sortScored_mset size_mset)

text \<open>Ranked: scores do not increase, and equal scores are in ascending order of their ids.\<close>

definition ranked :: "Scored list \<Rightarrow> bool" where
  "ranked xs \<longleftrightarrow> sorted_wrt (\<lambda>s t. f64_lt (sScore t) (sScore s) \<or> (f64_eq (sScore s) (sScore t) \<and> sID s \<le> sID t)) xs"

lemma not_less_ranked:
  "no_NaN s \<Longrightarrow> no_NaN t \<Longrightarrow> \<not> scored_less t s \<longleftrightarrow>
     f64_lt (sScore t) (sScore s) \<or> (f64_eq (sScore s) (sScore t) \<and> sID s \<le> sID t)"
  by (auto simp: scored_less_def f64_eq_def f64_lt_def no_NaN_def)

lemma in_order_ranked: "list_all no_NaN xs \<Longrightarrow> by_score.in_order xs \<longleftrightarrow> ranked xs"
  unfolding by_score.in_order_def ranked_def by (induction xs) (auto simp: list_all_iff not_less_ranked)

lemma sortScored_ranked: "list_all no_NaN xs \<Longrightarrow> ranked (sortScored xs)"
  using by_score.sort_slice_in_order [of xs] in_order_ranked [of "sortScored xs"]
  by (simp add: sortScored_def [symmetric] list_all_iff)

lemma ranked_unique:
  assumes "list_all no_NaN xs" and "distinct (map sID xs)" and "mset xs = mset ys" and "ranked xs" and "ranked ys"
  shows "xs = ys"
proof (rule by_score.in_order_unique [OF assms(3)])
  have "list_all no_NaN ys" using assms(1,3) by (metis list_all_iff set_mset_mset)
  then show "by_score.in_order xs" "by_score.in_order ys" using assms(1,4,5) by (simp_all add: in_order_ranked)
  show "\<forall>x\<in>set xs. no_NaN x" using assms(1) by (simp add: list_all_iff)
  show "x = y" if "x \<in> set xs" "y \<in> set xs" "\<not> scored_less x y" "\<not> scored_less y x" for x y
  proof -
    have "sID x = sID y"
      using that assms(1) by (auto simp: list_all_iff scored_less_def f64_eq_def f64_lt_def no_NaN_def split: if_splits)
    then show ?thesis using that(1,2) assms(2) by (simp add: distinct_map inj_on_def)
  qed
qed

text \<open>C27. The ranking is deterministic: on candidates with distinct ids and no NaN score, sorting gives
  a permutation that is ranked by descending score with ties in ascending id order, and it is the
  only one, so neither the sort algorithm nor the iteration order of the map the candidates were
  collected from has any influence.\<close>

theorem sortScored_determined:
  assumes "list_all no_NaN xs" and "distinct (idsOf xs)"
  shows "mset (sortScored xs) = mset xs \<and> ranked (sortScored xs) \<and>
    (\<forall>ys. mset ys = mset xs \<longrightarrow> (ranked ys \<longrightarrow> ys = sortScored xs) \<and> sortScored ys = sortScored xs)"
proof -
  have n: "list_all no_NaN zs" "distinct (map sID zs)" if "mset zs = mset xs" for zs
    using assms that by (auto simp: list_all_iff idsOf_def dest: mset_eq_setD)
      (metis distinct_map mset_eq_imp_distinct_iff mset_map)+
  have "ys = sortScored xs" if "mset ys = mset xs" "ranked ys" for ys
    by (rule ranked_unique) (use that n sortScored_ranked [OF assms(1)] in auto)
  moreover have "sortScored ys = sortScored xs" if "mset ys = mset xs" for ys
    using calculation [of "sortScored ys"] that n(1) [of ys] sortScored_ranked by simp
  ultimately show ?thesis using sortScored_ranked [OF assms(1)] sortScored_mset by blast
qed

theorem sortScored_determined_witness:
  "sortScored [\<lparr>sID = ''b'', sScore = PInf\<rparr>, \<lparr>sID = ''a'', sScore = Num 1\<rparr>] =
   sortScored [\<lparr>sID = ''a'', sScore = Num 1\<rparr>, \<lparr>sID = ''b'', sScore = PInf\<rparr>]"
proof -
  let ?xs = "[\<lparr>sID = ''a'', sScore = Num 1\<rparr>, \<lparr>sID = ''b'', sScore = PInf\<rparr>]"
  have "list_all no_NaN ?xs" and "distinct (idsOf ?xs)" by code_simp+
  then have "\<forall>ys. mset ys = mset ?xs \<longrightarrow> sortScored ys = sortScored ?xs"
    using sortScored_determined [of ?xs] by blast
  moreover have "mset [\<lparr>sID = ''b'', sScore = PInf\<rparr>, \<lparr>sID = ''a'', sScore = Num 1\<rparr>] = mset ?xs" by simp
  ultimately show ?thesis by blast
qed

section \<open>Fusion adds the reciprocal ranks\<close>

lemma map_add_at_lookup:
  "map_of (map_add_at k v m) k' =
     (if k' = k then Some (f64_add (case map_of m k of None \<Rightarrow> Num 0 | Some x \<Rightarrow> x) v) else map_of m k')"
  by (induction k v m rule: map_add_at.induct) auto

lemma map_add_at_keys: "map fst (map_add_at k v m) = map fst m @ (if k \<in> fst ` set m then [] else [k])"
  by (induction k v m rule: map_add_at.induct) auto

lemma rrf_list_lookup_absent: "d \<notin> set ds \<Longrightarrow> map_of (rrf_list k i ds m) d = map_of m d"
  by (induction k i ds m rule: rrf_list.induct) (auto simp: map_add_at_lookup)

lemma rrf_list_lookup:
  "distinct ds \<Longrightarrow> j < length ds \<Longrightarrow>
   map_of (rrf_list k i ds m) (ds ! j) =
     Some (f64_add (case map_of m (ds ! j) of None \<Rightarrow> Num 0 | Some x \<Rightarrow> x) (rrf_weight k (i + j)))"
proof (induction k i ds m arbitrary: j rule: rrf_list.induct)
  case (2 k i d ds m)
  show ?case
  proof (cases j)
    case 0
    then show ?thesis using 2(2) by (simp add: rrf_list_lookup_absent map_add_at_lookup)
  next
    case (Suc j')
    then have "ds ! j' \<noteq> d" using 2(2,3) by (auto simp: in_set_conv_nth)
    then show ?thesis using 2 Suc by (simp add: map_add_at_lookup)
  qed
qed simp

lemma rrf_list_keys: "fst ` set (rrf_list k i ds m) = fst ` set m \<union> set ds"
proof (induction k i ds m rule: rrf_list.induct)
  case (2 k i d ds m)
  have "fst ` set (map_add_at d v m) = insert d (fst ` set m)" for v
    using arg_cong [OF map_add_at_keys [of d v m], of set] by auto
  then show ?case using 2 by auto
qed simp

lemma rrf_list_distinct: "distinct (map fst m) \<Longrightarrow> distinct (map fst (rrf_list k i ds m))"
  by (induction k i ds m rule: rrf_list.induct) (auto simp: map_add_at_keys)

lemma RRF_keys: "fst ` set (RRF k ls) = (\<Union>l\<in>set ls. set l)" and RRF_distinct: "distinct (map fst (RRF k ls))"
proof -
  have "fst ` set (foldl (\<lambda>m l. rrf_list k 0 l m) m ls) = fst ` set m \<union> (\<Union>l\<in>set ls. set l)"
    and "distinct (map fst m) \<Longrightarrow> distinct (map fst (foldl (\<lambda>m l. rrf_list k 0 l m) m ls))" for m
    by (induction ls arbitrary: m) (auto simp: rrf_list_keys rrf_list_distinct)
  from this(1) [of "[]"] this(2) [of "[]"]
  show "fst ` set (RRF k ls) = (\<Union>l\<in>set ls. set l)" and "distinct (map fst (RRF k ls))"
    by (simp_all add: RRF_def)
qed

text \<open>The rank of a document in a list, counted from one.\<close>

definition rank_in :: "string \<Rightarrow> string list \<Rightarrow> nat" where
  "rank_in d l = length (takeWhile (\<lambda>x. x \<noteq> d) l) + 1"

lemma rank_in_nth: "distinct l \<Longrightarrow> j < length l \<Longrightarrow> rank_in (l ! j) l = j + 1"
proof (induction l arbitrary: j)
  case (Cons x l)
  then show ?case by (cases j) (auto simp: rank_in_def)
qed simp

lemma rrf_weight_exact: "0 \<le> k \<Longrightarrow> k + int i + 1 < 2 ^ 63 \<Longrightarrow> rrf_weight k i = f64_div (Num 1) (f64_of_int (k + int i + 1))"
  unfolding rrf_weight_def sint_sbintrunc' by (subst signed_take_bit_int_eq_self) auto

text \<open>C28. Fusing any number of rankings without repetitions gives each document the floating-point sum, in the order of the lists that contain it, of
  the reciprocals 1/(k + rank), where the rank counts from one; a list that does not
  contain it contributes nothing, and a document in no list has no score. This holds as long as \<^verbatim>\<open>k\<close> plus the length of
  a list does not overflow 64 bits.\<close>

theorem RRF_scores:
  assumes "0 \<le> k" and "\<forall>l\<in>set ls. distinct l \<and> k + int (length l) < 2 ^ 63"
  shows "map_of (RRF k ls) d =
    (if \<exists>l\<in>set ls. d \<in> set l
     then Some (foldl f64_add (Num 0)
            (map (\<lambda>l. f64_div (Num 1) (f64_of_int (k + int (rank_in d l)))) (filter (\<lambda>l. d \<in> set l) ls)))
     else None)"
proof -
  let ?w = "\<lambda>l. f64_div (Num 1) (f64_of_int (k + int (rank_in d l)))"
  let ?v = "\<lambda>x. case x of None \<Rightarrow> Num 0 | Some y \<Rightarrow> y"
  have one: "map_of (rrf_list k 0 l m) d = (if d \<in> set l then Some (f64_add (?v (map_of m d)) (?w l)) else map_of m d)"
    if l: "distinct l \<and> k + int (length l) < 2 ^ 63" for l m
  proof (cases "d \<in> set l")
    case True
    then obtain j where j: "j < length l" "l ! j = d" by (auto simp: in_set_conv_nth)
    have "rrf_weight k j = f64_div (Num 1) (f64_of_int (k + int j + 1))"
      using l j(1) by (intro rrf_weight_exact [OF assms(1)]) linarith
    moreover have "k + int (rank_in d l) = k + int j + 1" using rank_in_nth [of l j] l j by simp
    ultimately have "rrf_weight k j = ?w l" by (simp only:)
    then show ?thesis using rrf_list_lookup [of l j k 0 m] l j True by simp
  qed (simp add: rrf_list_lookup_absent)
  have "map_of (foldl (\<lambda>m l. rrf_list k 0 l m) m ls) d =
      (if \<exists>l\<in>set ls. d \<in> set l then Some (foldl f64_add (?v (map_of m d)) (map ?w (filter (\<lambda>l. d \<in> set l) ls))) else map_of m d)" for m
    using assms(2)
  proof (induction ls arbitrary: m)
    case (Cons l ls)
    have "map_of (rrf_list k 0 l m) d = (if d \<in> set l then Some (f64_add (?v (map_of m d)) (?w l)) else map_of m d)"
      using one Cons.prems by simp
    then show ?case using Cons.IH [of "rrf_list k 0 l m"] Cons.prems by (cases "\<exists>l\<in>set ls. d \<in> set l") auto
  qed simp
  from this [of "[]"] show ?thesis by (simp add: RRF_def)
qed

text \<open>The document at rank 3 of one list, rank 1 of another, and absent from a third.\<close>

theorem RRF_scores_witness:
  "map_of (RRF 60 [[''a'', ''b'', ''d''], [''a'', ''x''], [''d'', ''x'']]) ''d'' =
     Some (f64_add (f64_add (Num 0) (f64_div (Num 1) (f64_of_int 63))) (f64_div (Num 1) (f64_of_int 61)))"
  using RRF_scores [of 60 "[[''a'', ''b'', ''d''], [''a'', ''x''], [''d'', ''x'']]" "''d''"] by (simp add: rank_in_def)

text \<open>At the end of the range the sum wraps and the best document gets a negative score.\<close>

lemma RRF_wraps: "rrf_weight (2 ^ 63 - 1) 0 = Num (- 1 / 2 ^ 63)"
  by code_simp

section \<open>The temporal adjustment loses no candidate it should keep\<close>

lemma sortScored_Nil_iff: "sortScored xs = [] \<longleftrightarrow> xs = []"
  by (metis length_0_conv sortScored_length)

lemma TemporalAdjust_nonempty: "cands \<noteq> [] \<Longrightarrow> TemporalAdjust cands timeOf q found opt \<noteq> []"
  by (auto simp: TemporalAdjust_def Let_def sortScored_Nil_iff)

text \<open>The temporal adjustment has its unfiltered fallback: without a date in the question the list is
  unchanged; a boost keeps every candidate, multiplies the scores inside the window and leaves the
  others; the hard filter keeps exactly the candidates inside the window or, if there are none,
  all of them, so a non-empty list never becomes empty. A candidate without a timestamp is never
  inside the window.\<close>

theorem temporal_fallback:
  "TemporalAdjust cands timeOf q False opt = cands \<and>
   (\<not> tHardFilter opt \<longrightarrow>
      mset (idsOf (TemporalAdjust cands timeOf q found opt)) = mset (idsOf cands) \<and>
      (found \<longrightarrow> set (TemporalAdjust cands timeOf q found opt) =
        (\<lambda>c. if inWindow timeOf q (temporal_window opt) (sID c)
             then c\<lparr>sScore := f64_mul (sScore c) (temporal_boost opt)\<rparr> else c) ` set cands)) \<and>
   (tHardFilter opt \<and> found \<longrightarrow>
      set (TemporalAdjust cands timeOf q found opt) =
        (let kept = {c \<in> set cands. inWindow timeOf q (temporal_window opt) (sID c)}
         in if kept = {} then set cands else kept)) \<and>
   (cands \<noteq> [] \<longrightarrow> TemporalAdjust cands timeOf q found opt \<noteq> []) \<and>
   (timeOf i = None \<longrightarrow> \<not> inWindow timeOf q (temporal_window opt) i)"
proof -
  have ids: "mset (idsOf (sortScored xs)) = mset (idsOf xs)" for xs
    by (simp add: idsOf_def)
  show ?thesis
    by (auto simp: TemporalAdjust_def Let_def ids sortScored_Nil_iff inWindow_def [of _ _ _ i] filter_empty_conv)
      (auto simp: idsOf_def comp_def if_distrib cong: if_cong)
qed

theorem temporal_fallback_witness:
  "TemporalAdjust [\<lparr>sID = ''a'', sScore = Num 1\<rparr>] (\<lambda>_. None) 0 True \<lparr>tWindow = 0, tBoost = Num 0, tHardFilter = True\<rparr> \<noteq> []"
  using temporal_fallback [of "[\<lparr>sID = ''a'', sScore = Num 1\<rparr>]" "\<lambda>_. None" 0
      "\<lparr>tWindow = 0, tBoost = Num 0, tHardFilter = True\<rparr>" True] by blast

text \<open>The window test is wrong far from the query time: a candidate 2^63 nanoseconds (about 292
  years) or more before the query time counts as inside every window, because the difference
  saturates at the least duration, whose negation overflows and stays negative.\<close>

theorem far_past_in_window:
  "timeOf i = Some t \<and> t + 2 ^ 63 \<le> q \<longrightarrow> inWindow timeOf q (temporal_window opt) i"
proof
  assume a: "timeOf i = Some t \<and> t + 2 ^ 63 \<le> q"
  then have "time_sub t q = - (2 ^ 63)" by (simp add: time_sub_def)
  moreover have "0 < temporal_window opt" by (simp add: temporal_window_def DefaultTemporalWindow_def)
  ultimately show "inWindow timeOf q (temporal_window opt) i"
    using a by (simp add: inWindow_def neg_duration_def)
qed

theorem far_past_in_window_witness:
  "inWindow (\<lambda>_. Some 0) (2 ^ 63) (temporal_window \<lparr>tWindow = 1, tBoost = Num 0, tHardFilter = True\<rparr>) ''a''"
  using far_past_in_window [of "\<lambda>_. Some 0" "''a''" 0 "2 ^ 63" "\<lparr>tWindow = 1, tBoost = Num 0, tHardFilter = True\<rparr>"]
  by simp

section \<open>The greedy selection\<close>

lemma scan_best_None:
  "scan_best ok score is best bs = None \<Longrightarrow> best = None \<and> (\<forall>i\<in>set is. ok i \<longrightarrow> \<not> f64_lt bs (score i))"
proof (induction "is" arbitrary: best bs)
  case (Cons i "is")
  have "\<not> (ok i \<and> f64_lt bs (score i))" using Cons.IH [of "Some i" "score i"] Cons.prems by auto
  then show ?case using Cons.IH [of best bs] Cons.prems by (auto split: if_splits)
qed simp

lemma scan_best_Some:
  "scan_best ok score is best bs = Some r \<Longrightarrow>
     (best = Some r \<and> (\<forall>i\<in>set is. ok i \<longrightarrow> \<not> f64_lt bs (score i))) \<or>
     (r \<in> set is \<and> ok r \<and> f64_lt bs (score r) \<and> (\<forall>i\<in>set is. ok i \<longrightarrow> \<not> f64_lt (score r) (score i)))"
proof (induction ok score "is" best bs rule: scan_best.induct)
  case (2 ok score i "is" best bs)
  show ?case
  proof (cases "ok i \<and> f64_lt bs (score i)")
    case True
    then have "(i = r \<and> (\<forall>j\<in>set is. ok j \<longrightarrow> \<not> f64_lt (score i) (score j))) \<or>
        (r \<in> set is \<and> ok r \<and> f64_lt (score i) (score r) \<and> (\<forall>j\<in>set is. ok j \<longrightarrow> \<not> f64_lt (score r) (score j)))"
      using 2(2) 2(4) by simp
    then show ?thesis using True f64_lt_trans [of bs "score i" "score r"] f64_lt_asym [of "score i" "score r"] by auto
  next
    case False
    then have "(best = Some r \<and> (\<forall>j\<in>set is. ok j \<longrightarrow> \<not> f64_lt bs (score j))) \<or>
        (r \<in> set is \<and> ok r \<and> f64_lt bs (score r) \<and> (\<forall>j\<in>set is. ok j \<longrightarrow> \<not> f64_lt (score r) (score j)))"
      using 2(1,3,4) by (auto split: if_splits)
    then show ?thesis using False f64_lt_trans [of bs "score r" "score i"] by auto
  qed
qed simp

definition mmr_pick :: "nat \<Rightarrow> f64 list \<Rightarrow> (nat \<Rightarrow> nat \<Rightarrow> f64) \<Rightarrow> string list option \<Rightarrow> f64 \<Rightarrow> MMROptions \<Rightarrow> nat list \<Rightarrow> nat \<Rightarrow> bool" where
  "mmr_pick n rel sim sessions lam opt pre r \<longleftrightarrow>
     r < n \<and> eligible sessions opt pre r \<and> f64_lt NInf (mmr_score rel sim lam pre r) \<and>
     (\<forall>i<n. eligible sessions opt pre i \<longrightarrow> \<not> f64_lt (mmr_score rel sim lam pre r) (mmr_score rel sim lam pre i))"

definition mmr_stuck :: "nat \<Rightarrow> f64 list \<Rightarrow> (nat \<Rightarrow> nat \<Rightarrow> f64) \<Rightarrow> string list option \<Rightarrow> f64 \<Rightarrow> MMROptions \<Rightarrow> nat list \<Rightarrow> bool" where
  "mmr_stuck n rel sim sessions lam opt sel \<longleftrightarrow>
     (\<forall>i<n. eligible sessions opt sel i \<longrightarrow> \<not> f64_lt NInf (mmr_score rel sim lam sel i))"

text \<open>A greedy selection: every element is a pick given those before it.\<close>

inductive greedy :: "nat \<Rightarrow> f64 list \<Rightarrow> (nat \<Rightarrow> nat \<Rightarrow> f64) \<Rightarrow> string list option \<Rightarrow> f64 \<Rightarrow> MMROptions \<Rightarrow> nat list \<Rightarrow> bool"
  for n rel sim sessions lam opt where
  greedy_Nil: "greedy n rel sim sessions lam opt []"
| greedy_snoc: "greedy n rel sim sessions lam opt pre \<Longrightarrow> mmr_pick n rel sim sessions lam opt pre r \<Longrightarrow>
    greedy n rel sim sessions lam opt (pre @ [r])"

inductive_cases greedy_snocE: "greedy n rel sim sessions lam opt (pre @ [r])"

lemma mmr_loop_greedy:
  "greedy n rel sim sessions lam opt sel \<Longrightarrow>
   greedy n rel sim sessions lam opt (mmr_loop m n rel sim sessions lam opt sel) \<and>
   length (mmr_loop m n rel sim sessions lam opt sel) \<le> length sel + m \<and>
   (length (mmr_loop m n rel sim sessions lam opt sel) < length sel + m \<longrightarrow>
      mmr_stuck n rel sim sessions lam opt (mmr_loop m n rel sim sessions lam opt sel))"
proof (induction m arbitrary: sel)
  case (Suc m)
  let ?b = "scan_best (eligible sessions opt sel) (mmr_score rel sim lam sel) [0..<n] None NInf"
  show ?case
  proof (cases ?b)
    case None
    then show ?thesis using Suc.prems scan_best_None [OF None] by (auto simp: mmr_stuck_def)
  next
    case (Some r)
    then have "mmr_pick n rel sim sessions lam opt sel r"
      using scan_best_Some [OF Some] by (auto simp: mmr_pick_def)
    then have "greedy n rel sim sessions lam opt (sel @ [r])" using Suc.prems by (intro greedy_snoc)
    from Suc.IH [OF this] show ?thesis using Some by simp
  qed
qed simp

lemma greedy_sound:
  "greedy n rel sim sessions lam opt sel \<Longrightarrow>
     distinct sel \<and> set sel \<subseteq> {..<n} \<and>
     (0 < mMaxPerSession opt \<longrightarrow> sessions \<noteq> None \<longrightarrow> (\<forall>s. per_session sessions sel s \<le> mMaxPerSession opt))"
  by (induction rule: greedy.induct)
    (auto simp: mmr_pick_def eligible_def per_session_def split: option.splits)

text \<open>Numbers of bounded magnitude, closed under the arithmetic of the objective.\<close>

definition sized :: "int \<Rightarrow> f64 \<Rightarrow> bool" where
  "sized e x \<longleftrightarrow> is_fin x \<and> \<bar>fval x\<bar> \<le> 2 powi e"

lemma rnd64_powi: "0 \<le> e \<Longrightarrow> rnd64 (2 powi e) = 2 powi e"
proof -
  assume e: "0 \<le> e"
  have "ilog2 (2 powi e) = e" by (rule ilog2_eqI) (simp_all add: powi2_less_iff)
  then have "round_pos 53 (-1074) (2 powi e) = 2 powi e"
    using e by (intro binary64.round_pos_exact [of _ 1 e]) (simp_all add: quantum_def)
  then show ?thesis by (simp add: rnd64_def round_to_def)
qed

lemma rnd64_uminus: "rnd64 (- r) = - rnd64 r"
  by (simp add: rnd64_def round_to_def)

lemma mk64_sized:
  assumes "\<bar>r\<bar> \<le> 2 powi e" and "0 \<le> e" and "e < 1024"
  shows "sized e (mk64 n r)"
proof -
  have "rnd64 (- (2 powi e)) = - (2 powi e)" using rnd64_powi [OF assms(2)] by (simp add: rnd64_uminus)
  then have b: "\<bar>rnd64 r\<bar> \<le> 2 powi e"
    using rnd64_mono [of r "2 powi e"] rnd64_mono [of "- (2 powi e)" r] rnd64_powi [OF assms(2)] assms(1) by (simp add: abs_le_iff)
  have "ilog2 \<bar>rnd64 r\<bar> < 1024" if "rnd64 r \<noteq> 0"
  proof -
    have "(2 :: rat) powi ilog2 \<bar>rnd64 r\<bar> \<le> 2 powi e" using ilog2_bounds(1) [of "\<bar>rnd64 r\<bar>"] that b by linarith
    then show ?thesis using assms(3) unfolding powi2_le_iff by simp
  qed
  then show ?thesis using b by (cases "rnd64 r = 0") (auto simp: sized_def mk64_def Let_def is_fin_def is_inf_def)
qed

lemma sized_mul:
  assumes "sized a x" and "sized b y" and "0 \<le> a + b" and "a + b < 1024"
  shows "sized (a + b) (f64_mul x y)"
proof -
  have "\<bar>fval x * fval y\<bar> \<le> 2 powi a * 2 powi b"
    unfolding abs_mult using assms(1,2) by (intro mult_mono) (auto simp: sized_def)
  then have "\<bar>fval x * fval y\<bar> \<le> 2 powi (a + b)" by (simp add: power_int_add)
  from mk64_sized [OF this assms(3,4)] show ?thesis using assms(1,2) by (auto simp: f64_mul_def Let_def sized_def is_fin_def)
qed

lemma sized_sub:
  assumes "sized a x" and "sized a y" and "0 \<le> a" and "a < 1023"
  shows "sized (a + 1) (f64_sub x y)"
proof -
  have y: "is_fin (f64_neg y)" "fval (f64_neg y) = - fval y"
    using assms(2) by (cases y; auto simp: sized_def f64_neg_def is_fin_def is_inf_def)+
  have "\<bar>fval x + fval (f64_neg y)\<bar> \<le> 2 powi (a + 1)" unfolding powi2_Suc y using assms(1,2) by (auto simp: sized_def abs_if split: if_splits)
  from mk64_sized [OF this] assms show ?thesis using y(1) by (auto simp: f64_sub_def f64_add_def sized_def is_fin_def)
qed

lemma sized_mono: "sized a x \<Longrightarrow> a \<le> b \<Longrightarrow> sized b x"
  using powi2_le_iff [of a b] by (auto simp: sized_def intro: order_trans)

lemma sized_above_NInf: "sized e x \<Longrightarrow> f64_lt NInf x"
  by (cases x) (auto simp: sized_def f64_lt_def is_fin_def is_inf_def)

text \<open>Inputs of ordinary size: the relevances, the similarities and the trade-off are finite and not astronomically large.\<close>

definition tame :: "nat \<Rightarrow> f64 list \<Rightarrow> (nat \<Rightarrow> nat \<Rightarrow> f64) \<Rightarrow> f64 \<Rightarrow> bool" where
  "tame n rel sim lam \<longleftrightarrow> sized 100 lam \<and> (\<forall>i<n. sized 100 (rel ! i) \<and> (\<forall>j<n. sized 100 (sim i j)))"

lemma max_sim_sized:
  assumes "\<forall>j\<in>set sel. sized 100 (sim i j)"
  shows "sized 100 (max_sim sim sel i)"
proof -
  have step: "sized 100 (foldl (\<lambda>m j. let s = sim i j in if f64_lt m s then s else m) m js)"
    if "sized 100 m" "\<forall>j\<in>set js. sized 100 (sim i j)" for m js
    using that by (induction js arbitrary: m) (auto simp: Let_def)
  show ?thesis
  proof (cases sel)
    case Nil
    then show ?thesis by (simp add: max_sim_def sized_def is_fin_def is_inf_def)
  next
    case (Cons j js)
    then have "sized 100 (sim i j)" using assms by simp
    moreover from this have "f64_lt NInf (sim i j)" by (rule sized_above_NInf)
    ultimately show ?thesis using step [of "sim i j" js] Cons assms by (simp add: max_sim_def)
  qed
qed

lemma tame_score:
  assumes "tame n rel sim lam" and "i < n" and "set sel \<subseteq> {..<n}"
  shows "f64_lt NInf (mmr_score rel sim lam sel i)"
proof -
  have t: "sized 100 lam" "sized 100 (rel ! i)" "\<forall>j\<in>set sel. sized 100 (sim i j)" using assms by (auto simp: tame_def)
  have "sized 201 (f64_mul lam (rel ! i))" using sized_mul [OF t(1,2)] by (auto intro: sized_mono)
  moreover have "sized 100 (Num 1)" by (simp add: sized_def is_fin_def is_inf_def)
  then have "sized 101 (f64_sub (Num 1) lam)" using sized_sub [of 100 "Num 1" lam] t(1) by simp
  then have "sized 201 (f64_mul (f64_sub (Num 1) lam) (max_sim sim sel i))"
    using sized_mul [of 101 _ 100] max_sim_sized [of sel sim i, OF t(3)] by fastforce
  ultimately have "sized 202 (mmr_score rel sim lam sel i)" using sized_sub [of 201] by (simp add: mmr_score_def)
  then show ?thesis by (rule sized_above_NInf)
qed

text \<open>C11. MMR selects greedily: with slices of equal length it returns, in selection order and with
  their input relevances, candidates at distinct positions, at most \<^verbatim>\<open>k\<close> of them (all positions
  when \<^verbatim>\<open>k\<close> is out of range) and at most \<^verbatim>\<open>MaxPerSession\<close> of any session; each was a best eligible
  candidate given the ones before it; it returns fewer than asked only when no eligible
  candidate is left whose objective is above minus infinity; and when the inputs are finite numbers of ordinary size, only when no eligible
  candidate is left at all.\<close>

theorem MMR_greedy:
  assumes "length rel = length ids" and "\<And>ss. sessions = Some ss \<Longrightarrow> length ss = length ids"
  shows "\<exists>sel. MMR ids rel sim sessions k opt = Some (map (\<lambda>i. \<lparr>sID = ids ! i, sScore = rel ! i\<rparr>) sel) \<and>
    greedy (length ids) rel sim sessions (mmr_lambda opt) opt sel \<and>
    distinct sel \<and> set sel \<subseteq> {..<length ids} \<and> length sel \<le> mmr_depth k (length ids) \<and>
    (length sel < mmr_depth k (length ids) \<longrightarrow> mmr_stuck (length ids) rel sim sessions (mmr_lambda opt) opt sel) \<and>
    (length sel < mmr_depth k (length ids) \<and> tame (length ids) rel sim (mmr_lambda opt) \<longrightarrow>
       (\<forall>i<length ids. \<not> eligible sessions opt sel i)) \<and>
    (0 < mMaxPerSession opt \<and> sessions \<noteq> None \<longrightarrow> (\<forall>s. per_session sessions sel s \<le> mMaxPerSession opt))"
proof -
  let ?n = "length ids" and ?d = "mmr_depth k (length ids)"
  let ?sel = "mmr_loop ?d ?n rel sim sessions (mmr_lambda opt) opt []"
  have m: "MMR ids rel sim sessions k opt = Some (map (\<lambda>i. \<lparr>sID = ids ! i, sScore = rel ! i\<rparr>) ?sel)"
    using assms(1,2) by (auto simp: MMR_def Let_def split: option.splits)
  note l = mmr_loop_greedy [OF greedy_Nil, of ?n rel sim sessions "mmr_lambda opt" opt ?d]
  then have g: "greedy ?n rel sim sessions (mmr_lambda opt) opt ?sel" by simp
  have stuck: "length ?sel < ?d \<longrightarrow> mmr_stuck ?n rel sim sessions (mmr_lambda opt) opt ?sel" using l by simp
  have "set ?sel \<subseteq> {..<?n}" using greedy_sound [OF g] by simp
  then have "\<not> eligible sessions opt ?sel i" if "length ?sel < ?d" "tame ?n rel sim (mmr_lambda opt)" "i < ?n" for i
    using stuck that tame_score [OF that(2,3)] by (auto simp: mmr_stuck_def)
  then show ?thesis using m l stuck greedy_sound [OF g] by (intro exI [of _ ?sel]) auto
qed

text \<open>Three candidates of one session, which may contribute two: the third stays out. And a NaN relevance stops
  the selection although its candidate is eligible.\<close>

theorem MMR_greedy_witness:
  "\<exists>sel. MMR [''a'', ''b'', ''c''] [Num 1, Num 1, Num (1 / 2)] (\<lambda>_ _. Num 0) (Some [''s'', ''s'', ''s'']) 3 \<lparr>mLambda = Num 0, mMaxPerSession = 2\<rparr> =
     Some (map (\<lambda>i. \<lparr>sID = [''a'', ''b'', ''c''] ! i, sScore = [Num 1, Num 1, Num (1 / 2)] ! i\<rparr>) sel) \<and> distinct sel \<and> length sel = 2 \<and>
     (\<forall>i<3. \<not> eligible (Some [''s'', ''s'', ''s'']) \<lparr>mLambda = Num 0, mMaxPerSession = 2\<rparr> sel i)"
proof -
  let ?ids = "[''a'', ''b'', ''c'']" and ?rel = "[Num 1, Num 1, Num (1 / 2)]" and ?ss = "Some [''s'', ''s'', ''s'']"
  let ?opt = "\<lparr>mLambda = Num 0, mMaxPerSession = 2\<rparr>"
  have r: "MMR ?ids ?rel (\<lambda>_ _. Num 0) ?ss 3 ?opt = Some [\<lparr>sID = ''a'', sScore = Num 1\<rparr>, \<lparr>sID = ''b'', sScore = Num 1\<rparr>]" by code_simp
  have d: "mmr_depth 3 (length ?ids) = 3" by code_simp
  have lam: "is_fin (mmr_lambda ?opt)" "\<bar>fval (mmr_lambda ?opt)\<bar> \<le> 1" by code_simp+
  have big: "(1 :: rat) \<le> 2 powi 100" by (simp add: power_int_def)
  have "sized 100 (mmr_lambda ?opt)" using lam big by (simp add: sized_def)
  moreover have "sized 100 (?rel ! i)" if "i < 3" for i
    using that big by (auto simp: sized_def is_fin_def is_inf_def less_Suc_eq numeral_3_eq_3)
  ultimately have t: "tame (length ?ids) ?rel (\<lambda>_ _. Num 0) (mmr_lambda ?opt)"
    by (simp add: tame_def sized_def [of _ "Num 0"] is_fin_def is_inf_def)
  obtain sel where sel: "MMR ?ids ?rel (\<lambda>_ _. Num 0) ?ss 3 ?opt = Some (map (\<lambda>i. \<lparr>sID = ?ids ! i, sScore = ?rel ! i\<rparr>) sel)" "distinct sel"
    "length sel < 3 \<and> tame (length ?ids) ?rel (\<lambda>_ _. Num 0) (mmr_lambda ?opt) \<longrightarrow> (\<forall>i<3. \<not> eligible ?ss ?opt sel i)"
    using MMR_greedy [of ?rel ?ids ?ss "\<lambda>_ _. Num 0" 3 ?opt] d by auto
  have "length sel = 2" using sel(1) r by (auto dest: arg_cong [of _ _ length])
  then show ?thesis using sel t by auto
qed

lemma MMR_stops_at_NaN:
  "MMR [''a'', ''b''] [Num 1, NaN] (\<lambda>_ _. Num 0) None 2 \<lparr>mLambda = Num 0, mMaxPerSession = 0\<rparr> = Some [\<lparr>sID = ''a'', sScore = Num 1\<rparr>]"
  "eligible None \<lparr>mLambda = Num 0, mMaxPerSession = 0\<rparr> [0] 1"
  by code_simp+

end
