(* ===== verification/Pipeline.thy ===== *)
theory Pipeline
  imports Utf8 Ranking Vector
begin

text \<open>
  The text pipeline (\<^verbatim>\<open>internal/pipeline\<close>): whitespace collapsing, normalisation, the embedding
  format, tokenisation and the assembly of rounds. What is not in the repository is an argument,
  collected in a record: NFKC normalisation, the Snowball stemmer, and, of the Unicode tables, the
  lower case mapping and the letter and number classes.
\<close>

section \<open>Normalisation\<close>

record text_env =
  NFKC :: "string \<Rightarrow> string"
  ToLower :: "string \<Rightarrow> string"
  is_letter :: "rune \<Rightarrow> bool"
  is_number :: "rune \<Rightarrow> bool"
  stem :: "string \<Rightarrow> string"

text \<open>The loop of \<open>collapseWhitespace\<close>: \<open>b\<close> is the builder, \<open>inSpace\<close> the flag.\<close>

fun collapse_loop :: "bool \<Rightarrow> rune list \<Rightarrow> rune list \<Rightarrow> rune list" where
  "collapse_loop inSpace b [] = b"
| "collapse_loop inSpace b (r # rs) =
     (if IsSpace r then collapse_loop True b rs
      else collapse_loop False ((if inSpace \<and> b \<noteq> [] then b @ [32] else b) @ [r]) rs)"

definition collapseWhitespace :: "string \<Rightarrow> string" where
  "collapseWhitespace s = of_runes (collapse_loop False [] (runes s))"

definition Normalize :: "text_env \<Rightarrow> string \<Rightarrow> string" where
  "Normalize e s = collapseWhitespace (ToLower e (NFKC e s))"

section \<open>Tokenisation\<close>

definition stopword_list :: "string list" where
  "stopword_list =
     [''i'', ''me'', ''my'', ''myself'', ''we'', ''our'', ''ours'', ''ourselves'', ''you'', ''your'',
      ''yours'', ''yourself'', ''yourselves'', ''he'', ''him'', ''his'', ''himself'', ''she'', ''her'',
      ''hers'', ''herself'', ''it'', ''its'', ''itself'', ''they'', ''them'', ''their'', ''theirs'',
      ''themselves'', ''what'', ''which'', ''who'', ''whom'', ''this'', ''that'', ''these'', ''those'',
      ''am'', ''is'', ''are'', ''was'', ''were'', ''be'', ''been'', ''being'', ''have'', ''has'',
      ''had'', ''having'', ''do'', ''does'', ''did'', ''doing'', ''would'', ''should'', ''could'',
      ''ought'', ''a'', ''an'', ''the'', ''and'', ''but'', ''if'', ''or'', ''because'', ''as'',
      ''until'', ''while'', ''of'', ''at'', ''by'', ''for'', ''with'', ''about'', ''against'',
      ''between'', ''into'', ''through'', ''during'', ''before'', ''after'', ''above'', ''below'',
      ''to'', ''from'', ''up'', ''down'', ''in'', ''out'', ''on'', ''off'', ''over'', ''under'',
      ''again'', ''further'', ''then'', ''once'', ''here'', ''there'', ''when'', ''where'', ''why'',
      ''how'', ''all'', ''any'', ''both'', ''each'', ''few'', ''more'', ''most'', ''other'', ''some'',
      ''such'', ''no'', ''nor'', ''not'', ''only'', ''own'', ''same'', ''so'', ''than'', ''too'',
      ''very'', ''can'', ''will'', ''just'', ''don'', ''now'', ''s'', ''t'', ''m'', ''d'', ''ll'',
      ''re'', ''ve'', ''ain'', ''aren'', ''couldn'', ''didn'', ''doesn'', ''hadn'', ''hasn'',
      ''haven'', ''isn'', ''mustn'', ''needn'', ''shan'', ''shouldn'', ''wasn'', ''weren'', ''won'',
      ''wouldn'']"

definition stopwords :: "string \<Rightarrow> bool" where
  "stopwords w \<longleftrightarrow> w \<in> set stopword_list"

definition Tokenize :: "text_env \<Rightarrow> string \<Rightarrow> string list" where
  "Tokenize e s =
     (let fields = FieldsFunc (\<lambda>r. \<not> is_letter e r \<and> \<not> is_number e r) (Normalize e s)
      in filter (\<lambda>w. w \<noteq> []) (map (stem e) (filter (\<lambda>w. \<not> stopwords w) fields)))"

section \<open>Rounds\<close>

record Turn =
  tuSessionID :: string
  tuTurnID :: string
  tuSpeaker :: string
  tuText :: string
  tuTS :: "time option"

record Round =
  roRoundID :: string
  roSessionID :: string
  roTurns :: "Turn list"
  roTS :: "time option"

definition TurnIDs :: "Round \<Rightarrow> string list" where
  "TurnIDs r = map tuTurnID (roTurns r)"

definition Round_Text :: "Round \<Rightarrow> string" where
  "Round_Text r = join_with [char_of (10 :: nat)] (map (\<lambda>t. tuSpeaker t @ '': '' @ tuText t) (roTurns r))"

definition add_turn :: "Round list \<Rightarrow> Turn \<Rightarrow> Round list" where
  "add_turn rounds t =
     (let new = rounds @ [\<lparr>roRoundID = tuSessionID t @ '':round:'' @ dec (length rounds),
                           roSessionID = tuSessionID t, roTurns = [t], roTS = tuTS t\<rparr>]
      in if rounds = [] then new
         else let lst = last rounds in
           if length (roTurns lst) < 2 \<and> roSessionID lst = tuSessionID t \<and>
              tuSpeaker (roTurns lst ! 0) \<noteq> tuSpeaker t
           then butlast rounds @ [lst\<lparr>roTurns := roTurns lst @ [t]\<rparr>]
           else new)"

definition AssembleRounds :: "Turn list \<Rightarrow> Round list" where
  "AssembleRounds turns = foldl add_turn [] turns"

section \<open>What normalisation yields\<close>

lemma join_with_snoc: "ws \<noteq> [] \<Longrightarrow> join_with sep (ws @ [w]) = join_with sep ws @ sep @ w"
  by (induction sep ws rule: join_with.induct) auto

lemma join_with_eq_Nil: "[] \<notin> set ws \<Longrightarrow> join_with sep ws = [] \<longleftrightarrow> ws = []"
  by (cases ws rule: list.exhaust; cases "tl ws") auto

text \<open>The loop with a current word \<open>cur\<close> and the finished words \<open>ws\<close> in the builder is the join of the
  remaining fields.\<close>

lemma collapse_loop_fields:
  "[] \<notin> set ws \<Longrightarrow>
   collapse_loop True (join_with [32] ws) rs = join_with [32] (ws @ fields_loop IsSpace [] rs) \<and>
   (cur \<noteq> [] \<longrightarrow> collapse_loop False (join_with [32] (ws @ [cur])) rs =
      join_with [32] (ws @ fields_loop IsSpace cur rs))"
proof (induction rs arbitrary: ws cur)
  case (Cons r rs)
  have ne: "join_with [32] ws \<noteq> [] \<longleftrightarrow> ws \<noteq> []" using join_with_eq_Nil [OF Cons.prems, of "[32]"] by simp
  have word: "(if join_with [32] ws \<noteq> [] then join_with [32] ws @ [32] else join_with [32] ws) @ [r] =
      join_with [32] (ws @ [[r]])"
    using ne by (cases "ws = []") (simp_all add: join_with_snoc)
  have longer: "join_with [32] (ws @ [cur]) @ [r] = join_with [32] (ws @ [cur @ [r]])"
    by (cases "ws = []") (simp_all add: join_with_snoc)
  have t: "collapse_loop True (join_with [32] ws) rs = join_with [32] (ws @ fields_loop IsSpace [] rs)"
    using Cons.IH [OF Cons.prems] by blast
  have f: "collapse_loop False (join_with [32] (ws @ [c])) rs = join_with [32] (ws @ fields_loop IsSpace c rs)"
    if "c \<noteq> []" for c
    using Cons.IH [OF Cons.prems] that by blast
  have t': "collapse_loop True (join_with [32] (ws @ [cur])) rs =
      join_with [32] (ws @ cur # fields_loop IsSpace [] rs)" if "cur \<noteq> []"
    using Cons.IH [of "ws @ [cur]"] Cons.prems that by simp
  show ?case
  proof (cases "IsSpace r")
    case True
    then show ?thesis using t t' by simp
  next
    case False
    then show ?thesis using word longer f [of "[r]"] f [of "cur @ [r]"] by simp
  qed
qed simp

lemma collapse_loop_start: "collapse_loop False [] rs = join_with [32] (fields_loop IsSpace [] rs)"
proof (cases rs)
  case (Cons r rs')
  then show ?thesis
    using collapse_loop_fields [of "[]" rs' "[r]"] by simp
qed simp

lemma fields_loop_set: "w \<in> set (fields_loop P cur rs) \<Longrightarrow> set w \<subseteq> set cur \<union> set rs"
proof (induction rs arbitrary: cur)
  case (Cons r rs)
  show ?case
  proof (cases "P r")
    case True
    then have "w = cur \<or> w \<in> set (fields_loop P [] rs)" using Cons.prems by (auto split: if_splits)
    then show ?thesis using Cons.IH [of "[]"] by auto
  next
    case False
    then show ?thesis using Cons.IH [of "cur @ [r]"] Cons.prems by simp
  qed
qed (simp split: if_splits)

lemma join_with_set: "x \<in> set (join_with sep ws) \<Longrightarrow> x \<in> set sep \<or> (\<exists>w\<in>set ws. x \<in> set w)"
  by (induction sep ws rule: join_with.induct) auto

lemma fields_loop_words:
  "\<forall>x\<in>set cur. \<not> P x \<Longrightarrow> w \<in> set (fields_loop P cur rs) \<Longrightarrow> w \<noteq> [] \<and> (\<forall>x\<in>set w. \<not> P x)"
proof (induction rs arbitrary: cur)
  case (Cons r rs)
  show ?case
  proof (cases "P r")
    case True
    then have "w = cur \<and> cur \<noteq> [] \<or> w \<in> set (fields_loop P [] rs)"
      using Cons.prems(2) by (simp split: if_splits)
    moreover have "w \<in> set (fields_loop P [] rs) \<Longrightarrow> w \<noteq> [] \<and> (\<forall>x\<in>set w. \<not> P x)"
      by (rule Cons.IH) simp_all
    ultimately show ?thesis using Cons.prems(1) by blast
  next
    case False
    then show ?thesis using Cons.prems by (intro Cons.IH [of "cur @ [r]"]) auto
  qed
qed (simp split: if_splits)

lemma fields_loop_word:
  "\<forall>x\<in>set w. \<not> P x \<Longrightarrow> fields_loop P cur (w @ rs) = fields_loop P (cur @ w) rs"
  by (induction w arbitrary: cur) auto

lemma fields_loop_join:
  "\<forall>w\<in>set ws. w \<noteq> [] \<and> (\<forall>x\<in>set w. \<not> P x) \<Longrightarrow> P s \<Longrightarrow> fields_loop P [] (join_with [s] ws) = ws"
proof (induction "[s]" ws rule: join_with.induct)
  case (2 w)
  then show ?case using fields_loop_word [of w P "[]" "[]"] by simp
next
  case (3 w v ws)
  then show ?case using fields_loop_word [of w P "[]" "s # join_with [s] (v # ws)"] by simp
qed simp

lemma normal_scalar: "r \<in> set (join_with [32] (fields_loop IsSpace [] (runes s))) \<Longrightarrow> scalar r"
proof -
  assume "r \<in> set (join_with [32] (fields_loop IsSpace [] (runes s)))"
  from join_with_set [OF this] have "r = 32 \<or> r \<in> set (runes s)"
    using fields_loop_set [of _ IsSpace "[]" "runes s"] by auto
  then show ?thesis using runes_scalar by (auto simp: scalar_def)
qed

lemma runes_collapse: "runes (collapseWhitespace s) = join_with [32] (fields_loop IsSpace [] (runes s))"
  unfolding collapseWhitespace_def collapse_loop_start
  by (rule runes_of_runes) (use normal_scalar in blast)

lemma collapse_valid: "valid_utf8 (collapseWhitespace s)"
  unfolding collapseWhitespace_def collapse_loop_start
  by (rule valid_of_runes) (use normal_scalar in blast)

lemma collapse_idem: "collapseWhitespace (collapseWhitespace s) = collapseWhitespace s"
proof -
  have "fields_loop IsSpace [] (runes (collapseWhitespace s)) = fields_loop IsSpace [] (runes s)"
    unfolding runes_collapse
    by (rule fields_loop_join) (use fields_loop_words [of "[]" IsSpace] in \<open>auto simp: IsSpace_def\<close>)
  then show ?thesis unfolding collapseWhitespace_def collapse_loop_start by (simp only:)
qed

text \<open>C31. Whatever the bytes of the text, \<open>collapseWhitespace\<close> returns valid UTF-8 whose runes are the
  white-space separated words of the text joined by single spaces (no leading, trailing or doubled
  white space), and it leaves such a text as it is.\<close>

theorem collapseWhitespace_normal_form:
  "valid_utf8 (collapseWhitespace s) \<and>
   runes (collapseWhitespace s) = join_with [32] (fields_loop IsSpace [] (runes s)) \<and>
   (\<forall>w\<in>set (fields_loop IsSpace [] (runes s)). w \<noteq> [] \<and> (\<forall>x\<in>set w. \<not> IsSpace x)) \<and>
   collapseWhitespace (collapseWhitespace s) = collapseWhitespace s"
  using collapse_valid runes_collapse collapse_idem fields_loop_words [of "[]" IsSpace _ "runes s"] by auto

text \<open>A byte that is not UTF-8 comes out as the three bytes of U+FFFD.\<close>

theorem collapseWhitespace_normal_form_witness:
  "valid_utf8 (collapseWhitespace (''  a   '' @ [CHR 0xFF, CHR '' ''])) \<and> \<not> valid_utf8 (''  a   '' @ [CHR 0xFF, CHR '' '']) \<and>
   runes (collapseWhitespace (''  a   '' @ [CHR 0xFF, CHR '' ''])) = [97, 32, 65533]"
proof -
  have "\<not> valid_utf8 (''  a   '' @ [CHR 0xFF, CHR '' ''])" by code_simp
  moreover have "runes (collapseWhitespace (''  a   '' @ [CHR 0xFF, CHR '' ''])) = [97, 32, 65533]" by code_simp
  ultimately show ?thesis using collapseWhitespace_normal_form [of "''  a   '' @ [CHR 0xFF, CHR '' '']"] by blast
qed

section \<open>Rounds cover the dialogue\<close>

definition joins :: "Round \<Rightarrow> Turn \<Rightarrow> bool" where
  "joins r t \<longleftrightarrow> length (roTurns r) < 2 \<and> roSessionID r = tuSessionID t \<and> tuSpeaker (hd (roTurns r)) \<noteq> tuSpeaker t"

definition round_ok :: "Round \<Rightarrow> bool" where
  "round_ok r \<longleftrightarrow>
     (case roTurns r of
        [a] \<Rightarrow> roSessionID r = tuSessionID a \<and> roTS r = tuTS a
      | [a, b] \<Rightarrow> roSessionID r = tuSessionID a \<and> roTS r = tuTS a \<and>
                  tuSessionID b = tuSessionID a \<and> tuSpeaker b \<noteq> tuSpeaker a
      | _ \<Rightarrow> False)"

definition new_round :: "nat \<Rightarrow> Turn \<Rightarrow> Round" where
  "new_round n t = \<lparr>roRoundID = tuSessionID t @ '':round:'' @ dec n, roSessionID = tuSessionID t,
                    roTurns = [t], roTS = tuTS t\<rparr>"

lemma round_ok_new: "round_ok (new_round n t)"
  by (simp add: round_ok_def new_round_def)

lemma round_ok_join: "round_ok r \<Longrightarrow> joins r t \<Longrightarrow> round_ok (r\<lparr>roTurns := roTurns r @ [t]\<rparr>)"
  by (cases "roTurns r" rule: remdups_adj.cases) (auto simp: round_ok_def joins_def split: list.splits)

definition rounds_ok :: "Turn list \<Rightarrow> Round list \<Rightarrow> bool" where
  "rounds_ok turns rs \<longleftrightarrow>
     concat (map roTurns rs) = turns \<and> list_all round_ok rs \<and>
     successively (\<lambda>a b. \<not> joins a (hd (roTurns b))) rs \<and>
     map roRoundID rs = map (\<lambda>(i, r). roSessionID r @ '':round:'' @ dec i) (enumerate 0 rs)"

lemma add_turn_cases:
  "round_ok (last rs) \<or> rs = [] \<Longrightarrow>
   add_turn rs t = (if rs \<noteq> [] \<and> joins (last rs) t
     then butlast rs @ [last rs\<lparr>roTurns := roTurns (last rs) @ [t]\<rparr>]
     else rs @ [new_round (length rs) t])"
proof -
  assume "round_ok (last rs) \<or> rs = []"
  then have "rs \<noteq> [] \<Longrightarrow> roTurns (last rs) \<noteq> []" by (auto simp: round_ok_def)
  then have "rs \<noteq> [] \<Longrightarrow> roTurns (last rs) ! 0 = hd (roTurns (last rs))" by (simp add: hd_conv_nth)
  then show ?thesis by (auto simp: add_turn_def Let_def joins_def new_round_def)
qed

lemma rounds_ok_add:
  assumes ok: "rounds_ok turns rs"
  shows "rounds_ok (turns @ [t]) (add_turn rs t)"
proof (cases "rs = []")
  case True
  then show ?thesis
    using ok round_ok_new [of 0 t] by (simp add: add_turn_cases rounds_ok_def) (simp add: new_round_def)
next
  case False
  then obtain xs r where rs: "rs = xs @ [r]" by (metis rev_exhaust)
  have r: "round_ok r" using ok rs by (simp add: rounds_ok_def)
  then have ne: "roTurns r \<noteq> []" by (auto simp: round_ok_def)
  show ?thesis
  proof (cases "joins r t")
    case True
    then show ?thesis
      using ok r rs ne round_ok_join [OF r True]
      by (simp add: add_turn_cases rounds_ok_def enumerate_append_eq successively_append_iff)
  next
    case False
    then show ?thesis
      using ok r rs round_ok_new [of "length rs" t]
      by (simp add: add_turn_cases rounds_ok_def enumerate_append_eq successively_append_iff)
        (simp add: new_round_def)
  qed
qed

lemma AssembleRounds_ok: "rounds_ok turns (AssembleRounds turns)"
proof (induction turns rule: rev_induct)
  case Nil
  then show ?case by (simp add: AssembleRounds_def rounds_ok_def)
next
  case (snoc t turns)
  then show ?case using rounds_ok_add [OF snoc] by (simp add: AssembleRounds_def)
qed

lemma after_colon: "x @ '':'' @ a = y @ '':'' @ b \<Longrightarrow> CHR '':'' \<notin> set a \<Longrightarrow> CHR '':'' \<notin> set b \<Longrightarrow> a = b"
proof -
  assume e: "x @ '':'' @ a = y @ '':'' @ b" and na: "CHR '':'' \<notin> set a" and nb: "CHR '':'' \<notin> set b"
  have tail: "rev (takeWhile (\<lambda>c. c \<noteq> CHR '':'') (rev (u @ '':'' @ v))) = v" if "CHR '':'' \<notin> set v" for u v
  proof -
    have "takeWhile (\<lambda>c. c \<noteq> CHR '':'') (rev v @ CHR '':'' # rev u) = rev v"
      using that by (subst takeWhile_append2) auto
    then show ?thesis by simp
  qed
  show ?thesis using tail [OF na, of x] tail [OF nb, of y] unfolding e by (rule trans [OF sym])
qed

lemma round_ids_distinct: "rounds_ok turns rs \<Longrightarrow> distinct (map roRoundID rs)"
proof -
  assume ok: "rounds_ok turns rs"
  have id: "roRoundID (rs ! i) = (roSessionID (rs ! i) @ '':round'') @ '':'' @ dec i" if "i < length rs" for i
  proof -
    have "map roRoundID rs ! i = map (\<lambda>(i, r). roSessionID r @ '':round:'' @ dec i) (enumerate 0 rs) ! i"
      using ok by (simp add: rounds_ok_def)
    then show ?thesis using that by (simp add: nth_enumerate_eq)
  qed
  have "i = j" if "i < length rs" "j < length rs" "roRoundID (rs ! i) = roRoundID (rs ! j)" for i j
  proof -
    have "dec i = dec j"
      using after_colon [OF _ dec_no_colon dec_no_colon] that(3) unfolding id [OF that(1)] id [OF that(2)] by blast
    then show ?thesis by (simp add: dec_inj)
  qed
  then show ?thesis by (auto simp: distinct_conv_nth)
qed

text \<open>C21. \<open>AssembleRounds\<close> loses, duplicates and reorders no turn: the turns of its rounds, in order, are
  the input. Every round has one turn, or two turns of one session by different speakers, and carries
  the session and the timestamp of its first turn; the first turn of a round could not have joined the
  round before it; and no two rounds have the same id.\<close>

theorem AssembleRounds_partition:
  "concat (map roTurns (AssembleRounds turns)) = turns \<and>
   list_all round_ok (AssembleRounds turns) \<and>
   successively (\<lambda>a b. \<not> joins a (hd (roTurns b))) (AssembleRounds turns) \<and>
   distinct (map roRoundID (AssembleRounds turns))"
  using AssembleRounds_ok [of turns] round_ids_distinct [OF AssembleRounds_ok [of turns]]
  by (simp add: rounds_ok_def)

end
