(* ===== verification/Dates.thy ===== *)
theory Dates
  imports Pipeline
begin

text \<open>
  Rule-based dates (\<^verbatim>\<open>internal/pipeline/dates.go\<close>) and the date prefix of \<^verbatim>\<open>FormatForEmbedding\<close>
  (\<^verbatim>\<open>normalize.go\<close>). A \<^verbatim>\<open>time.Time\<close> in UTC is the number of nanoseconds since the zero time, the start of
  1 January of year 1. The part of \<^verbatim>\<open>time.Parse\<close> the seven layouts reach is translated: a layout is the
  sequence of literal and field chunks it splits into. \<^verbatim>\<open>dateparse.ParseStrict\<close> and the \<^verbatim>\<open>when\<close>
  parser are not in the repository and are arguments; the latter returns no result (\<open>None\<close>), an error, or
  the resolved time.
\<close>

section \<open>The calendar\<close>

definition leap :: "int \<Rightarrow> bool" where
  "leap y \<longleftrightarrow> y mod 4 = 0 \<and> (y mod 100 \<noteq> 0 \<or> y mod 400 = 0)"

definition month_days :: "int list" where
  "month_days = [31, 28, 31, 30, 31, 30, 31, 31, 30, 31, 30, 31]"

text \<open>Months count from 0 here.\<close>

definition daysIn :: "int \<Rightarrow> nat \<Rightarrow> int" where
  "daysIn y m = (if m = 1 \<and> leap y then 29 else month_days ! m)"

fun days_before_month :: "int \<Rightarrow> nat \<Rightarrow> int" where
  "days_before_month y 0 = 0"
| "days_before_month y (Suc m) = days_before_month y m + daysIn y m"

definition days_before_year :: "int \<Rightarrow> int" where
  "days_before_year y = 365 * (y - 1) + (y - 1) div 4 - (y - 1) div 100 + (y - 1) div 400"

definition day_number :: "int \<Rightarrow> nat \<Rightarrow> int \<Rightarrow> int" where
  "day_number y m d = days_before_year y + days_before_month y m + (d - 1)"

definition ns_day :: int where "ns_day = 86400000000000"
definition ns_minute :: int where "ns_minute = 60000000000"

definition Date :: "int \<Rightarrow> nat \<Rightarrow> int \<Rightarrow> int \<Rightarrow> int \<Rightarrow> time" where
  "Date y m d hour mn = day_number y m d * ns_day + (hour * 60 + mn) * ns_minute"

text \<open>The calendar date of a day number: the year by 400, 100, 4 and 1 year cycles, as
  \<^verbatim>\<open>Time.Date\<close> computes it, then the month by counting down.\<close>

definition year_of :: "int \<Rightarrow> int \<times> int" where
  "year_of d =
     (let n400 = d div 146097; d1 = d mod 146097;
          n100 = min 3 (d1 div 36524); d2 = d1 - n100 * 36524;
          n4 = d2 div 1461; d3 = d2 mod 1461;
          n1 = min 3 (d3 div 365)
      in (400 * n400 + 100 * n100 + 4 * n4 + n1 + 1, d3 - n1 * 365))"

fun month_of :: "int \<Rightarrow> nat \<Rightarrow> int \<Rightarrow> nat \<times> int" where
  "month_of y 0 yday = (0, yday + 1)"
| "month_of y (Suc m) yday =
     (if days_before_month y (Suc m) \<le> yday then (Suc m, yday - days_before_month y (Suc m) + 1)
      else month_of y m yday)"

definition civil :: "int \<Rightarrow> int \<times> nat \<times> int" where
  "civil d = (let (y, yday) = year_of d in (y, month_of y 11 yday))"

text \<open>\<^verbatim>\<open>Format("2006-01-02")\<close>: at least four digits of year, a sign before a negative one.\<close>

definition pad :: "nat \<Rightarrow> nat \<Rightarrow> string" where
  "pad w n = replicate (w - length (dec n)) (CHR ''0'') @ dec n"

definition year_digits :: "int \<Rightarrow> string" where
  "year_digits y = (if y < 0 then CHR ''-'' # pad 4 (nat (- y)) else pad 4 (nat y))"

definition format_day :: "int \<Rightarrow> string" where
  "format_day n =
     (let (y, m, d) = civil n
      in year_digits y @ ''-'' @ pad 2 (Suc m) @ ''-'' @ pad 2 (nat d))"

definition FormatForEmbedding :: "time option \<Rightarrow> string \<Rightarrow> string \<Rightarrow> string" where
  "FormatForEmbedding ts speaker content =
     (case ts of Some t \<Rightarrow> ''['' @ format_day (t div ns_day) @ ''] '' | None \<Rightarrow> '''') @
     (if speaker \<noteq> '''' then speaker @ '': '' else '''') @
     content"

section \<open>Layouts\<close>

datatype layout_chunk = Lit string | Hour12 | Hour | ZeroMinute | LowerPM | UpperPM | Day | LongMonth | LongYear

text \<open>The layouts, each as the chunks \<^verbatim>\<open>time.Parse\<close> splits it into.\<close>

definition locomoLayouts :: "layout_chunk list list" where
  "locomoLayouts =
     [[Hour12, Lit '':'', ZeroMinute, Lit '' '', LowerPM, Lit '' on '', Day, Lit '' '', LongMonth, Lit '', '', LongYear],
      [Hour12, Lit '':'', ZeroMinute, Lit '' '', UpperPM, Lit '' on '', Day, Lit '' '', LongMonth, Lit '', '', LongYear],
      [Hour12, Lit '':'', ZeroMinute, Lit '' '', LowerPM, Lit '' on '', Day, Lit '' '', LongMonth, Lit '' '', LongYear],
      [Hour12, Lit '':'', ZeroMinute, Lit '' '', UpperPM, Lit '' on '', Day, Lit '' '', LongMonth, Lit '' '', LongYear],
      [Hour, Lit '':'', ZeroMinute, Lit '' on '', Day, Lit '' '', LongMonth, Lit '', '', LongYear],
      [Hour, Lit '':'', ZeroMinute, Lit '' on '', Day, Lit '' '', LongMonth, Lit '' '', LongYear],
      [Day, Lit '' '', LongMonth, Lit '', '', LongYear]]"

definition is_digit :: "char \<Rightarrow> bool" where
  "is_digit c \<longleftrightarrow> 48 \<le> byte_of c \<and> byte_of c \<le> 57"

definition digit_val :: "char \<Rightarrow> int" where
  "digit_val c = byte_of c - 48"

definition cutspace :: "string \<Rightarrow> string" where
  "cutspace s = dropWhile (\<lambda>c. c = CHR '' '') s"

text \<open>\<^verbatim>\<open>skip\<close>: a run of blanks in the layout skips any run of blanks of the value, but does not match
  another character.\<close>

function skip_lit :: "string \<Rightarrow> string \<Rightarrow> string option" where
  "skip_lit v [] = Some v"
| "skip_lit v (p # ps) =
     (if p = CHR '' '' then
        (if v \<noteq> [] \<and> hd v \<noteq> CHR '' '' then None else skip_lit (cutspace v) (cutspace ps))
      else case v of c # cs \<Rightarrow> if c = p then skip_lit cs ps else None | [] \<Rightarrow> None)"
  by pat_completeness auto
termination
  by (relation "measure (\<lambda>(v, p). length p)") (auto simp: cutspace_def less_Suc_eq_le length_dropWhile_le)

definition getnum :: "bool \<Rightarrow> string \<Rightarrow> (int \<times> string) option" where
  "getnum fixed s =
     (case s of
        a # rest \<Rightarrow>
          if \<not> is_digit a then None
          else (case rest of
            b # rest' \<Rightarrow> if is_digit b then Some (digit_val a * 10 + digit_val b, rest')
                          else if fixed then None else Some (digit_val a, rest)
          | [] \<Rightarrow> if fixed then None else Some (digit_val a, rest))
      | [] \<Rightarrow> None)"

definition longMonthNames :: "string list" where
  "longMonthNames = [''January'', ''February'', ''March'', ''April'', ''May'', ''June'', ''July'', ''August'',
     ''September'', ''October'', ''November'', ''December'']"

text \<open>\<^verbatim>\<open>match\<close> folds the case of ASCII letters.\<close>

definition lower_bit :: "int \<Rightarrow> int" where
  "lower_bit b = (if b div 32 mod 2 = 1 then b else b + 32)"

definition match_char :: "char \<Rightarrow> char \<Rightarrow> bool" where
  "match_char a b \<longleftrightarrow> a = b \<or>
     (let x = lower_bit (byte_of a); y = lower_bit (byte_of b) in x = y \<and> 97 \<le> x \<and> x \<le> 122)"

fun lookup_month :: "nat \<Rightarrow> string list \<Rightarrow> string \<Rightarrow> (nat \<times> string) option" where
  "lookup_month i [] v = None"
| "lookup_month i (n # ns) v =
     (if length n \<le> length v \<and> list_all2 match_char (take (length n) v) n then Some (i, drop (length n) v)
      else lookup_month (Suc i) ns v)"

record parsed =
  pHour :: int
  pMin :: int
  pPM :: bool
  pAM :: bool
  pDay :: int
  pMonth :: nat
  pYear :: int

fun parse_chunk :: "layout_chunk \<Rightarrow> string \<Rightarrow> parsed \<Rightarrow> (string \<times> parsed) option" where
  "parse_chunk (Lit p) v q = (case skip_lit v p of Some v' \<Rightarrow> Some (v', q) | None \<Rightarrow> None)"
| "parse_chunk Hour12 v q =
     (case getnum False v of Some (n, v') \<Rightarrow> if 12 < n then None else Some (v', q\<lparr>pHour := n\<rparr>) | None \<Rightarrow> None)"
| "parse_chunk Hour v q =
     (case getnum False v of Some (n, v') \<Rightarrow> if 24 \<le> n then None else Some (v', q\<lparr>pHour := n\<rparr>) | None \<Rightarrow> None)"
| "parse_chunk ZeroMinute v q =
     (case getnum True v of Some (n, v') \<Rightarrow> if 60 \<le> n then None else Some (v', q\<lparr>pMin := n\<rparr>) | None \<Rightarrow> None)"
| "parse_chunk LowerPM v q =
     (if take 2 v = ''pm'' then Some (drop 2 v, q\<lparr>pPM := True\<rparr>)
      else if take 2 v = ''am'' then Some (drop 2 v, q\<lparr>pAM := True\<rparr>) else None)"
| "parse_chunk UpperPM v q =
     (if take 2 v = ''PM'' then Some (drop 2 v, q\<lparr>pPM := True\<rparr>)
      else if take 2 v = ''AM'' then Some (drop 2 v, q\<lparr>pAM := True\<rparr>) else None)"
| "parse_chunk Day v q =
     (case getnum False v of Some (n, v') \<Rightarrow> Some (v', q\<lparr>pDay := n\<rparr>) | None \<Rightarrow> None)"
| "parse_chunk LongMonth v q =
     (case lookup_month 0 longMonthNames v of Some (n, v') \<Rightarrow> Some (v', q\<lparr>pMonth := n\<rparr>) | None \<Rightarrow> None)"
| "parse_chunk LongYear v q =
     (if 4 \<le> length v \<and> list_all is_digit (take 4 v)
      then Some (drop 4 v, q\<lparr>pYear := foldl (\<lambda>n c. n * 10 + digit_val c) 0 (take 4 v)\<rparr>) else None)"

fun parse_chunks :: "layout_chunk list \<Rightarrow> string \<Rightarrow> parsed \<Rightarrow> parsed option" where
  "parse_chunks [] v q = (if v = [] then Some q else None)"
| "parse_chunks (c # cs) v q =
     (case parse_chunk c v q of Some (v', q') \<Rightarrow> parse_chunks cs v' q' | None \<Rightarrow> None)"

definition time_Parse :: "layout_chunk list \<Rightarrow> string \<Rightarrow> time option" where
  "time_Parse layout v =
     (case parse_chunks layout v \<lparr>pHour = 0, pMin = 0, pPM = False, pAM = False, pDay = - 1, pMonth = 0, pYear = 0\<rparr> of
        None \<Rightarrow> None
      | Some q \<Rightarrow>
          let hour = (if pPM q \<and> pHour q < 12 then pHour q + 12
                      else if pAM q \<and> pHour q = 12 then 0 else pHour q)
          in if pDay q < 1 \<or> daysIn (pYear q) (pMonth q) < pDay q then None
             else Some (Date (pYear q) (pMonth q) (pDay q) hour (pMin q)))"

section \<open>Timestamps\<close>

record date_env =
  dateparse_ParseStrict :: "string \<Rightarrow> (go_error, time) result"
  when_Parse :: "string \<Rightarrow> time \<Rightarrow> (go_error, time option) result"

text \<open>\<^verbatim>\<open>(?i)\<close> is simple case folding, \<^verbatim>\<open>\s\<close> is ASCII white space.\<close>

definition re_space :: "rune \<times> string \<Rightarrow> bool" where
  "re_space c \<longleftrightarrow> fst c \<in> {9, 10, 12, 13, 32}"

definition re_alpha :: "rune \<times> string \<Rightarrow> bool" where
  "re_alpha c \<longleftrightarrow> 97 \<le> fold_rune (fst c) \<and> fold_rune (fst c) \<le> 122"

definition weekday_names :: "string list" where
  "weekday_names = [''mon'', ''tue'', ''wed'', ''thu'', ''fri'', ''sat'', ''sun'']"

text \<open>A match of \<^verbatim>\<open>weekdayParen\<close> at the front, and what follows it.\<close>

definition weekday_match :: "(rune \<times> string) list \<Rightarrow> (rune \<times> string) list option" where
  "weekday_match rs =
     (case rs of
        r # rest \<Rightarrow>
          if fst r \<noteq> 40 then None
          else let a = dropWhile re_space rest in
            if map (\<lambda>c. fold_rune (fst c)) (take 3 a) \<in> set (map (map byte_of) weekday_names) then
              (case dropWhile re_space (dropWhile re_alpha (drop 3 a)) of
                 c # tail \<Rightarrow> if fst c = 41 then Some tail else None
               | [] \<Rightarrow> None)
            else None
      | [] \<Rightarrow> None)"

lemma weekday_match_shorter:
  assumes m: "weekday_match rs = Some tail"
  shows "length tail < length rs"
proof (cases rs)
  case Nil
  then show ?thesis using m by (simp add: weekday_match_def)
next
  case (Cons r rest)
  define a where "a = dropWhile re_space rest"
  define b where "b = dropWhile re_space (dropWhile re_alpha (drop 3 a))"
  have "length b \<le> length (drop 3 a)"
    unfolding b_def by (rule order_trans [OF length_dropWhile_le length_dropWhile_le])
  moreover have "length a \<le> length rest" unfolding a_def by (rule length_dropWhile_le)
  ultimately have le: "length b \<le> length rest" by simp
  have unf: "weekday_match rs =
      (if fst r \<noteq> 40 then None
       else if map (\<lambda>c. fold_rune (fst c)) (take 3 a) \<in> set (map (map byte_of) weekday_names) then
         (case b of c # ts \<Rightarrow> if fst c = 41 then Some ts else None | [] \<Rightarrow> None) else None)"
    by (simp only: weekday_match_def Cons list.case Let_def a_def b_def)
  obtain c where "b = c # tail"
    using m unfolding unf by (simp only: split: if_split_asm list.split_asm) simp_all
  then show ?thesis using le Cons by simp
qed

function strip_weekdays :: "(rune \<times> string) list \<Rightarrow> (rune \<times> string) list" where
  "strip_weekdays [] = []"
| "strip_weekdays (r # rs) =
     (case weekday_match (r # rs) of
        Some tail \<Rightarrow> (32, '' '') # strip_weekdays tail
      | None \<Rightarrow> r # strip_weekdays rs)"
  by pat_completeness auto
termination
  by (relation "measure length") (auto dest: weekday_match_shorter)

definition weekdayParen_ReplaceAllString :: "string \<Rightarrow> string" where
  "weekdayParen_ReplaceAllString s = unchunk (strip_weekdays (chunks s))"

fun try_layouts :: "layout_chunk list list \<Rightarrow> string \<Rightarrow> time option" where
  "try_layouts [] s = None"
| "try_layouts (l # ls) s = (case time_Parse l s of Some t \<Rightarrow> Some t | None \<Rightarrow> try_layouts ls s)"

definition ParseTimestamp :: "date_env \<Rightarrow> string \<Rightarrow> (go_error, time) result" where
  "ParseTimestamp e s =
     (let trimmed = TrimSpace s in
      if trimmed = [] then Inl (Errorf ''pipeline: empty timestamp'' [])
      else case try_layouts locomoLayouts trimmed of
        Some t \<Rightarrow> Inr t
      | None \<Rightarrow>
          let cleaned = join_with '' '' (FieldsFunc IsSpace (weekdayParen_ReplaceAllString trimmed))
          in (case dateparse_ParseStrict e cleaned of
                Inl err \<Rightarrow> Inl (Wrapf ''pipeline: unparseable or ambiguous timestamp %q: %w'' [AStr s] err)
              | Inr t \<Rightarrow> Inr t))"

definition ParseRelative :: "date_env \<Rightarrow> string \<Rightarrow> time \<Rightarrow> (go_error, time option) result" where
  "ParseRelative e s base =
     (case when_Parse e s base of
        Inl err \<Rightarrow> Inl (Wrapf ''pipeline: relative parse %q: %w'' [AStr s] err)
      | Inr r \<Rightarrow> Inr r)"

definition ExtractQueryTime :: "date_env \<Rightarrow> string \<Rightarrow> time \<Rightarrow> time option" where
  "ExtractQueryTime e question base =
     (case ParseTimestamp e question of
        Inr t \<Rightarrow> Some t
      | Inl _ \<Rightarrow> (case ParseRelative e question base of Inr (Some t) \<Rightarrow> Some t | _ \<Rightarrow> None))"

section \<open>LoCoMo timestamps\<close>

definition ascii :: "string \<Rightarrow> bool" where
  "ascii s \<longleftrightarrow> (\<forall>c\<in>set s. byte_of c < 128)"

lemma ascii_append [simp]: "ascii (a @ b) \<longleftrightarrow> ascii a \<and> ascii b"
  by (auto simp: ascii_def)

lemma chunks_ascii: "ascii s \<Longrightarrow> chunks s = map (\<lambda>c. (byte_of c, [c])) s"
proof (induction s)
  case (Cons c s)
  then show ?case by (subst chunks.simps) (simp add: ascii_def)
qed (simp add: chunks.simps)

lemma trim_id: "xs = [] \<or> (\<not> P (hd xs) \<and> \<not> P (last xs)) \<Longrightarrow> trim P xs = xs"
proof -
  assume h: "xs = [] \<or> (\<not> P (hd xs) \<and> \<not> P (last xs))"
  then have "dropWhile P xs = xs" by (cases xs) auto
  moreover have "dropWhile P (rev xs) = rev xs" using h by (cases xs rule: rev_cases) auto
  ultimately show ?thesis by (simp add: trim_def)
qed

lemma TrimSpace_ascii:
  assumes a: "ascii s" and s: "s \<noteq> []" and e: "\<not> IsSpace (byte_of (hd s))" "\<not> IsSpace (byte_of (last s))"
  shows "TrimSpace s = s"
proof -
  have "trim (\<lambda>c. IsSpace (fst c)) (chunks s) = chunks s"
    by (rule trim_id) (use s e in \<open>simp add: chunks_ascii [OF a] hd_map last_map\<close>)
  then show ?thesis by (simp add: TrimSpace_def unchunk_chunks)
qed

definition D :: "nat \<Rightarrow> char" where
  "D n = char_of (48 + n)"

lemma byte_D: "n < 10 \<Longrightarrow> byte_of (D n) = 48 + int n"
proof -
  assume n: "n < 10"
  have "byte_of (D n) = int (of_char (D n))" by (simp only: byte_of_def of_nat_of_char)
  then show ?thesis using n by (simp add: D_def)
qed

lemma digit_D [simp]: "n < 10 \<Longrightarrow> is_digit (D n) \<and> digit_val (D n) = int n"
  by (simp add: is_digit_def digit_val_def byte_D)

lemma dec_small: "n < 100 \<Longrightarrow> dec n = (if n < 10 then [D n] else [D (n div 10), D (n mod 10)])"
proof -
  assume n: "n < 100"
  then have "digits (n div 10) = [D (n div 10)]" by (subst digits.simps) (simp add: D_def div_less_iff_less_mult)
  then show ?thesis unfolding dec_def by (subst digits.simps) (simp add: D_def)
qed

lemma getnum_dec:
  assumes n: "n < 100" and r: "r \<noteq> [] \<Longrightarrow> \<not> is_digit (hd r)"
  shows "getnum False (dec n @ r) = Some (int n, r)"
proof (cases "n < 10")
  case True
  then show ?thesis using r by (cases r) (simp_all add: dec_small getnum_def)
next
  case False
  then have "int (n div 10) * 10 + int (n mod 10) = int n" by presburger
  then show ?thesis using False n by (simp add: dec_small getnum_def)
qed

lemma D_0: "D 0 = CHR ''0''"
  by code_simp

lemma pad_2: "n < 100 \<Longrightarrow> pad 2 n = [D (n div 10), D (n mod 10)]"
  using D_0 by (simp add: pad_def dec_small)

lemma getnum_pad: "n < 100 \<Longrightarrow> getnum True (pad 2 n @ r) = Some (int n, r)"
proof -
  assume n: "n < 100"
  have "int (n div 10) * 10 + int (n mod 10) = int n" by presburger
  then show ?thesis using n by (simp add: pad_2 getnum_def)
qed

definition year4 :: "nat \<Rightarrow> string" where
  "year4 y = [D (y div 1000), D (y div 100 mod 10), D (y div 10 mod 10), D (y mod 10)]"

lemma parse_year:
  "y < 10000 \<Longrightarrow> parse_chunk LongYear (year4 y) q = Some ([], q\<lparr>pYear := int y\<rparr>)"
proof -
  assume y: "y < 10000"
  define a b c where "a = y div 10" and "b = a div 10" and "c = b div 10"
  have abc: "y div 100 = b" "y div 1000 = c" unfolding a_def b_def c_def by (simp_all add: div_mult2_eq [symmetric])
  have "c * 10 + b mod 10 = b" "b * 10 + a mod 10 = a" "a * 10 + y mod 10 = y"
    unfolding a_def b_def c_def by simp_all
  then have e: "((c * 10 + b mod 10) * 10 + a mod 10) * 10 + y mod 10 = y" by simp
  have y': "((int c * 10 + int (b mod 10)) * 10 + int (a mod 10)) * 10 + int (y mod 10) = int y"
    using arg_cong [OF e, of int] by (simp only: of_nat_add of_nat_mult of_nat_numeral)
  have c: "c < 10" using y abc by simp
  have d: "is_digit (D n)" "digit_val (D n) = int n" if "n < 10" for n using digit_D [OF that] by simp_all
  have four: "year4 y = [D c, D (b mod 10), D (a mod 10), D (y mod 10)]"
    by (simp only: year4_def abc a_def)
  have all: "list_all is_digit (take 4 (year4 y))" "length (year4 y) = 4" "drop 4 (year4 y) = []"
    using c d(1) by (simp_all add: four)
  have "foldl (\<lambda>n c. n * 10 + digit_val c) 0 (take 4 (year4 y)) =
      ((int c * 10 + int (b mod 10)) * 10 + int (a mod 10)) * 10 + int (y mod 10)"
    using c d(2) [of c] d(2) [of "b mod 10"] d(2) [of "a mod 10"] d(2) [of "y mod 10"]
    by (simp add: four)
  then show ?thesis unfolding y' using all by simp
qed

definition locomo_stamp :: "nat \<Rightarrow> nat \<Rightarrow> bool \<Rightarrow> nat \<Rightarrow> nat \<Rightarrow> nat \<Rightarrow> string" where
  "locomo_stamp h mn pm d m y =
     dec h @ '':'' @ pad 2 mn @ '' '' @ (if pm then ''pm'' else ''am'') @ '' on '' @ dec d @ '' '' @
     longMonthNames ! m @ '', '' @ year4 y"

lemma skip_blank: "v \<noteq> [] \<Longrightarrow> hd v \<noteq> CHR '' '' \<Longrightarrow> skip_lit (CHR '' '' # v) '' '' = Some v"
  by (cases v) (simp_all add: cutspace_def)

lemma skip_on: "v \<noteq> [] \<Longrightarrow> hd v \<noteq> CHR '' '' \<Longrightarrow> skip_lit ('' on '' @ v) '' on '' = Some v"
  by (cases v) (simp_all add: cutspace_def)

lemma skip_comma: "v \<noteq> [] \<Longrightarrow> hd v \<noteq> CHR '' '' \<Longrightarrow> skip_lit ('', '' @ v) '', '' = Some v"
  by (cases v) (simp_all add: cutspace_def)

lemma D_not_blank: "n < 10 \<Longrightarrow> D n \<noteq> CHR '' ''"
  using byte_D [of n] by (auto simp: byte_of_def)

lemma month_cases: "m < 12 \<Longrightarrow> m \<in> {0, 1, 2, 3, 4, 5, 6, 7, 8, 9, 10, 11 :: nat}"
  by (simp add: numeral_eq_Suc less_Suc_eq)

lemma lookup_month_name: "m < 12 \<Longrightarrow> lookup_month 0 longMonthNames (longMonthNames ! m @ r) = Some (m, r)"
  by (drule month_cases, elim insertE)
    (simp_all add: longMonthNames_def match_char_def lower_bit_def byte_of_def)

lemma dec_front: "n < 100 \<Longrightarrow> dec n \<noteq> [] \<and> hd (dec n) \<noteq> CHR '' '' \<and> \<not> IsSpace (byte_of (hd (dec n)))"
proof -
  assume n: "n < 100"
  define k where "k = (if n < 10 then n else n div 10)"
  have "k < 10" "hd (dec n) = D k" "dec n \<noteq> []"
    using n by (simp_all add: k_def dec_small div_less_iff_less_mult)
  then show ?thesis using D_not_blank [of k] by (simp add: byte_D IsSpace_def)
qed

lemma name_front: "m < 12 \<Longrightarrow> longMonthNames ! m \<noteq> [] \<and> hd (longMonthNames ! m) \<noteq> CHR '' ''"
  by (drule month_cases, elim insertE) (simp_all add: longMonthNames_def)

lemma not_digit [simp]: "\<not> is_digit (CHR '':'')" "\<not> is_digit (CHR '' '')"
  by (simp_all add: is_digit_def byte_of_def)

abbreviation "lower_layout \<equiv>
  [Hour12, Lit '':'', ZeroMinute, Lit '' '', LowerPM, Lit '' on '', Day, Lit '' '', LongMonth, Lit '', '', LongYear]"

lemma parse_clock:
  assumes "h \<le> 12" "mn < 60"
  shows "parse_chunks (Hour12 # Lit '':'' # ZeroMinute # cs) (dec h @ '':'' @ pad 2 mn @ v) q =
    parse_chunks cs v (q\<lparr>pHour := int h, pMin := int mn\<rparr>)"
proof -
  have h: "getnum False (dec h @ CHR '':'' # pad 2 mn @ v) = Some (int h, CHR '':'' # pad 2 mn @ v)"
    by (rule getnum_dec) (use assms in simp_all)
  have m: "getnum True (pad 2 mn @ v) = Some (int mn, v)" by (rule getnum_pad) (use assms in simp)
  show ?thesis using assms by (simp add: h m)
qed

lemma parse_day:
  assumes "d < 100" "m < 12" "y < 10000"
  shows "parse_chunks [Lit '' on '', Day, Lit '' '', LongMonth, Lit '', '', LongYear]
      ('' on '' @ dec d @ '' '' @ longMonthNames ! m @ '', '' @ year4 y) q =
    Some (q\<lparr>pDay := int d, pMonth := m, pYear := int y\<rparr>)"
proof -
  let ?name = "longMonthNames ! m @ '', '' @ year4 y"
  have on: "skip_lit ('' on '' @ dec d @ '' '' @ ?name) '' on '' = Some (dec d @ '' '' @ ?name)"
    by (rule skip_on) (use dec_front [OF assms(1)] in simp_all)
  have day: "getnum False (dec d @ '' '' @ ?name) = Some (int d, '' '' @ ?name)"
    by (rule getnum_dec) (use assms in simp_all)
  have bl: "skip_lit (CHR '' '' # ?name) '' '' = Some ?name"
    by (rule skip_blank) (use name_front [OF assms(2)] in simp_all)
  have "hd (year4 y) \<noteq> CHR '' ''" using assms(3) D_not_blank [of "y div 1000"] by (simp add: year4_def)
  then have co: "skip_lit ('', '' @ year4 y) '', '' = Some (year4 y)"
    by (intro skip_comma) (simp_all add: year4_def)
  note name = lookup_month_name [OF assms(2), of "'', '' @ year4 y"]
  show ?thesis
    using on day bl co name parse_year [OF assms(3)]
    by (simp del: skip_lit.simps parse_chunk.simps(9) append_assoc add: append_assoc [symmetric] flip: append_assoc)
qed

lemma parse_stamp:
  assumes "h \<le> 12" "mn < 60" "d < 100" "m < 12" "y < 10000"
  shows "parse_chunks lower_layout (locomo_stamp h mn pm d m y) q =
    Some (q\<lparr>pHour := int h, pMin := int mn, pPM := (if pm then True else pPM q),
      pAM := (if pm then pAM q else True), pDay := int d, pMonth := m, pYear := int y\<rparr>)"
proof -
  let ?rest = "'' on '' @ dec d @ '' '' @ longMonthNames ! m @ '', '' @ year4 y"
  define q' where "q' = q\<lparr>pHour := int h, pMin := int mn\<rparr>"
  define q2 where "q2 = (if pm then q'\<lparr>pPM := True\<rparr> else q'\<lparr>pAM := True\<rparr>)"
  have "locomo_stamp h mn pm d m y = dec h @ '':'' @ pad 2 mn @ ('' '' @ (if pm then ''pm'' else ''am'') @ ?rest)"
    by (simp add: locomo_stamp_def)
  then have "parse_chunks lower_layout (locomo_stamp h mn pm d m y) q =
      parse_chunks (Lit '' '' # LowerPM # [Lit '' on '', Day, Lit '' '', LongMonth, Lit '', '', LongYear])
        ('' '' @ (if pm then ''pm'' else ''am'') @ ?rest) q'"
    by (simp only: parse_clock [OF assms(1,2)] q'_def)
  also have "\<dots> = parse_chunks [Lit '' on '', Day, Lit '' '', LongMonth, Lit '', '', LongYear] ?rest q2"
    by (cases pm) (simp_all add: q2_def cutspace_def del: parse_chunks.simps add: parse_chunks.simps(2) [of "Lit _"] parse_chunks.simps(2) [of LowerPM])
  finally show ?thesis
    unfolding parse_day [OF assms(3-5)] by (cases pm) (simp_all add: q2_def q'_def)
qed

lemma ascii_Cons [simp]: "ascii (c # s) \<longleftrightarrow> byte_of c < 128 \<and> ascii s" and ascii_Nil [simp]: "ascii []"
  by (simp_all add: ascii_def)

lemma ascii_lit: "byte_of (CHR '':'') < 128" "byte_of (CHR '' '') < 128" "byte_of (CHR '','') < 128"
  "byte_of (CHR ''a'') < 128" "byte_of (CHR ''p'') < 128" "byte_of (CHR ''m'') < 128"
  "byte_of (CHR ''o'') < 128" "byte_of (CHR ''n'') < 128"
  by (simp_all add: byte_of_def)

lemma D_not_space: "k < 10 \<Longrightarrow> \<not> IsSpace (byte_of (D k))"
  by (simp add: byte_D IsSpace_def)

lemma stamp_ascii:
  assumes "h \<le> 12" "mn < 60" "d < 100" "m < 12" "y < 10000"
  shows "ascii (locomo_stamp h mn pm d m y)"
proof -
  have D: "byte_of (D k) < 128" if "k < 10" for k using that by (simp add: byte_D)
  have n: "ascii (dec k)" "ascii (pad 2 k)" if "k < 100" for k
    using that D [of k] D [of "k div 10"] D [of "k mod 10"]
    by (simp_all add: ascii_def dec_small pad_2 div_less_iff_less_mult)
  have y: "ascii (year4 y)"
    using assms(5) D [of "y div 1000"] D [of "y div 100 mod 10"] D [of "y div 10 mod 10"] D [of "y mod 10"]
    by (simp add: ascii_def year4_def)
  have m: "ascii (longMonthNames ! m)"
    using month_cases [OF assms(4)] by (elim insertE) (simp_all add: longMonthNames_def ascii_def byte_of_def)
  show ?thesis
    using assms n [of h] n [of mn] n [of d] y m by (simp add: locomo_stamp_def ascii_lit)
qed

lemma TrimSpace_stamp:
  assumes "h \<le> 12" "mn < 60" "d < 100" "m < 12" "y < 10000"
  shows "TrimSpace (locomo_stamp h mn pm d m y) = locomo_stamp h mn pm d m y \<and> locomo_stamp h mn pm d m y \<noteq> []"
proof -
  have f: "dec h \<noteq> []" "\<not> IsSpace (byte_of (hd (dec h)))" using dec_front [of h] assms by simp_all
  have "last (locomo_stamp h mn pm d m y) = D (y mod 10)" by (simp add: locomo_stamp_def year4_def)
  then have l: "\<not> IsSpace (byte_of (last (locomo_stamp h mn pm d m y)))" by (simp add: D_not_space)
  have "hd (locomo_stamp h mn pm d m y) = hd (dec h)" "locomo_stamp h mn pm d m y \<noteq> []"
    using f by (simp_all add: locomo_stamp_def)
  then show ?thesis using TrimSpace_ascii [OF stamp_ascii [OF assms]] f l by simp
qed

text \<open>C30. Every LoCoMo session timestamp, such as ``1:56 pm on 8 May, 2023'' (hour 1 to 12, two-digit
  minutes, am or pm, a day that exists in the month, a four-digit year), is parsed by the first layout to
  exactly the instant it names, whatever the \<^verbatim>\<open>dateparse\<close> fallback would do with it: 12 am is hour 0,
  12 pm is hour 12, and the other pm hours are 13 to 23.\<close>

theorem ParseTimestamp_locomo:
  assumes "1 \<le> h" "h \<le> 12" "mn < 60" "1 \<le> d" "int d \<le> daysIn (int y) m" "m < 12" "y < 10000"
  shows "ParseTimestamp e (locomo_stamp h mn pm d m y) =
    Inr (Date (int y) m (int d) (int (h mod 12 + (if pm then 12 else 0))) (int mn))"
proof -
  have "daysIn (int y) m \<le> 31"
    using month_cases [OF assms(6)] by (elim insertE) (simp_all add: daysIn_def month_days_def)
  then have d: "d < 100" using assms(5) by linarith
  have h: "(if pm \<and> int h < 12 then int h + 12 else if \<not> pm \<and> int h = 12 then 0 else int h) =
      int (h mod 12 + (if pm then 12 else 0))"
    using assms(1,2) by (cases "h = 12") auto
  have "time_Parse lower_layout (locomo_stamp h mn pm d m y) =
      Some (Date (int y) m (int d) (int (h mod 12 + (if pm then 12 else 0))) (int mn))"
    unfolding time_Parse_def parse_stamp [OF assms(2,3) d assms(6,7)] h [symmetric]
    using assms(4,5) by (cases pm) (simp_all add: Let_def)
  then have "try_layouts locomoLayouts (locomo_stamp h mn pm d m y) =
      Some (Date (int y) m (int d) (int (h mod 12 + (if pm then 12 else 0))) (int mn))"
    by (simp add: locomoLayouts_def)
  then show ?thesis
    using TrimSpace_stamp [OF assms(2,3) d assms(6,7)] by (simp add: ParseTimestamp_def Let_def)
qed

definition no_dates :: date_env where
  "no_dates = \<lparr>dateparse_ParseStrict = (\<lambda>s. Inl (Errorf s [])), when_Parse = (\<lambda>s b. Inr None)\<rparr>"

theorem ParseTimestamp_locomo_witness:
  "locomo_stamp 1 56 True 8 4 2023 = ''1:56 pm on 8 May, 2023'' \<and>
   ParseTimestamp no_dates (locomo_stamp 1 56 True 8 4 2023) = Inr (Date 2023 4 8 13 56)"
proof
  show "locomo_stamp 1 56 True 8 4 2023 = ''1:56 pm on 8 May, 2023''" by code_simp
  have "daysIn 2023 4 = 31" by code_simp
  then show "ParseTimestamp no_dates (locomo_stamp 1 56 True 8 4 2023) = Inr (Date 2023 4 8 13 56)"
    using ParseTimestamp_locomo [of 1 56 8 2023 4 no_dates True] by simp
qed

end
