(* ===== verification/Dataset.thy ===== *)
theory Dataset
  imports Server Pipeline "HOL-Library.AList"
begin

text \<open>
  The client's view of the datasets (\<^verbatim>\<open>cmd/client/dataset.go\<close>): items, questions and conversations, the
  numeric conversation ids, the blobs recomputed for them, the round rows, and the three loaders over the
  decoded files. The Go map from a round id to its turns is an association list; nothing depends on
  its order.
\<close>

record item =
  itTurnID :: string
  itSessionID :: string
  itSpeaker :: string
  itText :: string
  itDateTime :: string

record question =
  quID :: string
  quQuestion :: string
  quQuestionDate :: string
  quEvidence :: "string list"
  quGroup :: string

record conversation =
  cvNum :: int64
  cvName :: string
  cvItems :: "item list"
  cvQuestions :: "question list"

section \<open>Conversation ids and blobs\<close>

definition BigEndian_Uint64 :: "bytes \<Rightarrow> int64" where
  "BigEndian_Uint64 bs = foldl (\<lambda>a b. push_bit 8 a OR ucast b) 0 bs"

definition surrogateConvID :: "string \<Rightarrow> string \<Rightarrow> int64" where
  "surrogateConvID dataset sampleID =
     (let sum = sha256 (string_bytes (dataset @ ''/'' @ sampleID));
          id = BigEndian_Uint64 (take 8 sum) AND 0x7FFFFFFFFFFFFFFF
      in if id = 0 then 1 else id)"

definition envelopeOf :: "int64 \<Rightarrow> item \<Rightarrow> Envelope" where
  "envelopeOf convNum it =
     \<lparr>eConversationID = FormatInt (sint convNum), eSessionID = itSessionID it, eTurnID = itTurnID it,
      eSpeaker = itSpeaker it, eText = itText it, eDateTime = itDateTime it\<rparr>"

section \<open>Rounds\<close>

type_synonym expand = "(string \<times> string list) list"

definition turn_of_item :: "item \<Rightarrow> Turn" where
  "turn_of_item it = \<lparr>tuSessionID = itSessionID it, tuTurnID = itTurnID it, tuSpeaker = itSpeaker it,
     tuText = itText it, tuTS = None\<rparr>"

definition date_of :: "item list \<Rightarrow> string \<Rightarrow> string" where
  "date_of its tid = (case map_of (rev (map (\<lambda>it. (itTurnID it, itDateTime it)) its)) tid of Some d \<Rightarrow> d | None \<Rightarrow> [])"

definition round_id :: "Round \<Rightarrow> string" where
  "round_id r = join_with ''+'' (TurnIDs r)"

definition add_round :: "(string \<Rightarrow> string) \<Rightarrow> item list \<times> expand \<Rightarrow> Round \<Rightarrow> item list \<times> expand" where
  "add_round dateOf acc r =
     (if length (roTurns r) < 2 then acc
      else (fst acc @ [\<lparr>itTurnID = round_id r, itSessionID = roSessionID r, itSpeaker = [], itText = Round_Text r,
                        itDateTime = dateOf (tuTurnID (roTurns r ! 0))\<rparr>],
            AList.update (round_id r) (TurnIDs r) (snd acc)))"

definition roundItemsOf :: "conversation \<Rightarrow> item list \<times> expand" where
  "roundItemsOf c = foldl (add_round (date_of (cvItems c))) ([], []) (AssembleRounds (map turn_of_item (cvItems c)))"

section \<open>Loading\<close>

definition findDataFile :: "(string \<Rightarrow> bool) \<Rightarrow> string \<Rightarrow> string list \<Rightarrow> (go_error, string) result" where
  "findDataFile exists explicit candidates =
     (let cs = (if explicit \<noteq> [] then [explicit] else candidates)
      in case List.find exists cs of
           Some c \<Rightarrow> Inr c
         | None \<Rightarrow> Inl (Errorf ''dataset file not found; tried %v'' (map AStr cs)))"

definition datasetsDir :: "(string \<Rightarrow> string) \<Rightarrow> string" where
  "datasetsDir Getenv = (if Getenv ''DATASETS_DIR'' \<noteq> [] then Getenv ''DATASETS_DIR'' else ''/app/datasets'')"

definition fixture_item :: "FixtureTurn \<Rightarrow> item" where
  "fixture_item t = \<lparr>itTurnID = ftID t, itSessionID = ftSessionID t, itSpeaker = ftSpeaker t, itText = ftText t,
     itDateTime = ftDateTime t\<rparr>"

definition fixture_quest :: "FixtureQuestion \<Rightarrow> question" where
  "fixture_quest q = \<lparr>quID = fqID q, quQuestion = fqQuestion q, quQuestionDate = fqQuestionDate q,
     quEvidence = fqEvidence q, quGroup = ''fixtures''\<rparr>"

definition loadFixtures :: "(go_error, string) result \<Rightarrow> (go_error, conversation list) result" where
  "loadFixtures file =
     (case LoadFixtures file of
        Inl e \<Rightarrow> Inl e
      | Inr f \<Rightarrow> Inr [\<lparr>cvNum = surrogateConvID ''fixtures'' ''fixtures'', cvName = ''fixtures'',
                        cvItems = map fixture_item (fxTurns f), cvQuestions = map fixture_quest (fxQuestions f)\<rparr>])"

definition locomo_item :: "LoCoMoSession \<Rightarrow> LoCoMoTurn \<Rightarrow> item" where
  "locomo_item sess t = \<lparr>itTurnID = ltDiaID t, itSessionID = ''session_'' @ FormatInt (lsIndex sess),
     itSpeaker = ltSpeaker t, itText = ltText t, itDateTime = lsDateTime sess\<rparr>"

definition locomo_quest :: "string \<Rightarrow> nat \<times> LoCoMoQA \<Rightarrow> question" where
  "locomo_quest sample p = \<lparr>quID = sample @ ''_q'' @ dec (fst p), quQuestion = lqQuestion (snd p), quQuestionDate = [],
     quEvidence = lqEvidence (snd p), quGroup = ''category_'' @ FormatInt (lqCategory (snd p))\<rparr>"

definition locomo_conversation :: "LoCoMoSample \<Rightarrow> conversation" where
  "locomo_conversation s =
     \<lparr>cvNum = surrogateConvID ''locomo'' (lmSampleID s), cvName = lmSampleID s,
      cvItems = concat (map (\<lambda>sess. map (locomo_item sess) (lsTurns sess)) (lmSessions s)),
      cvQuestions = map (locomo_quest (lmSampleID s)) (enumerate 0 (lmQA s))\<rparr>"

definition loadLoCoMo :: "order \<Rightarrow> (go_error, string) result \<Rightarrow> (go_error, conversation list) result" where
  "loadLoCoMo order file =
     (case LoadLoCoMo order file of Inl e \<Rightarrow> Inl e | Inr ss \<Rightarrow> Inr (map locomo_conversation ss))"

definition lme_item :: "string \<Rightarrow> string \<Rightarrow> nat \<times> LongMemEvalTurn \<Rightarrow> item" where
  "lme_item sid date p = \<lparr>itTurnID = TurnID sid (fst p), itSessionID = sid, itSpeaker = leRole (snd p),
     itText = leContent (snd p), itDateTime = date\<rparr>"

text \<open>The loop over the haystack sessions: it stops where the session ids end; a missing date is empty.\<close>

fun lme_items :: "LongMemEvalTurn list list \<Rightarrow> string list \<Rightarrow> string list \<Rightarrow> item list" where
  "lme_items [] ids dates = []"
| "lme_items (sess # ss) [] dates = []"
| "lme_items (sess # ss) (sid # ids) dates =
     map (lme_item sid (case dates of d # _ \<Rightarrow> d | [] \<Rightarrow> [])) (enumerate 0 sess) @
     lme_items ss ids (case dates of _ # ds \<Rightarrow> ds | [] \<Rightarrow> [])"

definition lme_conversation :: "LongMemEvalQuestion \<Rightarrow> conversation" where
  "lme_conversation q =
     \<lparr>cvNum = surrogateConvID ''longmemeval_s'' (leQuestionID q), cvName = leQuestionID q,
      cvItems = lme_items (leHaystackSessions q) (leHaystackSessionIDs q) (leHaystackDates q),
      cvQuestions = [\<lparr>quID = leQuestionID q, quQuestion = leQuestion q, quQuestionDate = leQuestionDate q,
                      quEvidence = GoldTurnIDs q, quGroup = leQuestionType q\<rparr>]\<rparr>"

definition loadLongMemEval :: "(go_error, string) result \<Rightarrow> (go_error, conversation list) result" where
  "loadLongMemEval file =
     (case LoadLongMemEval file of Inl e \<Rightarrow> Inl e | Inr qs \<Rightarrow> Inr (map lme_conversation qs))"

text \<open>The files of the machine: which exist, and what reading one gives. \<^verbatim>\<open>filepath.Join\<close> of a clean
  directory and a name puts a slash between them.\<close>

record files =
  fsExists :: "string \<Rightarrow> bool"
  fsRead :: "string \<Rightarrow> (go_error, string) result"
  fsJoin :: "string \<Rightarrow> string \<Rightarrow> string"

definition loadDataset :: "files \<Rightarrow> (string \<Rightarrow> string) \<Rightarrow> order \<Rightarrow> string \<Rightarrow> (go_error, conversation list) result" where
  "loadDataset fs Getenv order name =
     (if name = ''fixtures'' then
        (case findDataFile (fsExists fs) (Getenv ''FIXTURES_PATH'') [''/app/testdata/fixtures.json'', ''testdata/fixtures.json''] of
           Inl e \<Rightarrow> Inl e | Inr path \<Rightarrow> loadFixtures (fsRead fs path))
      else if name = ''locomo'' then
        (case findDataFile (fsExists fs) [] [fsJoin fs (datasetsDir Getenv) ''locomo10.json'',
             ''datasets/locomo10.json'', ''/data/locomo10.json''] of
           Inl e \<Rightarrow> Inl e | Inr path \<Rightarrow> loadLoCoMo order (fsRead fs path))
      else if name = ''longmemeval_s'' then
        (case findDataFile (fsExists fs) [] [fsJoin fs (datasetsDir Getenv) ''longmemeval_s.json'',
             ''datasets/longmemeval_s.json'', ''/data/longmemeval_s.json''] of
           Inl e \<Rightarrow> Inl e | Inr path \<Rightarrow> loadLongMemEval (fsRead fs path))
      else Inl (Errorf ''unknown dataset %q (want fixtures|locomo|longmemeval_s)'' [AStr name]))"

section \<open>Evidence is in the corpus\<close>

lemma gold_turns_items: "set (gold_turns sid n sess) \<subseteq> TurnID sid ` {n..<n + length sess}"
proof (induction sess arbitrary: n)
  case (Cons t sess)
  have "set (gold_turns sid (n + 1) sess) \<subseteq> TurnID sid ` {n..<n + length (t # sess)}"
    using Cons [of "n + 1"] by (rule order_trans) auto
  then show ?case by auto
qed simp

lemma lme_turn_ids: "map itTurnID (map (lme_item sid d) (enumerate 0 sess)) = map (TurnID sid) [0..<length sess]"
proof -
  have "itTurnID \<circ> lme_item sid d = TurnID sid \<circ> fst" by (simp add: fun_eq_iff lme_item_def)
  then show ?thesis by (metis add.left_neutral map_fst_enumerate map_map)
qed

lemma gold_sessions_items: "set (gold_sessions ss ids) \<subseteq> itTurnID ` set (lme_items ss ids dates)"
proof (induction ss ids dates rule: lme_items.induct)
  case (3 sess ss sid ids dates)
  have "itTurnID ` set (map (lme_item sid d) (enumerate 0 sess)) = TurnID sid ` {0..<length sess}" for d
    using arg_cong [OF lme_turn_ids [of sid d sess], of set] by (simp add: image_image)
  then show ?case using 3 gold_turns_items [of sid 0 sess] by (auto simp: image_Un simp del: set_map)
qed simp_all

lemma lme_items_ids: "it \<in> set (lme_items ss ids dates) \<Longrightarrow> itSessionID it \<in> set ids \<and> (\<exists>n. itTurnID it = TurnID (itSessionID it) n)"
  by (induction ss ids dates rule: lme_items.induct) (auto simp: lme_item_def)

lemma lme_items_distinct: "distinct ids \<Longrightarrow> distinct (map itTurnID (lme_items ss ids dates))"
proof (induction ss ids dates rule: lme_items.induct)
  case (3 sess ss sid ids dates)
  let ?d = "case dates of d # _ \<Rightarrow> d | [] \<Rightarrow> []" and ?ds = "case dates of _ # ds \<Rightarrow> ds | [] \<Rightarrow> []"
  have "distinct (map itTurnID (map (lme_item sid ?d) (enumerate 0 sess)))"
    unfolding lme_turn_ids by (simp add: distinct_map inj_on_def TurnID_inj)
  moreover have "distinct (map itTurnID (lme_items ss ids ?ds))" using 3 by simp
  moreover have "itTurnID ` set (map (lme_item sid ?d) (enumerate 0 sess)) \<inter> itTurnID ` set (lme_items ss ids ?ds) = {}"
    using 3(2) by (auto simp: lme_item_def TurnID_inj dest!: lme_items_ids)
  ultimately show ?case by (simp add: image_image)
qed simp_all

text \<open>C36. The gold evidence of a LongMemEval question is always in its corpus: the turn ids that the evaluation
  derives are turn ids of items that the ingest uploads, and when the session ids of the haystack are
  distinct, no two items share a turn id.\<close>

theorem lme_gold_in_corpus:
  "set (quEvidence (hd (cvQuestions (lme_conversation q)))) \<subseteq> itTurnID ` set (cvItems (lme_conversation q)) \<and>
   (if distinct (leHaystackSessionIDs q) then distinct (map itTurnID (cvItems (lme_conversation q))) else True)"
  using gold_sessions_items [of "leHaystackSessions q" "leHaystackSessionIDs q" "leHaystackDates q"]
    lme_items_distinct [of "leHaystackSessionIDs q" "leHaystackSessions q" "leHaystackDates q"]
  by (auto simp: lme_conversation_def GoldTurnIDs_def)

section \<open>Conversation ids\<close>

lemma masked_nonneg: "0 \<le> sint ((w :: int64) AND 0x7FFFFFFFFFFFFFFF)"
proof -
  have "(0x7FFFFFFFFFFFFFFF :: int64) = mask 63" by (simp add: mask_eq_exp_minus_1)
  then have "\<not> bit (w AND 0x7FFFFFFFFFFFFFFF) (LENGTH(64) - Suc 0)" by (simp add: bit_and_iff bit_mask_iff)
  then show ?thesis by (simp only: bit_last_iff not_less)
qed

lemma FormatInt_inj: "FormatInt m = FormatInt n \<longleftrightarrow> m = n"
proof -
  have "CHR ''-'' \<notin> set (dec k)" for k using digits_range [of "CHR ''-''" k] by (auto simp: dec_def)
  then have "''-'' @ dec j \<noteq> dec k" for j k by (metis append_Cons list.set_intros(1))
  then show ?thesis by (auto simp: FormatInt_def) (metis append_Cons append_Nil)+
qed

text \<open>Conversation ids are fit for the wire: the surrogate id of a sample is a positive 64-bit integer, never
  the 0 that means all conversations, and the decimal id the server compares determines it.\<close>

theorem surrogate_ids:
  "0 < sint (surrogateConvID ds sample) \<and>
   (FormatInt (sint (surrogateConvID ds sample)) = FormatInt (sint num) \<longleftrightarrow> num = surrogateConvID ds sample)"
proof -
  have "sint w = 0 \<longleftrightarrow> w = 0" for w :: int64 by (metis signed_0 signed_word_eqI)
  then have "0 < sint (surrogateConvID ds sample)"
    using masked_nonneg by (auto simp: surrogateConvID_def Let_def order_less_le)
  then show ?thesis by (auto simp: FormatInt_inj dest: signed_word_eqI)
qed

section \<open>Round ids\<close>

lemma roundItemsOf_fold:
  "fst (foldl (add_round d) acc rs) = fst acc @ map (\<lambda>r. \<lparr>itTurnID = round_id r, itSessionID = roSessionID r, itSpeaker = [],
      itText = Round_Text r, itDateTime = d (tuTurnID (roTurns r ! 0))\<rparr>) (filter (\<lambda>r. 2 \<le> length (roTurns r)) rs)"
  "map_of (snd (foldl (add_round d) acc rs)) =
     foldl (\<lambda>M r. M(round_id r \<mapsto> TurnIDs r)) (map_of (snd acc)) (filter (\<lambda>r. 2 \<le> length (roTurns r)) rs)"
  by (induction rs arbitrary: acc) (simp_all add: add_round_def update_conv' not_le)

lemma foldl_upd_lookup:
  "distinct (map f rs) \<Longrightarrow> r \<in> set rs \<Longrightarrow> foldl (\<lambda>M r. M(f r \<mapsto> g r)) M rs (f r) = Some (g r)"
  by (induction rs rule: rev_induct) (auto simp: image_iff)

lemma foldl_upd_dom: "dom (foldl (\<lambda>M r. M(f r \<mapsto> g r)) M rs) = dom M \<union> f ` set rs"
  by (induction rs arbitrary: M) auto

definition plain_id :: "string \<Rightarrow> bool" where
  "plain_id s \<longleftrightarrow> s \<noteq> [] \<and> CHR ''+'' \<notin> set s"

lemma two_turns:
  assumes "round_ok r" and "2 \<le> length (roTurns r)"
  obtains t u where "roTurns r = [t, u]" and "round_id r = tuTurnID t @ ''+'' @ tuTurnID u" and "TurnIDs r = [tuTurnID t, tuTurnID u]"
proof -
  obtain t u where "roTurns r = [t, u]" using assms by (auto simp: round_ok_def split: list.splits)
  then show thesis using that by (simp add: round_id_def TurnIDs_def)
qed

text \<open>The rounds of two turns, their ids and their turns.\<close>

lemma round_ids:
  assumes "distinct (map itTurnID (cvItems c))" and "list_all (\<lambda>it. plain_id (itTurnID it)) (cvItems c)"
  defines "pairs \<equiv> filter (\<lambda>r. 2 \<le> length (roTurns r)) (AssembleRounds (map turn_of_item (cvItems c)))"
  shows "distinct (map round_id pairs)"
    and "r \<in> set pairs \<Longrightarrow> CHR ''+'' \<in> set (round_id r) \<and> set (TurnIDs r) \<subseteq> set (map itTurnID (cvItems c))"
proof -
  let ?rs = "AssembleRounds (map turn_of_item (cvItems c))"
  have ok: "concat (map roTurns ?rs) = map turn_of_item (cvItems c)" "list_all round_ok ?rs"
    using AssembleRounds_ok [of "map turn_of_item (cvItems c)"] by (simp_all add: rounds_ok_def)
  have ids: "map tuTurnID (concat (map roTurns ?rs)) = map itTurnID (cvItems c)"
    by (simp add: ok(1) turn_of_item_def comp_def)
  have mem: "set (TurnIDs r) \<subseteq> set (map itTurnID (cvItems c))" if "r \<in> set ?rs" for r
    using that arg_cong [OF ids, of set] by (auto simp: TurnIDs_def)
  have first: "takeWhile (\<lambda>ch. ch \<noteq> CHR ''+'') (round_id r) = hd (TurnIDs r)" if "r \<in> set pairs" for r
  proof -
    have o: "round_ok r" "2 \<le> length (roTurns r)" using that ok(2) by (auto simp: pairs_def list_all_iff)
    obtain t u where r: "roTurns r = [t, u]" "round_id r = tuTurnID t @ ''+'' @ tuTurnID u" "TurnIDs r = [tuTurnID t, tuTurnID u]"
      using o by (rule two_turns)
    have "tuTurnID t \<in> set (map itTurnID (cvItems c))" using mem [of r] that r(3) by (auto simp: pairs_def)
    then have "CHR ''+'' \<notin> set (tuTurnID t)" using assms(2) by (auto simp: list_all_iff plain_id_def)
    then show ?thesis using r by (simp add: takeWhile_append takeWhile_tail)
  qed
  have heads: "distinct (map (\<lambda>r. hd (TurnIDs r)) pairs)"
  proof -
    have "distinct (map (\<lambda>r. hd (TurnIDs r)) (filter P rs))"
      if "distinct (map tuTurnID (concat (map roTurns rs)))" "\<forall>r\<in>set rs. roTurns r \<noteq> []" for P and rs :: "Round list"
      using that
    proof (induction rs)
      case (Cons r rs)
      have A: "hd (TurnIDs r) \<in> tuTurnID ` set (roTurns r)" using Cons.prems(2) by (simp add: TurnIDs_def hd_map)
      have B: "hd (TurnIDs x) \<in> tuTurnID ` set (concat (map roTurns rs))" if "x \<in> set rs" for x
      proof -
        have "roTurns x \<noteq> []" using Cons.prems(2) that by simp
        then have "hd (TurnIDs x) = tuTurnID (hd (roTurns x))" "hd (roTurns x) \<in> set (roTurns x)" by (simp_all add: TurnIDs_def hd_map)
        then show ?thesis using that by (simp, blast)
      qed
      have "tuTurnID ` set (roTurns r) \<inter> tuTurnID ` set (concat (map roTurns rs)) = {}" using Cons.prems(1) by simp
      then have "hd (TurnIDs r) \<noteq> hd (TurnIDs x)" if "x \<in> set rs" for x using A B [OF that] by (metis disjoint_iff)
      then have "hd (TurnIDs r) \<notin> (\<lambda>x. hd (TurnIDs x)) ` set (filter P rs)" by auto
      then show ?case using Cons by simp
    qed simp
    moreover have "\<forall>r\<in>set ?rs. roTurns r \<noteq> []" using ok(2) by (auto simp: list_all_iff round_ok_def)
    ultimately show ?thesis using assms(1) ids by (simp add: pairs_def)
  qed
  have "distinct (map (takeWhile (\<lambda>ch. ch \<noteq> CHR ''+'')) (map round_id pairs))"
    using heads first by (simp add: comp_def cong: map_cong)
  then show "distinct (map round_id pairs)" by (simp only: distinct_map)
  show "CHR ''+'' \<in> set (round_id r) \<and> set (TurnIDs r) \<subseteq> set (map itTurnID (cvItems c))" if "r \<in> set pairs"
  proof -
    have "round_ok r" "2 \<le> length (roTurns r)" "r \<in> set ?rs" using that ok(2) by (auto simp: pairs_def list_all_iff)
    moreover obtain t u where "roTurns r = [t, u]" "round_id r = tuTurnID t @ ''+'' @ tuTurnID u"
        "TurnIDs r = [tuTurnID t, tuTurnID u]"
      using calculation(1,2) by (rule two_turns)
    ultimately show ?thesis using mem [OF \<open>r \<in> set ?rs\<close>] by auto
  qed
qed

text \<open>Turn rows and round rows never clash: with distinct plain turn ids (non-empty, without a plus sign) the
  ids of all rows of a conversation are distinct, so the corpus accepts them, and every round id expands
  to exactly the turns it was built from, all turns of the conversation.\<close>

theorem local_ids_distinct:
  assumes "distinct (map itTurnID (cvItems c))" and "list_all (\<lambda>it. plain_id (itTurnID it)) (cvItems c)"
  shows "distinct (map itTurnID (cvItems c @ fst (roundItemsOf c))) \<and>
    dom (map_of (snd (roundItemsOf c))) = itTurnID ` set (fst (roundItemsOf c)) \<and>
    (\<forall>r\<in>set (fst (roundItemsOf c)). \<exists>members. map_of (snd (roundItemsOf c)) (itTurnID r) = Some members \<and>
       itTurnID r = join_with ''+'' members \<and> set members \<subseteq> set (map itTurnID (cvItems c)))"
proof -
  let ?pairs = "filter (\<lambda>r. 2 \<le> length (roTurns r)) (AssembleRounds (map turn_of_item (cvItems c)))"
  have f: "map itTurnID (fst (roundItemsOf c)) = map round_id ?pairs"
    by (simp add: roundItemsOf_def roundItemsOf_fold(1))
  have e: "map_of (snd (roundItemsOf c)) = foldl (\<lambda>M r. M(round_id r \<mapsto> TurnIDs r)) Map.empty ?pairs"
    by (simp add: roundItemsOf_def roundItemsOf_fold(2))
  note d = round_ids [OF assms]
  have new: "round_id r \<notin> itTurnID ` set (cvItems c)" if "r \<in> set ?pairs" for r
    using d(2) [OF that] assms(2) by (auto simp: list_all_iff plain_id_def)
  have disj: "itTurnID ` set (cvItems c) \<inter> round_id ` set ?pairs = {}"
  proof -
    have "x \<notin> itTurnID ` set (cvItems c)" if x: "x \<in> round_id ` set ?pairs" for x
    proof -
      obtain r where r: "x = round_id r" "r \<in> set ?pairs" using x by (rule imageE)
      show ?thesis unfolding r(1) by (rule new [OF r(2)])
    qed
    then show ?thesis by blast
  qed
  have "distinct (map itTurnID (cvItems c @ fst (roundItemsOf c)))"
    using assms(1) d(1) disj by (simp only: map_append f distinct_append set_map)
  moreover have "dom (map_of (snd (roundItemsOf c))) = itTurnID ` set (fst (roundItemsOf c))"
    unfolding e foldl_upd_dom using arg_cong [OF f, of set] by simp
  moreover have "\<exists>members. map_of (snd (roundItemsOf c)) (itTurnID it) = Some members \<and>
       itTurnID it = join_with ''+'' members \<and> set members \<subseteq> set (map itTurnID (cvItems c))"
    if "it \<in> set (fst (roundItemsOf c))" for it
  proof -
    have "itTurnID it \<in> set (map round_id ?pairs)" using that by (metis f imageI set_map)
    then obtain r where r: "r \<in> set ?pairs" "itTurnID it = round_id r" by auto
    then show ?thesis using foldl_upd_lookup [OF d(1) r(1), of TurnIDs Map.empty] d(2) [OF r(1)]
      by (simp add: e round_id_def)
  qed
  ultimately show ?thesis by blast
qed

definition demo_items :: "item list" where
  "demo_items =
     [\<lparr>itTurnID = ''t1'', itSessionID = ''s'', itSpeaker = ''a'', itText = ''hi'', itDateTime = []\<rparr>,
      \<lparr>itTurnID = ''t2'', itSessionID = ''s'', itSpeaker = ''b'', itText = ''yo'', itDateTime = []\<rparr>,
      \<lparr>itTurnID = ''t3'', itSessionID = ''s'', itSpeaker = ''a'', itText = ''ok'', itDateTime = []\<rparr>]"

definition demo_conversation :: conversation where
  "demo_conversation = \<lparr>cvNum = 7, cvName = ''demo'', cvItems = demo_items,
     cvQuestions = [\<lparr>quID = ''q'', quQuestion = ''hi'', quQuestionDate = [], quEvidence = [''t1''], quGroup = ''g''\<rparr>]\<rparr>"

theorem local_ids_distinct_witness:
  "map itTurnID (fst (roundItemsOf demo_conversation)) = [''t1+t2''] \<and>
   distinct (map itTurnID (cvItems demo_conversation @ fst (roundItemsOf demo_conversation)))"
proof -
  have "distinct (map itTurnID (cvItems demo_conversation))"
    "list_all (\<lambda>it. plain_id (itTurnID it)) (cvItems demo_conversation)" by code_simp+
  then have "distinct (map itTurnID (cvItems demo_conversation @ fst (roundItemsOf demo_conversation)))"
    using local_ids_distinct [of demo_conversation] by blast
  moreover have "map itTurnID (fst (roundItemsOf demo_conversation)) = [''t1+t2'']" by code_simp
  ultimately show ?thesis by blast
qed

end
