(* ===== verification/Corpus.thy ===== *)
theory Corpus
  imports Ranking Embed
begin

text \<open>
  The in-memory corpus with its dense scan (\<^verbatim>\<open>internal/retrieve/corpus.go\<close>) and the BM25 index
  (\<^verbatim>\<open>internal/retrieve/bm25.go\<close>). The natural logarithm of the standard library is an argument of the
  definitions that use it. An index out of range cannot happen on a corpus that \<^verbatim>\<open>NewCorpus\<close> built,
  which the lemmas on it show.
\<close>

section \<open>The corpus\<close>

text \<open>The zero time is \<open>0\<close>; a nil embedding is \<^const>\<open>None\<close>.\<close>

record Row =
  rowID :: string
  rowConversationID :: string
  rowSessionID :: string
  rowTurnID :: string
  rowText :: string
  rowLexemes :: "string list"
  rowTimestamp :: time
  rowEmbeddingBytes :: "bytes option"

record Corpus =
  coDims :: nat
  coArena :: "f32 list"
  coIds :: "string list"
  coSessions :: "string list"
  coTimes :: "time list"
  coLexemes :: "string list list"
  coByID :: "string \<Rightarrow> nat option"

definition copy_at :: "nat \<Rightarrow> 'a list \<Rightarrow> 'a list \<Rightarrow> 'a list" where
  "copy_at off v arena = take off arena @ v @ drop (off + length v) arena"

definition add_row :: "nat \<Rightarrow> Row \<Rightarrow> f32 list \<Rightarrow> Corpus \<Rightarrow> Corpus" where
  "add_row i r arena c =
     c\<lparr>coArena := arena, coIds := (coIds c)[i := rowID r], coSessions := (coSessions c)[i := rowSessionID r],
       coTimes := (coTimes c)[i := rowTimestamp r], coLexemes := (coLexemes c)[i := rowLexemes r],
       coByID := (coByID c)(rowID r \<mapsto> i)\<rparr>"

fun corpus_loop :: "nat \<Rightarrow> Row list \<Rightarrow> Corpus \<Rightarrow> (go_error, Corpus) result" where
  "corpus_loop i [] c = Inr c"
| "corpus_loop i (r # rs) c =
     (if rowID r = [] then Inl (Errorf ''retrieve: row %d has empty id'' [AInt (int i)])
      else if coByID c (rowID r) \<noteq> None then Inl (Errorf ''retrieve: duplicate row id %q'' [AStr (rowID r)])
      else case rowEmbeddingBytes r of
        None \<Rightarrow> corpus_loop (i + 1) rs (add_row i r (coArena c) c)
      | Some b \<Rightarrow>
          (case UnpackVector b of
             Inl e \<Rightarrow> Inl (Wrapf ''retrieve: row %q: %w'' [AStr (rowID r)] e)
           | Inr v \<Rightarrow>
               if length v \<noteq> coDims c
               then Inl (Errorf ''retrieve: row %q has %d dims, want %d''
                           [AStr (rowID r), AInt (int (length v)), AInt (int (coDims c))])
               else corpus_loop (i + 1) rs (add_row i r (copy_at (i * coDims c) v (coArena c)) c)))"

definition NewCorpus :: "Row list \<Rightarrow> (go_error, Corpus) result" where
  "NewCorpus rows =
     (let n = length rows in
      corpus_loop 0 rows
        \<lparr>coDims = Dims, coArena = replicate (n * Dims) 0, coIds = replicate n [], coSessions = replicate n [],
         coTimes = replicate n 0, coLexemes = replicate n [], coByID = (\<lambda>_. None)\<rparr>)"

definition Len :: "Corpus \<Rightarrow> nat" where
  "Len c = length (coIds c)"

definition Vector_of :: "Corpus \<Rightarrow> nat \<Rightarrow> f32 list" where
  "Vector_of c i = take (coDims c) (drop (i * coDims c) (coArena c))"

definition IndexOf :: "Corpus \<Rightarrow> string \<Rightarrow> nat option" where
  "IndexOf c i = coByID c i"

definition SessionOf :: "Corpus \<Rightarrow> nat \<Rightarrow> string" where
  "SessionOf c i = coSessions c ! i"

definition TimeOf :: "Corpus \<Rightarrow> string \<Rightarrow> time option" where
  "TimeOf c d =
     (case coByID c d of None \<Rightarrow> None | Some i \<Rightarrow> if coTimes c ! i = 0 then None else Some (coTimes c ! i))"

definition Dot :: "f32 list \<Rightarrow> f32 list \<Rightarrow> f64" where
  "Dot a b = foldl (\<lambda>s (x, y). f64_add s (f64_mul (f32_to_f64 x) (f32_to_f64 y))) (Num 0) (zip a b)"

definition Cosine :: "f32 list \<Rightarrow> f32 list \<Rightarrow> f64" where
  "Cosine a b =
     (let dot = Dot a b; na = Dot a a; nb = Dot b b in
      if f64_eq na (Num 0) \<or> f64_eq nb (Num 0) then Num 0
      else f64_div dot (f64_mul (f64_sqrt na) (f64_sqrt nb)))"

definition cut :: "int \<Rightarrow> 'a list \<Rightarrow> 'a list" where
  "cut n out = (if n > 0 \<and> n < int (length out) then take (nat n) out else out)"

definition dense_scores :: "Corpus \<Rightarrow> f32 list \<Rightarrow> Scored list" where
  "dense_scores c query =
     map (\<lambda>i. \<lparr>sID = coIds c ! i, sScore = Dot (Vector_of c i) query\<rparr>) [0..<Len c]"

definition DenseTopN :: "Corpus \<Rightarrow> f32 list \<Rightarrow> int \<Rightarrow> Scored list" where
  "DenseTopN c query n =
     (if length query \<noteq> coDims c then [] else cut n (sortScored (dense_scores c query)))"

section \<open>BM25\<close>

record posting =
  poDoc :: nat
  poTf :: nat

record BM25 =
  bmK1 :: f64
  bmB :: f64
  bmIds :: "string list"
  bmDocLen :: "nat list"
  bmAvgLen :: f64
  bmPostings :: "string \<Rightarrow> posting list option"

definition DefaultK1 :: f64 where "DefaultK1 = f64_const (6 / 5)"
definition DefaultB :: f64 where "DefaultB = f64_const (3 / 4)"

definition add_posting :: "string \<Rightarrow> posting \<Rightarrow> (string \<Rightarrow> posting list option) \<Rightarrow> string \<Rightarrow> posting list option" where
  "add_posting t p ps = ps(t \<mapsto> (case ps t of None \<Rightarrow> [] | Some l \<Rightarrow> l) @ [p])"

definition index_doc :: "nat \<Rightarrow> string list \<Rightarrow> (string \<Rightarrow> posting list option) \<Rightarrow> string \<Rightarrow> posting list option" where
  "index_doc i doc ps =
     fold (\<lambda>t. add_posting t \<lparr>poDoc = i, poTf = count_by (\<lambda>u. u = t) doc\<rparr>) (remdups doc) ps"

fun index_docs :: "nat \<Rightarrow> string list list \<Rightarrow> (string \<Rightarrow> posting list option) \<Rightarrow> string \<Rightarrow> posting list option" where
  "index_docs i [] ps = ps"
| "index_docs i (doc # docs) ps = index_docs (i + 1) docs (index_doc i doc ps)"

definition NewBM25Params :: "string list \<Rightarrow> string list list \<Rightarrow> f64 \<Rightarrow> f64 \<Rightarrow> BM25" where
  "NewBM25Params ids docs k1 b =
     \<lparr>bmK1 = k1, bmB = b, bmIds = ids, bmDocLen = map length docs,
      bmAvgLen = (if 0 < length docs
                  then f64_div (f64_of_int (int (sum_list (map length docs)))) (f64_of_int (int (length docs)))
                  else Num 0),
      bmPostings = index_docs 0 docs (\<lambda>_. None)\<rparr>"

definition NewBM25 :: "string list \<Rightarrow> string list list \<Rightarrow> BM25" where
  "NewBM25 ids docs = NewBM25Params ids docs DefaultK1 DefaultB"

definition NewBM25FromCorpus :: "Corpus \<Rightarrow> BM25" where
  "NewBM25FromCorpus c = NewBM25 (coIds c) (coLexemes c)"

definition idf :: "(f64 \<Rightarrow> f64) \<Rightarrow> BM25 \<Rightarrow> nat \<Rightarrow> f64" where
  "idf mlog x df =
     (let n = f64_of_int (int (length (bmIds x))); d = f64_of_int (int df); half = Num (1 / 2) in
      mlog (f64_add (Num 1) (f64_div (f64_add (f64_sub n d) half) (f64_add d half))))"

definition bm25_term :: "BM25 \<Rightarrow> f64 \<Rightarrow> posting \<Rightarrow> f64" where
  "bm25_term x w p =
     (let tf = f64_of_int (int (poTf p));
          norm = f64_add (f64_sub (Num 1) (bmB x))
                   (f64_div (f64_mul (bmB x) (f64_of_int (int (bmDocLen x ! poDoc p)))) (bmAvgLen x))
      in f64_div (f64_mul (f64_mul w tf) (f64_add (bmK1 x) (Num 1))) (f64_add tf (f64_mul (bmK1 x) norm)))"

definition acc_term :: "(f64 \<Rightarrow> f64) \<Rightarrow> BM25 \<Rightarrow> string \<Rightarrow> (nat \<times> f64) list \<Rightarrow> (nat \<times> f64) list" where
  "acc_term mlog x t acc =
     (case bmPostings x t of
        None \<Rightarrow> acc
      | Some plist \<Rightarrow>
          let w = idf mlog x (length plist)
          in fold (\<lambda>p. map_add_at (poDoc p) (bm25_term x w p)) plist acc)"

definition TopN :: "(f64 \<Rightarrow> f64) \<Rightarrow> BM25 \<Rightarrow> string list \<Rightarrow> int \<Rightarrow> Scored list" where
  "TopN mlog x query n =
     cut n (sortScored (map (\<lambda>(d, s). \<lparr>sID = bmIds x ! d, sScore = s\<rparr>) (fold (acc_term mlog x) query [])))"

section \<open>What a corpus holds\<close>

definition row_vector :: "Row \<Rightarrow> f32 list" where
  "row_vector r =
     (case rowEmbeddingBytes r of
        None \<Rightarrow> replicate Dims 0
      | Some b \<Rightarrow> (case UnpackVector b of Inl _ \<Rightarrow> [] | Inr v \<Rightarrow> v))"

definition row_ok :: "Row \<Rightarrow> bool" where
  "row_ok r \<longleftrightarrow> rowID r \<noteq> [] \<and> length (row_vector r) = Dims"

text \<open>The corpus after the first \<open>i\<close> rows.\<close>

definition corpus_upto :: "nat \<Rightarrow> Row list \<Rightarrow> Corpus \<Rightarrow> bool" where
  "corpus_upto i rows c \<longleftrightarrow>
     i \<le> length rows \<and> coDims c = Dims \<and>
     coArena c = concat (map row_vector (take i rows)) @ replicate ((length rows - i) * Dims) 0 \<and>
     coIds c = map rowID (take i rows) @ replicate (length rows - i) [] \<and>
     coSessions c = map rowSessionID (take i rows) @ replicate (length rows - i) [] \<and>
     coTimes c = map rowTimestamp (take i rows) @ replicate (length rows - i) 0 \<and>
     coLexemes c = map rowLexemes (take i rows) @ replicate (length rows - i) [] \<and>
     list_all row_ok (take i rows) \<and> distinct (map rowID (take i rows)) \<and>
     coByID c = map_of (zip (map rowID (take i rows)) [0..<i])"

lemma length_row_vectors: "list_all row_ok rs \<Longrightarrow> length (concat (map row_vector rs)) = length rs * Dims"
  by (induction rs) (auto simp: row_ok_def)

lemma update_pad:
  assumes "length xs = i" and "i < n"
  shows "(xs @ replicate (n - i) z)[i := y] = (xs @ [y]) @ replicate (n - Suc i) z"
proof -
  have "n - i = Suc (n - Suc i)" using assms(2) by simp
  then have "xs @ replicate (n - i) z = xs @ z # replicate (n - Suc i) z" by simp
  then show ?thesis using list_update_length [of xs z _ y] assms(1) by simp
qed

lemma copy_pad:
  assumes "length xs = i * d" and "length v = d" and "i < n"
  shows "copy_at (i * d) v (xs @ replicate ((n - i) * d) z) = (xs @ v) @ replicate ((n - Suc i) * d) z"
proof -
  have "(n - i) * d = d + (n - Suc i) * d" using assms(3) by (metis Suc_diff_Suc mult_Suc)
  then show ?thesis using assms(1,2) by (simp add: copy_at_def replicate_add)
qed

lemma map_of_snoc: "map_of m k = None \<Longrightarrow> map_of (m @ [(k, v)]) = (map_of m)(k \<mapsto> v)"
  by (induction m) (auto simp: fun_eq_iff split: if_splits)

lemma add_row_upto:
  assumes c: "corpus_upto i rows c" and i: "i < length rows" and r: "rows ! i = r"
    and ok: "row_ok r" and new: "coByID c (rowID r) = None"
    and arena: "arena = concat (map row_vector (take (Suc i) rows)) @ replicate ((length rows - Suc i) * Dims) 0"
  shows "corpus_upto (Suc i) rows (add_row i r arena c)"
proof -
  have t: "take (Suc i) rows = take i rows @ [r]" using i r by (simp add: take_Suc_conv_app_nth)
  have len: "length (take i rows) = i" using i by simp
  have "rowID r \<notin> set (map rowID (take i rows))"
    using c new len map_of_zip_is_None [of "map rowID (take i rows)" "[0..<i]"] by (simp add: corpus_upto_def)
  moreover have "map_of (zip (map rowID (take i rows @ [r])) [0..<Suc i]) =
      (map_of (zip (map rowID (take i rows)) [0..<i]))(rowID r \<mapsto> i)"
  proof -
    have "map_of (zip (map rowID (take i rows)) [0..<i]) (rowID r) = None"
      using c new by (simp add: corpus_upto_def)
    moreover have "zip (map rowID (take i rows @ [r])) [0..<Suc i] =
        zip (map rowID (take i rows)) [0..<i] @ [(rowID r, i)]" using len by simp
    ultimately show ?thesis using map_of_snoc by metis
  qed
  ultimately show ?thesis
    using c i ok arena len by (simp add: corpus_upto_def add_row_def t update_pad)
qed

lemma corpus_loop_ok:
  "corpus_upto i rows c \<Longrightarrow> rs = drop i rows \<Longrightarrow>
   (case corpus_loop i rs c of
      Inr c' \<Rightarrow> corpus_upto (length rows) rows c'
    | Inl e \<Rightarrow> \<not> (list_all row_ok rows \<and> distinct (map rowID rows)))"
proof (induction i rs c rule: corpus_loop.induct)
  case (1 i c)
  then have "length rows \<le> i" by simp
  then have "i = length rows" using 1(1) by (simp add: corpus_upto_def)
  then show ?case using 1(1) by simp
next
  case (2 i r rs c)
  have i: "i < length rows" and r: "rows ! i = r" and rs: "rs = drop (i + 1) rows"
    using 2(4) by (metis drop_all leI list.discI, metis nth_via_drop, metis add.commute drop_Suc
      drop_drop list.sel(3) plus_1_eq_Suc tl_drop)
  have mem: "r \<in> set rows" using i r by auto
  have t: "take (Suc i) rows = take i rows @ [r]" using i r by (simp add: take_Suc_conv_app_nth)
  have d: "coDims c = Dims" using 2(3) by (simp add: corpus_upto_def)
  have dup: "\<not> distinct (map rowID rows)" if "coByID c (rowID r) \<noteq> None"
  proof -
    have "rowID r \<in> set (map rowID (take i rows))"
      using 2(3) that by (auto simp: corpus_upto_def dest: map_of_SomeD set_zip_leftD)
    moreover have "rows = take i rows @ r # drop (Suc i) rows" using i r by (metis id_take_nth_drop)
    then have "map rowID rows = map rowID (take i rows) @ rowID r # map rowID (drop (Suc i) rows)"
      by (metis list.simps(9) map_append)
    ultimately show ?thesis by (metis Un_iff disjoint_iff distinct_append list.set_intros(1))
  qed
  have step: "corpus_upto (i + 1) rows (add_row i r arena c)"
    if "row_ok r" "coByID c (rowID r) = None"
      "arena = concat (map row_vector (take (Suc i) rows)) @ replicate ((length rows - Suc i) * Dims) 0" for arena
    using add_row_upto [OF 2(3) i r that] by simp
  have len: "length (concat (map row_vector (take i rows))) = i * Dims"
    using length_row_vectors [of "take i rows"] 2(3) i by (simp add: corpus_upto_def)
  have arena: "coArena c = concat (map row_vector (take i rows)) @ replicate ((length rows - i) * Dims) 0"
    using 2(3) by (simp add: corpus_upto_def)
  consider (bad) "rowID r = []" | (dup) "rowID r \<noteq> []" "coByID c (rowID r) \<noteq> None"
    | (ok) "rowID r \<noteq> []" "coByID c (rowID r) = None" by blast
  then show ?case
  proof cases
    case bad
    then have "\<not> row_ok r" by (simp add: row_ok_def)
    then show ?thesis using bad mem by (auto simp: list_all_iff)
  next
    case dup
    then show ?thesis using \<open>coByID c (rowID r) \<noteq> None \<Longrightarrow> \<not> distinct (map rowID rows)\<close> by simp
  next
    case ok
    show ?thesis
    proof (cases "rowEmbeddingBytes r")
      case None
      then have v: "row_vector r = replicate Dims 0" and rok: "row_ok r" using ok by (simp_all add: row_vector_def row_ok_def)
      have "(length rows - i) * Dims = Dims + (length rows - Suc i) * Dims" using i by (metis Suc_diff_Suc mult_Suc)
      then have "coArena c = concat (map row_vector (take (Suc i) rows)) @ replicate ((length rows - Suc i) * Dims) 0"
        by (simp add: arena t v replicate_add)
      from step [OF rok ok(2) this] show ?thesis using 2(1) [OF _ _ None] ok None rs by simp
    next
      case (Some b)
      show ?thesis
      proof (cases "UnpackVector b")
        case (Inl e)
        then have "\<not> row_ok r" using Some by (simp add: row_vector_def row_ok_def Dims_def)
        then show ?thesis using ok Some Inl mem by (auto simp: list_all_iff)
      next
        case (Inr v)
        then have v: "row_vector r = v" using Some by (simp add: row_vector_def)
        show ?thesis
        proof (cases "length v = Dims")
          case True
          have "copy_at (i * coDims c) v (coArena c) =
              concat (map row_vector (take (Suc i) rows)) @ replicate ((length rows - Suc i) * Dims) 0"
            unfolding arena d using copy_pad [OF len True i] by (simp add: t v)
          from step [OF _ ok(2) this] show ?thesis
            using 2(2) [OF _ _ Some Inr] ok Some Inr True d v rs by (simp add: row_ok_def)
        next
          case False
          then have "\<not> row_ok r" using v by (simp add: row_ok_def)
          then show ?thesis using ok Some Inr False d mem by (auto simp: list_all_iff)
        qed
      qed
    qed
  qed
qed

lemma start_upto:
  "corpus_upto 0 rows
     \<lparr>coDims = Dims, coArena = replicate (length rows * Dims) 0, coIds = replicate (length rows) [],
      coSessions = replicate (length rows) [], coTimes = replicate (length rows) 0,
      coLexemes = replicate (length rows) [], coByID = (\<lambda>_. None)\<rparr>"
  by (simp add: corpus_upto_def)

lemma NewCorpus_cases:
  "case NewCorpus rows of
     Inr c \<Rightarrow> corpus_upto (length rows) rows c
   | Inl e \<Rightarrow> \<not> (list_all row_ok rows \<and> distinct (map rowID rows))"
  using corpus_loop_ok [OF start_upto, of "rows" rows] by (simp add: NewCorpus_def Let_def)

lemma take_drop_concat:
  assumes "i < length vs" and "list_all (\<lambda>v. length v = d) vs"
  shows "take d (drop (i * d) (concat vs)) = vs ! i"
  using assms
proof (induction vs arbitrary: i)
  case (Cons v vs)
  then show ?case by (cases i) auto
qed simp

lemma corpus_full:
  assumes "corpus_upto (length rows) rows c"
  shows "coDims c = Dims" "coIds c = map rowID rows" "coSessions c = map rowSessionID rows"
    "coTimes c = map rowTimestamp rows" "coLexemes c = map rowLexemes rows"
    "list_all row_ok rows" "distinct (map rowID rows)"
    "i < length rows \<Longrightarrow> Vector_of c i = row_vector (rows ! i)"
    "IndexOf c d = Some i \<longleftrightarrow> i < length rows \<and> rowID (rows ! i) = d"
proof -
  note u = assms [unfolded corpus_upto_def]
  show "coDims c = Dims" "coIds c = map rowID rows" "coSessions c = map rowSessionID rows"
    "coTimes c = map rowTimestamp rows" "coLexemes c = map rowLexemes rows"
    and ok: "list_all row_ok rows" and di: "distinct (map rowID rows)"
    using u by simp_all
  show "Vector_of c i = row_vector (rows ! i)" if "i < length rows"
  proof -
    have "list_all (\<lambda>v. length v = Dims) (map row_vector rows)"
      using ok by (auto simp: list_all_iff row_ok_def)
    then show ?thesis using take_drop_concat [of i "map row_vector rows" Dims] u that by (simp add: Vector_of_def)
  qed
  have "IndexOf c d = Some i \<longleftrightarrow> i < length rows \<and> map rowID rows ! i = d"
    using u map_of_zip_nth [of "map rowID rows" "[0..<length rows]"] di
    by (auto simp: IndexOf_def in_set_zip dest!: map_of_SomeD)
  then show "IndexOf c d = Some i \<longleftrightarrow> i < length rows \<and> rowID (rows ! i) = d" by auto
qed

text \<open>Building a corpus succeeds exactly when the ids are non-empty and distinct and every embedding
  unpacks to 768 floats. Then each row's view into the arena is its own vector (zeros for a row
  without one), and looking up its id, session, timestamp and lexemes finds what the row had; an id
  that is no row's is not found.\<close>

theorem NewCorpus_faithful:
  "((\<exists>c. NewCorpus rows = Inr c) \<longleftrightarrow> list_all row_ok rows \<and> distinct (map rowID rows)) \<and>
   (\<forall>c. NewCorpus rows = Inr c \<longrightarrow>
      Len c = length rows \<and>
      (\<forall>i<length rows. Vector_of c i = row_vector (rows ! i) \<and> length (Vector_of c i) = coDims c \<and>
         coIds c ! i = rowID (rows ! i) \<and> IndexOf c (rowID (rows ! i)) = Some i \<and>
         SessionOf c i = rowSessionID (rows ! i) \<and> coLexemes c ! i = rowLexemes (rows ! i) \<and>
         TimeOf c (rowID (rows ! i)) = (if rowTimestamp (rows ! i) = 0 then None else Some (rowTimestamp (rows ! i)))) \<and>
      (\<forall>d. d \<notin> rowID ` set rows \<longrightarrow> IndexOf c d = None \<and> TimeOf c d = None))"
proof (cases "NewCorpus rows")
  case (Inl e)
  then show ?thesis using NewCorpus_cases [of rows] by simp
next
  case (Inr c)
  then have u: "corpus_upto (length rows) rows c" using NewCorpus_cases [of rows] by simp
  note f = corpus_full [OF u]
  have none: "IndexOf c d = None" if "d \<notin> rowID ` set rows" for d
  proof (rule ccontr)
    assume "IndexOf c d \<noteq> None"
    then obtain a where "a < length rows" "rowID (rows ! a) = d" using f(9) by blast
    then show False using that by auto
  qed
  have len: "length (row_vector (rows ! i)) = Dims" if "i < length rows" for i
    using f(6) that by (auto simp: list_all_iff row_ok_def)
  have idx: "IndexOf c (rowID (rows ! i)) = Some i" if "i < length rows" for i using f(9) that by blast
  have tm: "TimeOf c (rowID (rows ! i)) = (if rowTimestamp (rows ! i) = 0 then None else Some (rowTimestamp (rows ! i)))"
    if "i < length rows" for i
    using idx [OF that] f(4) that by (simp add: TimeOf_def IndexOf_def)
  have tn: "TimeOf c d = None" if "d \<notin> rowID ` set rows" for d
    using none [OF that] by (simp add: TimeOf_def IndexOf_def)
  show ?thesis
    using Inr f(1-8) none len idx tm tn by (simp add: Len_def SessionOf_def)
qed

definition demo_rows :: "Row list" where
  "demo_rows = [\<lparr>rowID = ''m1'', rowConversationID = ''7'', rowSessionID = ''s1'', rowTurnID = ''t1'',
     rowText = ''hi'', rowLexemes = [''hi''], rowTimestamp = 5, rowEmbeddingBytes = None\<rparr>]"

theorem NewCorpus_faithful_witness:
  "\<exists>c. NewCorpus demo_rows = Inr c \<and> IndexOf c ''m1'' = Some 0 \<and> TimeOf c ''m1'' = Some 5 \<and> IndexOf c ''m2'' = None"
proof -
  have "list_all row_ok demo_rows \<and> distinct (map rowID demo_rows)"
    by (simp add: demo_rows_def row_ok_def row_vector_def)
  then obtain c where c: "NewCorpus demo_rows = Inr c" using NewCorpus_faithful [of demo_rows] by blast
  then show ?thesis using NewCorpus_faithful [of demo_rows] by (auto simp: demo_rows_def)
qed

section \<open>The dense scan\<close>

lemma rnd64_scaled:
  assumes "0 < m" and "m < 2 ^ 53"
  shows "rnd64 (of_int m * 2 powi 256) = of_int m * 2 powi 256"
proof -
  let ?B = "of_int m * (2 :: rat) powi 256"
  have B: "0 < ?B" using assms(1) by simp
  have "(of_int m :: rat) < of_int (2 ^ 53)" using assms(2) by (simp only: of_int_less_iff)
  then have "?B < of_int (2 ^ 53) * 2 powi 256" by (intro mult_strict_right_mono) auto
  also have "\<dots> = 2 powi (53 + 256)" using power_int_add [of "2 :: rat" 53 256] by simp
  finally have "(2 :: rat) powi ilog2 ?B < 2 powi (53 + 256)" using ilog2_bounds(1) [OF B] by linarith
  then have "ilog2 ?B < 53 + 256" by (simp only: powi2_less_iff)
  then have "quantum 53 (- 1074) ?B \<le> 256" by (simp add: quantum_def)
  then have "round_pos 53 (- 1074) ?B = ?B" by (intro binary64.round_pos_exact [of _ m 256]) simp_all
  then show ?thesis using B by (simp only: rnd64_def round_to_def if_True) simp
qed

lemma rnd64_minus: "rnd64 (- x) = - rnd64 x"
  by (simp add: rnd64_def round_to_def)

lemma mk64_bound:
  assumes "\<bar>r\<bar> \<le> of_int m * 2 powi 256" and "0 < m" and "m < 2 ^ 53"
  shows "is_fin (mk64 n r) \<and> \<bar>fval (mk64 n r)\<bar> \<le> of_int m * 2 powi 256"
proof -
  define B :: rat where "B = of_int m * 2 powi 256"
  have "rnd64 B = B" unfolding B_def by (rule rnd64_scaled [OF assms(2,3)])
  moreover have "\<bar>r\<bar> \<le> B" using assms(1) by (simp add: B_def)
  ultimately have b: "\<bar>rnd64 r\<bar> \<le> B"
    using rnd64_mono [of r B] rnd64_mono [of "- B" r] rnd64_minus [of B] by (simp add: abs_le_iff)
  have "(of_int m :: rat) \<le> of_int (2 ^ 53)" using assms(3) by (simp only: of_int_le_iff)
  then have "B \<le> of_int (2 ^ 53) * 2 powi 256" unfolding B_def by (intro mult_right_mono) auto
  also have "\<dots> = 2 powi 309" using power_int_add [of "2 :: rat" 53 256] by simp
  finally have le: "B \<le> 2 powi 309" .
  have i: "ilog2 \<bar>rnd64 r\<bar> < 1024" if "rnd64 r \<noteq> 0"
  proof -
    have "(2 :: rat) powi ilog2 \<bar>rnd64 r\<bar> \<le> 2 powi 309"
      using ilog2_bounds(1) [of "\<bar>rnd64 r\<bar>"] that b le by linarith
    then show ?thesis unfolding powi2_le_iff by simp
  qed
  have "0 \<le> B" using b by linarith
  then have "is_fin (mk64 n r) \<and> \<bar>fval (mk64 n r)\<bar> \<le> B"
    using b i by (cases "rnd64 r = 0") (auto simp: mk64_def Let_def is_fin_def is_inf_def)
  then show ?thesis by (simp only: B_def)
qed

lemma f32_value_bound: "f32_finite w \<Longrightarrow> \<bar>fval (f32_to_f64 w)\<bar> \<le> 2 powi 128"
proof -
  assume fin: "f32_finite w"
  define n where "n = uint w"
  define e where "e = n div 8388608 mod 256"
  define m where "m = n mod 8388608"
  define s where "s = (2147483648 \<le> n)"
  have m: "0 \<le> m" "m < 8388608" and e: "0 \<le> e" "e < 256" by (simp_all add: m_def e_def)
  have d: "f32_to_f64 w =
     (if e = 255 then (if m = 0 then (if s then NInf else PInf) else NaN)
      else if e = 0 \<and> m = 0 then (if s then NegZero else Num 0)
      else let r = (if e = 0 then of_int m * 2 powi - 149 else of_int (8388608 + m) * 2 powi (e - 150))
           in Num (if s then - r else r))"
    by (simp add: f32_to_f64_def Let_def n_def s_def e_def m_def)
  have e255: "e \<noteq> 255" using fin by (auto simp: f32_finite_def d is_fin_def is_inf_def split: if_splits)
  have b: "of_int k * (2 :: rat) powi j \<le> 2 powi 128" if "0 \<le> k" "k \<le> 16777216" "j \<le> 104" for k j :: int
  proof -
    have "(of_int k :: rat) \<le> of_int 16777216" using that(2) by (simp only: of_int_le_iff)
    then have "of_int k * (2 :: rat) powi j \<le> of_int 16777216 * 2 powi j" by (intro mult_right_mono) auto
    also have "\<dots> = 2 powi (24 + j)" using power_int_add [of "2 :: rat" 24 j] by simp
    also have "\<dots> \<le> 2 powi 128" unfolding powi2_le_iff using that(3) by simp
    finally show ?thesis .
  qed
  define r :: rat where
    "r = (if e = 0 then of_int m * 2 powi - 149 else of_int (8388608 + m) * 2 powi (e - 150))"
  have "r \<le> 2 powi 128" unfolding r_def using b [of m "- 149"] b [of "8388608 + m" "e - 150"] m e e255 by (simp only: split: if_split) auto
  moreover have "0 \<le> r" unfolding r_def using m by (simp only: split: if_split) simp
  moreover have "\<bar>fval (f32_to_f64 w)\<bar> \<le> \<bar>r\<bar>" unfolding d using e255 by (simp add: r_def Let_def)
  ultimately show ?thesis by linarith
qed

lemma f64_mul_bound:
  assumes "f32_finite x" and "f32_finite y"
  shows "is_fin (f64_mul (f32_to_f64 x) (f32_to_f64 y)) \<and>
    \<bar>fval (f64_mul (f32_to_f64 x) (f32_to_f64 y))\<bar> \<le> 2 powi 256"
proof -
  let ?a = "fval (f32_to_f64 x)" and ?b = "fval (f32_to_f64 y)"
  have "\<bar>?a * ?b\<bar> \<le> 2 powi 128 * 2 powi 128"
    unfolding abs_mult using f32_value_bound assms by (intro mult_mono) auto
  also have "(2 :: rat) powi 128 * 2 powi 128 = 2 powi 256" by (subst power_int_add [symmetric]) simp_all
  finally have "\<bar>?a * ?b\<bar> \<le> of_int 1 * 2 powi 256" by simp
  from mk64_bound [OF this] have "is_fin (mk64 n (?a * ?b)) \<and> \<bar>fval (mk64 n (?a * ?b))\<bar> \<le> 2 powi 256" for n by simp
  then show ?thesis using assms by (auto simp: f64_mul_def Let_def f32_finite_def is_fin_def)
qed

text \<open>Inner products of finite vectors are finite: 2 to the 53rd products of magnitude 2 to the 256th
  do not overflow.\<close>

lemma Dot_fin:
  assumes "list_all f32_finite a" and "list_all f32_finite b" and "length a < 2 ^ 53"
  shows "is_fin (Dot a b)"
proof -
  define ps where "ps = zip a b"
  have fin: "\<forall>p\<in>set ps. f32_finite (fst p) \<and> f32_finite (snd p)"
    using assms(1,2) by (auto simp: ps_def list_all_iff dest: set_zip_leftD set_zip_rightD)
  have "is_fin (foldl (\<lambda>s (x, y). f64_add s (f64_mul (f32_to_f64 x) (f32_to_f64 y))) s qs) "
    if "is_fin s" "\<bar>fval s\<bar> \<le> of_int k * 2 powi 256" "0 \<le> k" "k + int (length qs) < 2 ^ 53"
      "\<forall>p\<in>set qs. f32_finite (fst p) \<and> f32_finite (snd p)" for s k qs
    using that
  proof (induction qs arbitrary: s k)
    case (Cons p qs)
    obtain x y where p: "p = (x, y)" by force
    let ?m = "f64_mul (f32_to_f64 x) (f32_to_f64 y)"
    have m: "is_fin ?m" "\<bar>fval ?m\<bar> \<le> 2 powi 256" using f64_mul_bound [of x y] Cons.prems(5) p by auto
    have "\<bar>fval s + fval ?m\<bar> \<le> of_int (k + 1) * 2 powi 256"
      using Cons.prems(2) m(2) abs_triangle_ineq [of "fval s" "fval ?m"] by (simp add: distrib_right)
    from mk64_bound [OF this] have "is_fin (f64_add s ?m) \<and> \<bar>fval (f64_add s ?m)\<bar> \<le> of_int (k + 1) * 2 powi 256"
      using Cons.prems m(1) by (auto simp: f64_add_def is_fin_def)
    then show ?case using Cons.IH [of "f64_add s ?m" "k + 1"] Cons.prems p by simp
  qed simp
  from this [of "Num 0" 0 ps] show ?thesis
    using fin assms(3) by (simp add: Dot_def ps_def is_fin_def is_inf_def)
qed

lemma cut_length: "length (cut n xs) = (if 0 < n \<and> n < int (length xs) then nat n else length xs)"
  by (auto simp: cut_def)

lemma cut_prefix: "cut n xs = take (length (cut n xs)) xs"
  by (simp add: cut_def min_def)

lemma cut_set: "set (cut n xs) \<subseteq> set xs"
  by (auto simp: cut_def dest: in_set_takeD)

lemma cut_best:
  assumes "list_all no_NaN xs" and "s \<in> set (cut n (sortScored xs))" and "t \<in> set xs" and "t \<notin> set (cut n (sortScored xs))"
  shows "\<not> f64_lt (sScore s) (sScore t)"
proof -
  let ?ys = "sortScored xs" and ?k = "length (cut n (sortScored xs))"
  have "t \<in> set ?ys" using assms(3) by simp
  then have "t \<in> set (drop ?k ?ys)"
    using assms(4) cut_prefix [of n ?ys] by (metis Un_iff append_take_drop_id set_append)
  moreover have "sorted_wrt (\<lambda>s t. f64_lt (sScore t) (sScore s) \<or> (f64_eq (sScore s) (sScore t) \<and> sID s \<le> sID t))
      (take ?k ?ys @ drop ?k ?ys)"
    using sortScored_ranked [OF assms(1)] by (simp add: ranked_def)
  ultimately have "f64_lt (sScore t) (sScore s) \<or> f64_eq (sScore s) (sScore t)"
    using assms(2) cut_prefix [of n ?ys] unfolding sorted_wrt_append by metis
  then show ?thesis by (auto simp: f64_lt_def f64_eq_def)
qed

lemma sort_distinct: "distinct (idsOf xs) \<Longrightarrow> distinct (idsOf (sortScored xs))"
proof -
  have "mset (idsOf (sortScored xs)) = mset (idsOf xs)" by (simp add: idsOf_def)
  then show "distinct (idsOf xs) \<Longrightarrow> ?thesis" by (metis mset_eq_imp_distinct_iff)
qed

lemma cut_ranked: "ranked xs \<Longrightarrow> ranked (cut n xs)"
  by (auto simp: cut_def ranked_def intro: sorted_wrt_take)

lemma cut_distinct: "distinct (idsOf xs) \<Longrightarrow> distinct (idsOf (cut n xs))"
  by (auto simp: cut_def idsOf_def take_map [symmetric] intro: distinct_take)

text \<open>C29. Over a corpus of finite vectors, the dense scan for a finite query of 768 floats ranks the rows
  by their inner product with the query, which is never NaN: the result is ranked, has \<^verbatim>\<open>n\<close> rows (all
  when \<^verbatim>\<open>n\<close> is out of range), no row twice, and no row that is left out scores higher than one that
  is returned. A query of another length gives nothing.\<close>

theorem dense_top_n:
  assumes "NewCorpus rows = Inr c" and "list_all (\<lambda>r. list_all f32_finite (row_vector r)) rows"
    and "list_all f32_finite query"
  shows "(length query \<noteq> Dims \<longrightarrow> DenseTopN c query n = []) \<and>
    (length query = Dims \<longrightarrow>
      length (DenseTopN c query n) = (if 0 < n \<and> n < int (length rows) then nat n else length rows) \<and>
      ranked (DenseTopN c query n) \<and> distinct (idsOf (DenseTopN c query n)) \<and>
      (\<forall>s\<in>set (DenseTopN c query n). \<exists>r\<in>set rows. s = \<lparr>sID = rowID r, sScore = Dot (row_vector r) query\<rparr> \<and> sScore s \<noteq> NaN) \<and>
      (\<forall>r\<in>set rows. rowID r \<notin> set (idsOf (DenseTopN c query n)) \<longrightarrow>
         (\<forall>s\<in>set (DenseTopN c query n). \<not> f64_lt (sScore s) (Dot (row_vector r) query))))"
proof -
  have u: "corpus_upto (length rows) rows c" using NewCorpus_cases [of rows] assms(1) by simp
  note f = corpus_full [OF u]
  let ?xs = "map (\<lambda>r. \<lparr>sID = rowID r, sScore = Dot (row_vector r) query\<rparr>) rows"
  have xs: "dense_scores c query = ?xs"
    using f(2) f(8) by (intro nth_equalityI) (simp_all add: dense_scores_def Len_def)
  have "is_fin (Dot (row_vector r) query)" if "r \<in> set rows" for r
  proof (rule Dot_fin)
    show "list_all f32_finite (row_vector r)" using assms(2) that by (simp add: list_all_iff)
    show "length (row_vector r) < 2 ^ 53" using f(6) that by (simp add: list_all_iff row_ok_def Dims_def)
  qed (rule assms(3))
  then have n: "list_all no_NaN ?xs" by (auto simp: list_all_iff no_NaN_def is_fin_def)
  have d: "distinct (idsOf ?xs)" using f(7) by (simp add: idsOf_def comp_def)
  have ds: "distinct (idsOf (sortScored ?xs))" using d by (rule sort_distinct)
  have D: "DenseTopN c query n = (if length query \<noteq> Dims then [] else cut n (sortScored ?xs))"
    by (simp add: DenseTopN_def f(1) xs)
  have best: "\<not> f64_lt (sScore s) (Dot (row_vector r) query)"
    if "r \<in> set rows" "rowID r \<notin> set (idsOf (cut n (sortScored ?xs)))" "s \<in> set (cut n (sortScored ?xs))" for r s
    using cut_best [OF n that(3), of "\<lparr>sID = rowID r, sScore = Dot (row_vector r) query\<rparr>"] that
    by (force simp: idsOf_def)
  have sub: "\<exists>r\<in>set rows. s = \<lparr>sID = rowID r, sScore = Dot (row_vector r) query\<rparr> \<and> sScore s \<noteq> NaN"
    if "s \<in> set (cut n (sortScored ?xs))" for s
    using cut_set [of n "sortScored ?xs"] that n by (fastforce simp: list_all_iff no_NaN_def)
  show ?thesis
    unfolding D using cut_ranked [OF sortScored_ranked [OF n], of n] cut_distinct [OF ds, of n] best sub
    by (auto simp: cut_length)
qed

theorem dense_top_n_witness:
  "\<exists>c. NewCorpus demo_rows = Inr c \<and> length (DenseTopN c (replicate Dims 0) 10) = 1"
proof -
  have "list_all row_ok demo_rows \<and> distinct (map rowID demo_rows)"
    by (simp add: demo_rows_def row_ok_def row_vector_def)
  then obtain c where c: "NewCorpus demo_rows = Inr c"
    using NewCorpus_cases [of demo_rows] by (cases "NewCorpus demo_rows") auto
  have z: "list_all f32_finite (replicate Dims 0)"
    by (simp add: list_all_iff f32_finite_def f32_to_f64_def is_fin_def is_inf_def)
  then have "list_all (\<lambda>r. list_all f32_finite (row_vector r)) demo_rows" by (simp add: demo_rows_def row_vector_def)
  from dense_top_n [OF c this z, of 10] c show ?thesis by (simp add: demo_rows_def)
qed

section \<open>The inverted index\<close>

text \<open>The score of a document computed directly from its lexemes: one contribution per occurrence of a
  query term it contains, in the order of the query.\<close>

definition doc_freq :: "string list list \<Rightarrow> string \<Rightarrow> nat" where
  "doc_freq docs t = count_by (\<lambda>doc. t \<in> set doc) docs"

definition bm25_direct :: "(f64 \<Rightarrow> f64) \<Rightarrow> BM25 \<Rightarrow> string list list \<Rightarrow> string list \<Rightarrow> nat \<Rightarrow> f64" where
  "bm25_direct mlog x docs query d =
     foldl (\<lambda>s t. f64_add s
        (bm25_term x (idf mlog x (doc_freq docs t)) \<lparr>poDoc = d, poTf = count_by (\<lambda>u. u = t) (docs ! d)\<rparr>))
       (Num 0) (filter (\<lambda>t. t \<in> set (docs ! d)) query)"

definition posting_list :: "nat \<Rightarrow> string list list \<Rightarrow> string \<Rightarrow> posting list" where
  "posting_list i docs t =
     map (\<lambda>j. \<lparr>poDoc = i + j, poTf = count_by (\<lambda>u. u = t) (docs ! j)\<rparr>)
       (filter (\<lambda>j. t \<in> set (docs ! j)) [0..<length docs])"

lemma fold_add_posting:
  "distinct ts \<Longrightarrow> fold (\<lambda>t. add_posting t (f t)) ts ps u =
     (if u \<in> set ts then Some ((case ps u of None \<Rightarrow> [] | Some l \<Rightarrow> l) @ [f u]) else ps u)"
  by (induction ts arbitrary: ps) (auto simp: add_posting_def)

lemma posting_list_Cons:
  "posting_list i (doc # docs) t =
     (if t \<in> set doc then [\<lparr>poDoc = i, poTf = count_by (\<lambda>u. u = t) doc\<rparr>] else []) @ posting_list (i + 1) docs t"
proof -
  have "[0..<length (doc # docs)] = 0 # map Suc [0..<length docs]"
    by (simp add: upt_conv_Cons map_Suc_upt del: upt_Suc)
  then show ?thesis by (simp add: posting_list_def filter_map comp_def del: upt_Suc)
qed

lemma index_docs_lookup:
  "index_docs i docs ps t =
     (if posting_list i docs t = [] then ps t
      else Some ((case ps t of None \<Rightarrow> [] | Some l \<Rightarrow> l) @ posting_list i docs t))"
proof (induction i docs ps rule: index_docs.induct)
  case (1 i ps)
  then show ?case by (simp add: posting_list_def)
next
  case (2 i doc docs ps)
  have "index_doc i doc ps t =
      (if t \<in> set doc then Some ((case ps t of None \<Rightarrow> [] | Some l \<Rightarrow> l) @ [\<lparr>poDoc = i, poTf = count_by (\<lambda>u. u = t) doc\<rparr>])
       else ps t)"
    unfolding index_doc_def using fold_add_posting [of "remdups doc"] by simp
  then show ?case using 2 by (auto simp: posting_list_Cons split: option.splits)
qed

lemma posting_list_props:
  "distinct (map poDoc (posting_list i docs t))"
  "length (posting_list i docs t) = doc_freq docs t"
  "p \<in> set (posting_list 0 docs t) \<longleftrightarrow>
     poDoc p < length docs \<and> t \<in> set (docs ! poDoc p) \<and> p = \<lparr>poDoc = poDoc p, poTf = count_by (\<lambda>u. u = t) (docs ! poDoc p)\<rparr>"
proof -
  show "distinct (map poDoc (posting_list i docs t))"
    by (simp add: posting_list_def comp_def distinct_map inj_on_def)
  show "length (posting_list i docs t) = doc_freq docs t"
    by (induction docs arbitrary: i) (auto simp: posting_list_Cons doc_freq_def, simp_all add: posting_list_def)
  show "p \<in> set (posting_list 0 docs t) \<longleftrightarrow>
     poDoc p < length docs \<and> t \<in> set (docs ! poDoc p) \<and> p = \<lparr>poDoc = poDoc p, poTf = count_by (\<lambda>u. u = t) (docs ! poDoc p)\<rparr>"
    by (auto simp: posting_list_def)
qed

lemma fold_map_add:
  "distinct (map poDoc plist) \<Longrightarrow>
   map_of (fold (\<lambda>p. map_add_at (poDoc p) (f p)) plist acc) d =
     (case find (\<lambda>p. poDoc p = d) plist of
        None \<Rightarrow> map_of acc d
      | Some p \<Rightarrow> Some (f64_add (case map_of acc d of None \<Rightarrow> Num 0 | Some x \<Rightarrow> x) (f p)))"
proof (induction plist arbitrary: acc)
  case (Cons p plist)
  let ?m = "map_add_at (poDoc p) (f p) acc"
  have IH: "map_of (fold (\<lambda>p. map_add_at (poDoc p) (f p)) plist ?m) d =
      (case find (\<lambda>p. poDoc p = d) plist of
         None \<Rightarrow> map_of ?m d
       | Some q \<Rightarrow> Some (f64_add (case map_of ?m d of None \<Rightarrow> Num 0 | Some x \<Rightarrow> x) (f q)))"
    using Cons.prems by (intro Cons.IH) simp
  show ?case
  proof (cases "poDoc p = d")
    case True
    then have "d \<notin> poDoc ` set plist" using Cons.prems by auto
    then have "find (\<lambda>p. poDoc p = d) plist = None" by (auto simp: find_None_iff)
    then show ?thesis using IH True by (simp add: map_add_at_lookup)
  next
    case False
    then have eq: "map_of ?m d = map_of acc d" by (simp add: map_add_at_lookup)
    show ?thesis using IH [unfolded eq] False by simp
  qed
qed simp

lemma find_posting:
  "find (\<lambda>p. poDoc p = d) (posting_list 0 docs t) =
     (if d < length docs \<and> t \<in> set (docs ! d)
      then Some \<lparr>poDoc = d, poTf = count_by (\<lambda>u. u = t) (docs ! d)\<rparr> else None)"
proof (cases "find (\<lambda>p. poDoc p = d) (posting_list 0 docs t)")
  case None
  then have "\<lparr>poDoc = d, poTf = count_by (\<lambda>u. u = t) (docs ! d)\<rparr> \<notin> set (posting_list 0 docs t)"
    by (auto simp: find_None_iff)
  then have "\<not> (d < length docs \<and> t \<in> set (docs ! d))"
    using posting_list_props(3) [of "\<lparr>poDoc = d, poTf = count_by (\<lambda>u. u = t) (docs ! d)\<rparr>" docs t] by simp
  then show ?thesis using None by simp
next
  case (Some p)
  then have "p \<in> set (posting_list 0 docs t)" and d: "poDoc p = d" by (auto simp: find_Some_iff)
  then have "d < length docs \<and> t \<in> set (docs ! d) \<and> p = \<lparr>poDoc = d, poTf = count_by (\<lambda>u. u = t) (docs ! d)\<rparr>"
    using posting_list_props(3) [of p docs t] by simp
  then show ?thesis using Some by simp
qed

lemma acc_term_lookup:
  assumes "bmPostings x = index_docs 0 docs (\<lambda>_. None)"
  shows "map_of (acc_term mlog x t acc) d =
    (if d < length docs \<and> t \<in> set (docs ! d)
     then Some (f64_add (case map_of acc d of None \<Rightarrow> Num 0 | Some s \<Rightarrow> s)
       (bm25_term x (idf mlog x (doc_freq docs t)) \<lparr>poDoc = d, poTf = count_by (\<lambda>u. u = t) (docs ! d)\<rparr>))
     else map_of acc d)"
proof (cases "posting_list 0 docs t = []")
  case True
  then have "\<not> (d < length docs \<and> t \<in> set (docs ! d))" using find_posting [of d docs t] by (auto split: if_splits)
  then show ?thesis using True by (auto simp: acc_term_def assms index_docs_lookup)
next
  case False
  have dis: "distinct (map poDoc (posting_list 0 docs t))" by (rule posting_list_props(1))
  show ?thesis
    using False fold_map_add [OF dis, of "bm25_term x (idf mlog x (doc_freq docs t))" acc d] find_posting [of d docs t]
    by (simp add: acc_term_def assms index_docs_lookup posting_list_props(2) Let_def)
qed

lemma acc_query_lookup:
  assumes "bmPostings x = index_docs 0 docs (\<lambda>_. None)"
  shows "map_of (fold (acc_term mlog x) query acc) d =
    (if d < length docs \<and> (\<exists>t\<in>set query. t \<in> set (docs ! d))
     then Some (foldl (\<lambda>s t. f64_add s
        (bm25_term x (idf mlog x (doc_freq docs t)) \<lparr>poDoc = d, poTf = count_by (\<lambda>u. u = t) (docs ! d)\<rparr>))
       (case map_of acc d of None \<Rightarrow> Num 0 | Some s \<Rightarrow> s) (filter (\<lambda>t. t \<in> set (docs ! d)) query))
     else map_of acc d)"
proof (induction query arbitrary: acc)
  case (Cons t query)
  show ?case
    using Cons [of "acc_term mlog x t acc"] by (auto simp: acc_term_lookup [OF assms] filter_empty_conv)
qed simp

lemma acc_distinct: "distinct (map fst acc) \<Longrightarrow> distinct (map fst (fold (acc_term mlog x) query acc))"
proof -
  have *: "distinct (map fst acc) \<Longrightarrow> distinct (map fst (fold (\<lambda>p. map_add_at (poDoc p) (f p)) ps acc))"
    for ps acc and f :: "posting \<Rightarrow> f64"
    by (induction ps arbitrary: acc) (auto simp: map_add_at_keys)
  have "distinct (map fst acc) \<Longrightarrow> distinct (map fst (acc_term mlog x t acc))" for t acc
    using * by (auto simp: acc_term_def Let_def split: option.splits)
  then show "distinct (map fst acc) \<Longrightarrow> ?thesis" by (induction query arbitrary: acc) auto
qed

text \<open>C10. The inverted index computes BM25: over documents with distinct ids, the matches of a query are
  exactly the documents that contain one of its terms, each once, with the score computed directly
  from the document's lexemes, and a positive \<^verbatim>\<open>n\<close> cuts the same ranking to its first \<^verbatim>\<open>n\<close>.\<close>

theorem bm25_matches_direct:
  assumes "distinct ids" and "length docs = length ids"
  shows "set (TopN mlog (NewBM25Params ids docs k1 b) query 0) =
      {\<lparr>sID = ids ! d, sScore = bm25_direct mlog (NewBM25Params ids docs k1 b) docs query d\<rparr> | d.
        d < length docs \<and> set query \<inter> set (docs ! d) \<noteq> {}} \<and>
    distinct (idsOf (TopN mlog (NewBM25Params ids docs k1 b) query 0)) \<and>
    TopN mlog (NewBM25Params ids docs k1 b) query n = cut n (TopN mlog (NewBM25Params ids docs k1 b) query 0)"
proof -
  define x where "x = NewBM25Params ids docs k1 b"
  define acc where "acc = fold (acc_term mlog x) query []"
  define f where "f = (\<lambda>(d, s). \<lparr>sID = ids ! d, sScore = s\<rparr>)"
  have x: "bmPostings x = index_docs 0 docs (\<lambda>_. None)" "bmIds x = ids" by (simp_all add: x_def NewBM25Params_def)
  have dis: "distinct (map fst acc)" unfolding acc_def by (rule acc_distinct) simp
  have look: "map_of acc d = (if d < length docs \<and> set query \<inter> set (docs ! d) \<noteq> {} then Some (bm25_direct mlog x docs query d) else None)" for d
    unfolding acc_def acc_query_lookup [OF x(1)] bm25_direct_def by auto
  have set: "set acc = {(d, bm25_direct mlog x docs query d) | d. d < length docs \<and> set query \<inter> set (docs ! d) \<noteq> {}}"
  proof (intro set_eqI iffI)
    fix p assume "p \<in> set acc"
    then have "map_of acc (fst p) = Some (snd p)" using map_of_eq_Some_iff [OF dis] by (metis prod.collapse)
    then show "p \<in> {(d, bm25_direct mlog x docs query d) | d. d < length docs \<and> set query \<inter> set (docs ! d) \<noteq> {}}"
      unfolding look by (cases p) (auto split: if_splits)
  next
    fix p assume "p \<in> {(d, bm25_direct mlog x docs query d) | d. d < length docs \<and> set query \<inter> set (docs ! d) \<noteq> {}}"
    then obtain d where d: "p = (d, bm25_direct mlog x docs query d)" "d < length docs" "set query \<inter> set (docs ! d) \<noteq> {}"
      by blast
    then have "map_of acc d = Some (bm25_direct mlog x docs query d)" using look [of d] by simp
    then show "p \<in> set acc" using d(1) by (simp add: map_of_SomeD)
  qed
  have T: "TopN mlog x query m = cut m (sortScored (map f acc))" for m
    by (simp add: TopN_def x(2) acc_def f_def)
  have "inj_on (\<lambda>p. ids ! fst p) (set acc)"
    using assms dis unfolding set by (auto simp: inj_on_def nth_eq_iff_index_eq)
  then have "distinct (map (\<lambda>p. ids ! fst p) acc)"
    using dis by (simp add: distinct_map inj_on_def)
  moreover have "idsOf (map f acc) = map (\<lambda>p. ids ! fst p) acc" by (auto simp: idsOf_def f_def)
  ultimately have "distinct (idsOf (sortScored (map f acc)))" by (intro sort_distinct) simp
  moreover have "set (map f acc) = {\<lparr>sID = ids ! d, sScore = bm25_direct mlog x docs query d\<rparr> | d.
        d < length docs \<and> set query \<inter> set (docs ! d) \<noteq> {}}"
  proof -
    have "f ` {(d, h d) | d. P d} = {f (d, h d) | d. P d}" for h P by blast
    then show ?thesis unfolding set_map set by (simp add: f_def)
  qed
  ultimately show ?thesis unfolding x_def [symmetric] T by (simp add: cut_def)
qed

theorem bm25_matches_direct_witness:
  "\<exists>s. \<lparr>sID = ''m2'', sScore = s\<rparr> \<in> set (TopN (\<lambda>v. v) (NewBM25 [''m1'', ''m2''] [[''cat''], [''dog'', ''cat'']]) [''dog''] 0)"
proof -
  let ?docs = "[[''cat''], [''dog'', ''cat'']]"
  let ?x = "NewBM25Params [''m1'', ''m2''] ?docs DefaultK1 DefaultB"
  have "distinct [''m1'', ''m2'']" and "length ?docs = length [''m1'', ''m2'']" by simp_all
  then have S: "set (TopN (\<lambda>v. v) ?x [''dog''] 0) =
      {\<lparr>sID = [''m1'', ''m2''] ! d, sScore = bm25_direct (\<lambda>v. v) ?x ?docs [''dog''] d\<rparr> | d.
        d < length ?docs \<and> set [''dog''] \<inter> set (?docs ! d) \<noteq> {}}"
    by (rule bm25_matches_direct [THEN conjunct1])
  have "\<lparr>sID = [''m1'', ''m2''] ! 1, sScore = bm25_direct (\<lambda>v. v) ?x ?docs [''dog''] 1\<rparr> \<in> set (TopN (\<lambda>v. v) ?x [''dog''] 0)"
    unfolding S by (intro CollectI exI [of _ 1]) simp
  then show ?thesis unfolding NewBM25_def by (simp only: nth_Cons_Suc One_nat_def nth_Cons_0) blast
qed

end
