(* ===== verification/Retriever.thy ===== *)
theory Retriever
  imports Corpus Dates
begin

text \<open>
  The per-query pipeline (\<^verbatim>\<open>internal/retrieve/retriever.go\<close>): candidates from BM25 and the dense scan,
  fusion, the temporal boost and the final MMR selection. The query embedder is the interface
  \<^verbatim>\<open>QueryEmbedder\<close>, a state-passing function (\<open>None\<close> for nil). The outer option of \<open>Search\<close> is \<open>None\<close>
  when the Go code would panic (a nil index or embedder, slices of different lengths).
\<close>

section \<open>Modes and options\<close>

type_synonym Mode = string

definition ModeBM25 :: Mode where "ModeBM25 = ''bm25''"
definition ModeDense :: Mode where "ModeDense = ''dense''"
definition ModeHybrid :: Mode where "ModeHybrid = ''hybrid''"

definition ParseMode :: "string \<Rightarrow> (go_error, Mode) result" where
  "ParseMode s =
     (if s = ModeBM25 \<or> s = ModeDense \<or> s = ModeHybrid then Inr s
      else Inl (Errorf ''retrieve: unknown mode %q (want bm25|dense|hybrid)'' [AStr s]))"

definition DefaultTopK :: int where "DefaultTopK = 10"
definition DefaultCandidateN :: int where "DefaultCandidateN = 100"

record Options =
  oMode :: Mode
  oTopK :: int
  oCandidateN :: int
  oRRFK :: int
  oTemporal :: TemporalOptions
  oMMR :: MMROptions

record 's Retriever =
  rCorpus :: Corpus
  rBm25 :: "BM25 option"
  rEmb :: "'s embedder option"
  rOpts :: Options

definition default_depths :: "Options \<Rightarrow> Options" where
  "default_depths opts =
     opts\<lparr>oTopK := (if oTopK opts \<le> 0 then DefaultTopK else oTopK opts),
          oCandidateN := (if oCandidateN opts \<le> 0 then DefaultCandidateN else oCandidateN opts),
          oRRFK := (if oRRFK opts \<le> 0 then DefaultRRFK else oRRFK opts)\<rparr>"

definition NewRetriever :: "Corpus \<Rightarrow> 's embedder option \<Rightarrow> Options \<Rightarrow> (go_error, 's Retriever) result" where
  "NewRetriever c emb opts =
     (let opts1 = (if oMode opts = '''' then opts\<lparr>oMode := ModeHybrid\<rparr> else opts) in
      case ParseMode (oMode opts1) of
        Inl err \<Rightarrow> Inl err
      | Inr _ \<Rightarrow>
          if oMode opts1 \<noteq> ModeBM25 \<and> emb = None
          then Inl (Errorf ''retrieve: mode %q needs a query embedder'' [AStr (oMode opts1)])
          else
            let opts2 = default_depths opts1
            in Inr \<lparr>rCorpus = c,
                    rBm25 = (if oMode opts2 \<noteq> ModeDense then Some (NewBM25FromCorpus c) else None),
                    rEmb = emb, rOpts = opts2\<rparr>)"

section \<open>Search\<close>

definition extractQueryTime :: "date_env \<Rightarrow> string \<Rightarrow> time \<Rightarrow> time option" where
  "extractQueryTime de question base =
     (if base = 0 then (case ParseTimestamp de question of Inr t \<Rightarrow> Some t | Inl _ \<Rightarrow> None)
      else ExtractQueryTime de question base)"

text \<open>The two candidate lists. \<open>None\<close> is the nil dereference.\<close>

definition bm25_list ::
  "text_env \<Rightarrow> (f64 \<Rightarrow> f64) \<Rightarrow> 's Retriever \<Rightarrow> string \<Rightarrow> Scored list option" where
  "bm25_list te mlog r question =
     (if oMode (rOpts r) = ModeDense then Some []
      else case rBm25 r of
        None \<Rightarrow> None
      | Some x \<Rightarrow> Some (TopN mlog x (Tokenize te question) (oCandidateN (rOpts r))))"

definition dense_list ::
  "'s Retriever \<Rightarrow> string \<Rightarrow> 's \<Rightarrow> ((go_error, Scored list) result \<times> 's) option" where
  "dense_list r question st =
     (if oMode (rOpts r) = ModeBM25 then Some (Inr [], st)
      else case rEmb r of
        None \<Rightarrow> None
      | Some emb \<Rightarrow>
          (case emb question st of
             (Inl err, st') \<Rightarrow> Some (Inl (Wrapf ''retrieve: embed query: %w'' [] err), st')
           | (Inr qvec, st') \<Rightarrow>
               if length qvec \<noteq> coDims (rCorpus r)
               then Some (Inl (Errorf ''retrieve: query vector has %d dims, want %d''
                                 [AInt (int (length qvec)), AInt (int (coDims (rCorpus r)))]), st')
               else Some (Inr (DenseTopN (rCorpus r) qvec (oCandidateN (rOpts r))), st')))"

definition fuse :: "Options \<Rightarrow> Scored list \<Rightarrow> Scored list \<Rightarrow> Scored list" where
  "fuse opts bm25List denseList =
     (if oMode opts = ModeBM25 then bm25List
      else if oMode opts = ModeDense then denseList
      else sortScored (map (\<lambda>(i, s). \<lparr>sID = i, sScore = s\<rparr>)
                         (RRF (oRRFK opts) [idsOf bm25List, idsOf denseList])))"

text \<open>The best score, started at \<^verbatim>\<open>fused[0]\<close>: \<open>None\<close> is the panic on an empty list.\<close>

definition max_score :: "Scored list \<Rightarrow> f64 option" where
  "max_score fused =
     (case fused of
        [] \<Rightarrow> None
      | c0 # _ \<Rightarrow> Some (foldl (\<lambda>m c. if f64_lt m (sScore c) then sScore c else m) (sScore c0) fused))"

definition norm_rel :: "f64 \<Rightarrow> f64 \<Rightarrow> f64" where
  "norm_rel maxScore score = (if f64_lt (Num 0) maxScore then f64_div score maxScore else score)"

text \<open>The selection over the fused list; the candidates the corpus does not know are skipped.\<close>

definition select_top :: "Corpus \<Rightarrow> Options \<Rightarrow> Scored list \<Rightarrow> Scored list option" where
  "select_top c opts fused =
     (case max_score fused of
        None \<Rightarrow> None
      | Some maxScore \<Rightarrow>
     (let kept = filter (\<lambda>s. IndexOf c (sID s) \<noteq> None) fused;
          rows = map (\<lambda>s. the (IndexOf c (sID s))) kept;
          ids = idsOf kept;
          rel = map (\<lambda>s. norm_rel maxScore (sScore s)) kept;
          sessions = map (SessionOf c) rows;
          scoreByID = map_of (rev (map (\<lambda>s. (sID s, sScore s)) kept));
          sim = (\<lambda>i j. Dot (Vector_of c (rows ! i)) (Vector_of c (rows ! j)))
      in case MMR ids rel sim (Some sessions) (oTopK opts) (oMMR opts) of
           None \<Rightarrow> None
         | Some out \<Rightarrow>
             Some (map (\<lambda>s. s\<lparr>sScore := (case scoreByID (sID s) of None \<Rightarrow> Num 0 | Some x \<Rightarrow> x)\<rparr>) out)))"

definition Search ::
  "text_env \<Rightarrow> date_env \<Rightarrow> (f64 \<Rightarrow> f64) \<Rightarrow> 's Retriever \<Rightarrow> string \<Rightarrow> time \<Rightarrow> 's \<Rightarrow>
     ((go_error, Scored list) result \<times> 's) option" where
  "Search te de mlog r question questionDate st =
     (case bm25_list te mlog r question of
        None \<Rightarrow> None
      | Some bm25List \<Rightarrow>
          (case dense_list r question st of
             None \<Rightarrow> None
           | Some (Inl err, st') \<Rightarrow> Some (Inl err, st')
           | Some (Inr denseList, st') \<Rightarrow>
               let fused = fuse (rOpts r) bm25List denseList in
               if fused = [] then Some (Inr [], st')
               else
                 let qt = extractQueryTime de question questionDate;
                     adjusted = TemporalAdjust fused (TimeOf (rCorpus r)) (case qt of None \<Rightarrow> 0 | Some t \<Rightarrow> t)
                                  (qt \<noteq> None) (oTemporal (rOpts r))
                 in (case select_top (rCorpus r) (rOpts r) adjusted of
                       None \<Rightarrow> None
                     | Some out \<Rightarrow> Some (Inr out, st'))))"

section \<open>Candidate lists\<close>

text \<open>What the selection relies on: a list of candidates names documents of its universe, each once.\<close>

locale candidate_list =
  fixes gen :: "'q \<Rightarrow> Scored list" and univ :: "'q \<Rightarrow> string list" and wf :: "'q \<Rightarrow> bool"
  assumes gen_distinct: "wf q \<Longrightarrow> distinct (idsOf (gen q))"
    and gen_known: "wf q \<Longrightarrow> set (idsOf (gen q)) \<subseteq> set (univ q)"
begin

lemma gen_bound: "wf q \<Longrightarrow> length (gen q) \<le> length (univ q)"
proof -
  assume q: "wf q"
  have "length (gen q) = card (set (idsOf (gen q)))"
    using distinct_card [OF gen_distinct [OF q]] by (simp add: idsOf_def)
  also have "\<dots> \<le> card (set (univ q))" by (intro card_mono gen_known [OF q]) simp
  also have "\<dots> \<le> length (univ q)" by (rule card_length)
  finally show ?thesis .
qed

lemma boost_known: "wf q \<Longrightarrow> distinct (idsOf (TemporalAdjust (gen q) timeOf t found opt)) \<and>
   set (idsOf (TemporalAdjust (gen q) timeOf t found opt)) \<subseteq> set (univ q)"
proof -
  assume q: "wf q"
  have m: "idsOf (map (\<lambda>c. if P c then c\<lparr>sScore := f c\<rparr> else c) xs) = idsOf xs" for P f xs
    by (simp add: idsOf_def)
  have s: "set (idsOf (sortScored xs)) = set (idsOf xs)" for xs by (simp add: idsOf_def)
  have d: "distinct (idsOf (filter P xs))" if "distinct (idsOf xs)" for P xs
    using that by (simp add: idsOf_def distinct_map inj_on_def)
  show ?thesis
    using gen_distinct [OF q] gen_known [OF q]
    by (auto simp: TemporalAdjust_def Let_def s m intro: sort_distinct d) (auto simp: idsOf_def)
qed

end

lemma idsOf_sort: "set (idsOf (sortScored xs)) = set (idsOf xs)"
  by (simp add: idsOf_def)

lemma idsOf_cut_subset: "set (idsOf (cut n xs)) \<subseteq> set (idsOf xs)"
  using cut_set [of n xs] by (auto simp: idsOf_def)

interpretation dense_cands: candidate_list
  "\<lambda>(c, query, n). DenseTopN c query n" "\<lambda>(c, query, n). coIds c" "\<lambda>(c, query, n). distinct (coIds c)"
proof (unfold_locales, goal_cases)
  have ids: "idsOf (dense_scores c query) = coIds c" for c query
    by (simp add: idsOf_def dense_scores_def Len_def comp_def map_nth)
  {
    case (1 q)
    then show ?case
      by (auto simp: DenseTopN_def ids idsOf_def [of "[]"] intro!: cut_distinct sort_distinct)
  next
    case (2 q)
    then show ?case
    proof (cases q)
      case (fields c query n)
      have "set (idsOf (cut n (sortScored (dense_scores c query)))) \<subseteq> set (coIds c)"
        using idsOf_cut_subset [of n "sortScored (dense_scores c query)"] by (simp only: idsOf_sort ids)
      then show ?thesis by (simp add: fields DenseTopN_def idsOf_def)
    qed
  }
qed

lemma TopN_ids:
  assumes "distinct ids" "length docs = length ids"
  shows "distinct (idsOf (TopN mlog (NewBM25 ids docs) query n)) \<and>
    set (idsOf (TopN mlog (NewBM25 ids docs) query n)) \<subseteq> set ids"
proof -
  define x where "x = NewBM25 ids docs"
  define acc where "acc = fold (acc_term mlog x) query []"
  have x: "bmPostings x = index_docs 0 docs (\<lambda>_. None)" "bmIds x = ids"
    by (simp_all add: x_def NewBM25_def NewBM25Params_def)
  have dis: "distinct (map fst acc)" unfolding acc_def by (rule acc_distinct) simp
  have lt: "d < length ids" if "(d, s) \<in> set acc" for d s
  proof (rule ccontr)
    assume "\<not> d < length ids"
    then have "map_of acc d = None" using acc_query_lookup [OF x(1), of mlog query "[]" d] assms(2) by (simp add: acc_def)
    then show False using that by (simp add: map_of_eq_None_iff rev_image_eqI)
  qed
  let ?l = "map (\<lambda>(d, s). \<lparr>sID = ids ! d, sScore = s\<rparr>) acc"
  have i: "idsOf ?l = map (\<lambda>d. ids ! d) (map fst acc)" by (auto simp: idsOf_def)
  have "inj_on (\<lambda>d. ids ! d) (set (map fst acc))"
    using assms(1) lt by (auto simp: inj_on_def nth_eq_iff_index_eq)
  then have "distinct (idsOf ?l)" unfolding i using dis by (subst distinct_map) simp
  moreover have "set (idsOf ?l) \<subseteq> set ids" unfolding i using lt by fastforce
  moreover have "set (idsOf (sortScored ?l)) = set (idsOf ?l)" by (rule idsOf_sort)
  moreover have "TopN mlog x query n = cut n (sortScored ?l)" by (simp add: TopN_def acc_def x(2))
  ultimately show ?thesis
    unfolding x_def [symmetric] using cut_distinct [OF sort_distinct, of ?l n] idsOf_cut_subset [of n "sortScored ?l"] by simp
qed

interpretation bm25_cands: candidate_list
  "\<lambda>(mlog, c, query, n). TopN mlog (NewBM25FromCorpus c) query n" "\<lambda>(mlog, c, query, n). coIds c"
  "\<lambda>(mlog, c, query, n). distinct (coIds c) \<and> length (coLexemes c) = length (coIds c)"
  by unfold_locales (auto simp: NewBM25FromCorpus_def dest: TopN_ids [THEN conjunct1] TopN_ids [THEN conjunct2, THEN subsetD])

interpretation fused_cands: candidate_list
  "\<lambda>(opts, a, b). fuse opts a b" "\<lambda>(opts, a, b). idsOf a @ idsOf b"
  "\<lambda>(opts, a, b). distinct (idsOf a) \<and> distinct (idsOf b)"
proof (unfold_locales, goal_cases)
  have f: "idsOf (map (\<lambda>(i, s). \<lparr>sID = i, sScore = s\<rparr>) m) = map fst m" for m by (auto simp: idsOf_def)
  have s: "set (idsOf (sortScored xs)) = set (idsOf xs)" for xs by (simp add: idsOf_def)
  {
    case (1 q)
    then show ?case by (auto simp: fuse_def f RRF_distinct intro!: sort_distinct)
  next
    case (2 q)
    then show ?case by (auto simp: fuse_def s f RRF_keys split: if_split_asm)
  }
qed

section \<open>The selection\<close>

lemma mmr_selection:
  assumes "length rel = length ids" and "length ss = length ids"
  obtains sel where "MMR ids rel sim (Some ss) k opt = Some (map (\<lambda>i. \<lparr>sID = ids ! i, sScore = rel ! i\<rparr>) sel)"
    "distinct sel" "set sel \<subseteq> {..<length ids}" "length sel \<le> mmr_depth k (length ids)"
    "0 < mMaxPerSession opt \<Longrightarrow> int (count_by (\<lambda>j. ss ! j = s) sel) \<le> mMaxPerSession opt"
proof -
  let ?sel = "mmr_loop (mmr_depth k (length ids)) (length ids) rel sim (Some ss) (mmr_lambda opt) opt []"
  have g: "greedy (length ids) rel sim (Some ss) (mmr_lambda opt) opt ?sel"
    and l: "length ?sel \<le> mmr_depth k (length ids)"
    using mmr_loop_greedy [OF greedy_Nil, of "length ids" rel sim "Some ss" "mmr_lambda opt" opt "mmr_depth k (length ids)"]
    by auto
  show ?thesis
  proof (rule that [of ?sel])
    show "MMR ids rel sim (Some ss) k opt = Some (map (\<lambda>i. \<lparr>sID = ids ! i, sScore = rel ! i\<rparr>) ?sel)"
      using assms by (simp add: MMR_def Let_def)
    show "distinct ?sel" "set ?sel \<subseteq> {..<length ids}" using greedy_sound [OF g] by auto
    show "int (count_by (\<lambda>j. ss ! j = s) ?sel) \<le> mMaxPerSession opt" if "0 < mMaxPerSession opt"
      using greedy_sound [OF g] that by (auto simp: per_session_def)
    show "length ?sel \<le> mmr_depth k (length ids)" by (rule l)
  qed
qed

definition session_of :: "Corpus \<Rightarrow> string \<Rightarrow> string" where
  "session_of c i = SessionOf c (the (IndexOf c i))"

text \<open>A result of the selection: distinct candidates of the fused list with the scores they have there,
  at most \<open>k\<close>, and at most the cap of any session.\<close>

definition selection_of :: "Corpus \<Rightarrow> Options \<Rightarrow> Scored list \<Rightarrow> Scored list \<Rightarrow> bool" where
  "selection_of c opts fused out \<longleftrightarrow>
     set out \<subseteq> set fused \<and> distinct (idsOf out) \<and> length out \<le> mmr_depth (oTopK opts) (length fused) \<and>
     (0 < mMaxPerSession (oMMR opts) \<longrightarrow>
        (\<forall>s. int (count_by (\<lambda>x. session_of c (sID x) = s) out) \<le> mMaxPerSession (oMMR opts)))"

lemma select_top_selection:
  assumes d: "distinct (idsOf fused)" and k: "\<forall>x\<in>set fused. IndexOf c (sID x) \<noteq> None" and ne: "fused \<noteq> []"
  shows "\<exists>out. select_top c opts fused = Some out \<and> selection_of c opts fused out"
proof -
  have kept: "filter (\<lambda>s. IndexOf c (sID s) \<noteq> None) fused = fused" using k by (simp add: filter_id_conv)
  obtain mx where mx: "max_score fused = Some mx" using ne by (cases fused) (auto simp: max_score_def)
  define ids rel ss where "ids = idsOf fused" and "rel = map (\<lambda>s. norm_rel mx (sScore s)) fused"
    and "ss = map (\<lambda>s. session_of c (sID s)) fused"
  define rows where "rows = map (\<lambda>s. the (IndexOf c (sID s))) fused"
  define sim where "sim = (\<lambda>i j. Dot (Vector_of c (rows ! i)) (Vector_of c (rows ! j)))"
  have ss: "map (SessionOf c) rows = ss" by (simp add: rows_def ss_def session_of_def)
  have len: "length rel = length ids" "length ss = length ids" "length ids = length fused"
    by (simp_all add: rel_def ss_def ids_def idsOf_def)
  have score: "map_of (rev (map (\<lambda>s. (sID s, sScore s)) fused)) (sID (fused ! i)) = Some (sScore (fused ! i))"
    if "i < length fused" for i
  proof (rule map_of_is_SomeI)
    show "distinct (map fst (rev (map (\<lambda>s. (sID s, sScore s)) fused)))"
      using d by (simp add: idsOf_def rev_map [symmetric] comp_def)
  qed (use that in force)
  have out: "\<exists>out. select_top c opts fused = Some out \<and> set out \<subseteq> set fused \<and> distinct (idsOf out) \<and>
      length out \<le> mmr_depth (oTopK opts) (length fused) \<and>
      (0 < mMaxPerSession (oMMR opts) \<longrightarrow> int (count_by (\<lambda>x. session_of c (sID x) = s) out) \<le> mMaxPerSession (oMMR opts))"
    for s
  proof -
    obtain sel where sel: "MMR ids rel sim (Some ss) (oTopK opts) (oMMR opts) =
          Some (map (\<lambda>i. \<lparr>sID = ids ! i, sScore = rel ! i\<rparr>) sel)"
      "distinct sel" "set sel \<subseteq> {..<length ids}" "length sel \<le> mmr_depth (oTopK opts) (length ids)"
      "0 < mMaxPerSession (oMMR opts) \<Longrightarrow> int (count_by (\<lambda>j. ss ! j = s) sel) \<le> mMaxPerSession (oMMR opts)"
      using mmr_selection [OF len(1,2), of sim "oTopK opts" "oMMR opts" s] by blast
    have lt: "i < length fused" if "i \<in> set sel" for i using sel(3) that len by auto
    let ?f = "\<lambda>i. \<lparr>sID = ids ! i, sScore = (case map_of (rev (map (\<lambda>s. (sID s, sScore s)) fused)) (ids ! i) of
        None \<Rightarrow> Num 0 | Some x \<Rightarrow> x)\<rparr>"
    have "select_top c opts fused = Some (map ?f sel)"
      unfolding select_top_def Let_def kept mx option.case
      by (simp add: ids_def [symmetric] rel_def [symmetric] rows_def [symmetric] ss sim_def [symmetric] sel(1) comp_def)
    moreover have "map ?f sel = map (\<lambda>i. fused ! i) sel"
      using lt score by (simp add: ids_def idsOf_def)
    ultimately have s: "select_top c opts fused = Some (map (\<lambda>i. fused ! i) sel)" by simp
    have "distinct (idsOf (map (\<lambda>i. fused ! i) sel))"
    proof -
      have "idsOf (map (\<lambda>i. fused ! i) sel) = map (\<lambda>i. ids ! i) sel" using lt by (simp add: ids_def idsOf_def)
      moreover have "inj_on (\<lambda>i. ids ! i) (set sel)"
        using d sel(3) by (auto simp: inj_on_def ids_def [symmetric] nth_eq_iff_index_eq subset_iff)
      ultimately show ?thesis using sel(2) by (simp add: distinct_map)
    qed
    moreover have "count_by (\<lambda>x. session_of c (sID x) = s) (map (\<lambda>i. fused ! i) sel) = count_by (\<lambda>j. ss ! j = s) sel"
      using lt by (induction sel) (simp_all add: ss_def)
    ultimately show ?thesis using s lt sel(4,5) len(3) by (intro exI [of _ "map (\<lambda>i. fused ! i) sel"]) auto
  qed
  show ?thesis unfolding selection_of_def using out by (metis option.inject)
qed

section \<open>Searching\<close>

text \<open>The options a retriever works with: known mode, positive depths, and the parts its mode needs.\<close>

definition retriever_ok :: "Row list \<Rightarrow> 's Retriever \<Rightarrow> bool" where
  "retriever_ok rows r \<longleftrightarrow>
     corpus_upto (length rows) rows (rCorpus r) \<and>
     oMode (rOpts r) \<in> {ModeBM25, ModeDense, ModeHybrid} \<and>
     0 < oTopK (rOpts r) \<and> 0 < oCandidateN (rOpts r) \<and> 0 < oRRFK (rOpts r) \<and>
     (oMode (rOpts r) \<noteq> ModeDense \<longrightarrow> rBm25 r = Some (NewBM25FromCorpus (rCorpus r))) \<and>
     (oMode (rOpts r) \<noteq> ModeBM25 \<longrightarrow> rEmb r \<noteq> None)"

lemma NewRetriever_ok:
  assumes "NewCorpus rows = Inr c" and "NewRetriever c emb opts = Inr r"
  shows "retriever_ok rows r \<and> rEmb r = emb \<and> rCorpus r = c \<and> oMMR (rOpts r) = oMMR opts \<and>
    oTopK (rOpts r) = (if 0 < oTopK opts then oTopK opts else DefaultTopK)"
proof -
  have c: "corpus_upto (length rows) rows c" using NewCorpus_cases [of rows] assms(1) by simp
  define o1 where "o1 = (if oMode opts = '''' then opts\<lparr>oMode := ModeHybrid\<rparr> else opts)"
  have same: "oMMR o1 = oMMR opts" "oTopK o1 = oTopK opts" by (simp_all add: o1_def)
  have r: "r = \<lparr>rCorpus = c, rBm25 = (if oMode o1 \<noteq> ModeDense then Some (NewBM25FromCorpus c) else None),
      rEmb = emb, rOpts = default_depths o1\<rparr>"
    and m: "oMode o1 \<in> {ModeBM25, ModeDense, ModeHybrid}" "oMode o1 \<noteq> ModeBM25 \<longrightarrow> emb \<noteq> None"
    using assms(2) unfolding NewRetriever_def Let_def o1_def [symmetric]
    by (auto simp: ParseMode_def default_depths_def split: if_split_asm)
  have pos: "0 < oTopK (default_depths o1)" "0 < oCandidateN (default_depths o1)" "0 < oRRFK (default_depths o1)"
    "oMode (default_depths o1) = oMode o1" "oMMR (default_depths o1) = oMMR opts"
    "oTopK (default_depths o1) = (if 0 < oTopK opts then oTopK opts else DefaultTopK)"
    by (simp_all add: default_depths_def DefaultTopK_def DefaultCandidateN_def DefaultRRFK_def same)
  show ?thesis unfolding retriever_ok_def r using c m pos by simp
qed

lemma bm25_list_known:
  assumes r: "retriever_ok rows r"
  shows "\<exists>l. bm25_list te mlog r q = Some l \<and> distinct (idsOf l) \<and> set (idsOf l) \<subseteq> set (coIds (rCorpus r))"
proof (cases "oMode (rOpts r) = ModeDense")
  case True
  then show ?thesis by (simp add: bm25_list_def idsOf_def)
next
  case False
  note f = corpus_full [OF r [unfolded retriever_ok_def, THEN conjunct1]]
  have "distinct (coIds (rCorpus r)) \<and> length (coLexemes (rCorpus r)) = length (coIds (rCorpus r))"
    using f(2,5,7) by simp
  then show ?thesis
    using False r bm25_cands.gen_distinct [of "(mlog, rCorpus r, Tokenize te q, oCandidateN (rOpts r))"]
      bm25_cands.gen_known [of "(mlog, rCorpus r, Tokenize te q, oCandidateN (rOpts r))"]
    by (simp add: bm25_list_def retriever_ok_def)
qed

text \<open>The outcome of the dense half: an error of the embedder, a vector of the wrong length, or candidates.\<close>

lemma dense_list_cases:
  assumes r: "retriever_ok rows r"
  obtains (error) emb e st' where "oMode (rOpts r) \<noteq> ModeBM25" "rEmb r = Some emb" "emb q st = (Inl e, st')"
      "dense_list r q st = Some (Inl (Wrapf ''retrieve: embed query: %w'' [] e), st')"
  | (dims) emb v st' where "oMode (rOpts r) \<noteq> ModeBM25" "rEmb r = Some emb" "emb q st = (Inr v, st')" "length v \<noteq> Dims"
      "dense_list r q st = Some (Inl (Errorf ''retrieve: query vector has %d dims, want %d''
         [AInt (int (length v)), AInt (int Dims)]), st')"
  | (list) l st' where "dense_list r q st = Some (Inr l, st')" "st' = st \<or> (\<exists>m. rEmb r = Some m \<and> st' = snd (m q st))" "distinct (idsOf l)" "set (idsOf l) \<subseteq> set (coIds (rCorpus r))"
proof (cases "oMode (rOpts r) = ModeBM25")
  case True
  then show ?thesis using list [of "[]" st] by (simp add: dense_list_def idsOf_def)
next
  case False
  note f = corpus_full [OF r [unfolded retriever_ok_def, THEN conjunct1]]
  obtain emb where emb: "rEmb r = Some emb" using False r by (auto simp: retriever_ok_def)
  obtain x st' where x: "emb q st = (x, st')" by force
  show ?thesis
  proof (cases x)
    case (Inl e)
    then show ?thesis using error [OF False emb] x False emb by (simp add: dense_list_def)
  next
    case (Inr v)
    show ?thesis
    proof (cases "length v = Dims")
      case True
      have "distinct (coIds (rCorpus r))" using f(2,7) by simp
      then show ?thesis
        using list [of "DenseTopN (rCorpus r) v (oCandidateN (rOpts r))" st'] False emb x Inr True f(1)
          dense_cands.gen_distinct [of "(rCorpus r, v, oCandidateN (rOpts r))"]
          dense_cands.gen_known [of "(rCorpus r, v, oCandidateN (rOpts r))"]
        by (simp add: dense_list_def)
    next
      case wrong: False
      show ?thesis
        by (rule dims [OF False emb x [unfolded Inr] wrong]) (use False emb x Inr wrong f(1) in \<open>simp add: dense_list_def\<close>)
    qed
  qed
qed

lemma adjusted_selection:
  assumes r: "retriever_ok rows r"
    and a: "distinct (idsOf a)" "set (idsOf a) \<subseteq> set (coIds (rCorpus r))"
    and b: "distinct (idsOf b)" "set (idsOf b) \<subseteq> set (coIds (rCorpus r))"
    and ne: "fuse (rOpts r) a b \<noteq> []"
  shows "\<exists>out. select_top (rCorpus r) opts (TemporalAdjust (fuse (rOpts r) a b) timeOf t found opt) = Some out \<and>
    selection_of (rCorpus r) opts (TemporalAdjust (fuse (rOpts r) a b) timeOf t found opt) out \<and>
    set (idsOf out) \<subseteq> set (coIds (rCorpus r))"
proof -
  let ?l = "TemporalAdjust (fuse (rOpts r) a b) timeOf t found opt"
  note f = corpus_full [OF r [unfolded retriever_ok_def, THEN conjunct1]]
  have "distinct (idsOf ?l) \<and> set (idsOf ?l) \<subseteq> set (idsOf a @ idsOf b)"
    using fused_cands.boost_known [of "(rOpts r, a, b)" timeOf t found opt] a b by simp
  then have d: "distinct (idsOf ?l)" and k: "set (idsOf ?l) \<subseteq> set (coIds (rCorpus r))" using a b by auto
  have "IndexOf (rCorpus r) (sID x) \<noteq> None" if "x \<in> set ?l" for x
  proof -
    have "sID x \<in> set (coIds (rCorpus r))" using that k by (auto simp: idsOf_def)
    then obtain i where "i < length rows" "rowID (rows ! i) = sID x" using f(2) by (auto simp: in_set_conv_nth)
    then have "IndexOf (rCorpus r) (sID x) = Some i" using f(9) by blast
    then show ?thesis by simp
  qed
  then obtain out where "select_top (rCorpus r) opts ?l = Some out" "selection_of (rCorpus r) opts ?l out"
    using select_top_selection [OF d, of "rCorpus r" opts] TemporalAdjust_nonempty [OF ne] by blast
  moreover from this(2) have "set (idsOf out) \<subseteq> set (idsOf ?l)" by (auto simp: selection_of_def idsOf_def)
  ultimately show ?thesis using k by blast
qed

definition search_result :: "Row list \<Rightarrow> Corpus \<Rightarrow> Options \<Rightarrow> Scored list \<Rightarrow> bool" where
  "search_result rows c opts out \<longleftrightarrow>
     distinct (idsOf out) \<and> set (idsOf out) \<subseteq> rowID ` set rows \<and>
     int (length out) \<le> (if 0 < oTopK opts then oTopK opts else DefaultTopK) \<and>
     (0 < mMaxPerSession (oMMR opts) \<longrightarrow>
        (\<forall>s. int (count_by (\<lambda>x. session_of c (sID x) = s) out) \<le> mMaxPerSession (oMMR opts)))"

lemma Search_cases:
  assumes c: "NewCorpus rows = Inr c" and n: "NewRetriever c emb opts = Inr r"
  obtains (error) m e st' where "emb = Some m" "m q st = (Inl e, st')"
      "Search te de mlog r q t st = Some (Inl (Wrapf ''retrieve: embed query: %w'' [] e), st')"
  | (dims) m v st' where "emb = Some m" "m q st = (Inr v, st')" "length v \<noteq> Dims"
      "Search te de mlog r q t st = Some (Inl (Errorf ''retrieve: query vector has %d dims, want %d''
         [AInt (int (length v)), AInt (int Dims)]), st')"
  | (found) out st' where "Search te de mlog r q t st = Some (Inr out, st')" "search_result rows c opts out"
      "st' = st \<or> (\<exists>m. emb = Some m \<and> st' = snd (m q st))"
proof -
  note N = NewRetriever_ok [OF c n]
  have r: "retriever_ok rows r" using N by blast
  obtain a where a: "bm25_list te mlog r q = Some a" "distinct (idsOf a)" "set (idsOf a) \<subseteq> set (coIds (rCorpus r))"
    using bm25_list_known [OF r] by blast
  have ids: "set (coIds (rCorpus r)) = rowID ` set rows"
    using corpus_full(2) [OF r [unfolded retriever_ok_def, THEN conjunct1]] by simp
  show ?thesis
  proof (cases rule: dense_list_cases [OF r, of q st])
    case (1 m e st')
    then show ?thesis using error [of m e st'] a(1) N by (simp add: Search_def)
  next
    case (2 m v st')
    then show ?thesis using dims [of m v st'] a(1) N by (simp add: Search_def)
  next
    case (3 b st')
    show ?thesis
    proof (cases "fuse (rOpts r) a b = []")
      case True
      have "search_result rows c opts []"
        by (simp add: search_result_def idsOf_def DefaultTopK_def)
      then show ?thesis using found [of "[]" st'] True 3 a(1) N by (simp add: Search_def)
    next
      case False
      let ?l = "TemporalAdjust (fuse (rOpts r) a b) (TimeOf (rCorpus r))
        (case extractQueryTime de q t of None \<Rightarrow> 0 | Some t \<Rightarrow> t) (extractQueryTime de q t \<noteq> None) (oTemporal (rOpts r))"
      obtain out where o: "select_top (rCorpus r) (rOpts r) ?l = Some out" "selection_of (rCorpus r) (rOpts r) ?l out"
        "set (idsOf out) \<subseteq> set (coIds (rCorpus r))"
        using adjusted_selection [OF r a(2,3) 3(3,4) False] by blast
      have "0 < oTopK (rOpts r)" using r by (simp add: retriever_ok_def)
      then have "int (mmr_depth (oTopK (rOpts r)) (length ?l)) \<le> oTopK (rOpts r)" by (simp add: mmr_depth_def)
      then have "search_result rows c opts out"
        using o(2,3) N ids by (auto simp: search_result_def selection_of_def)
      moreover have "Search te de mlog r q t st = Some (Inr out, st')"
        using a(1) 3(1) False o(1) by (simp add: Search_def Let_def)
      moreover have "st' = st \<or> (\<exists>m. emb = Some m \<and> st' = snd (m q st))" using 3(2) N by simp
      ultimately show ?thesis using found by blast
    qed
  qed
qed

text \<open>C12. A search over a corpus and a retriever the constructors accepted never panics: not on a missing
  index or embedder, not on slices of unequal length, and not at \<^verbatim>\<open>fused[0]\<close> after the temporal adjustment. It fails only
  with the query embedder's own error, wrapped, or because the query vector does not have 768 floats;
  otherwise it returns documents of the corpus, none twice, at most \<^verbatim>\<open>TopK\<close> of them (10 when the option
  is not positive), and at most \<^verbatim>\<open>MaxPerSession\<close> of any session when that cap is set.\<close>

theorem Search_sound:
  assumes "NewCorpus rows = Inr c" and "NewRetriever c emb opts = Inr r"
  shows "\<exists>res st'. Search te de mlog r q t st = Some (res, st') \<and>
    (case res of
       Inr out \<Rightarrow> search_result rows c opts out
     | Inl err \<Rightarrow> (\<exists>m. emb = Some m \<and>
         (case m q st of
            (Inl e, s) \<Rightarrow> err = Wrapf ''retrieve: embed query: %w'' [] e \<and> st' = s
          | (Inr v, s) \<Rightarrow> length v \<noteq> Dims \<and> st' = s)))"
  by (cases rule: Search_cases [OF assms, of q st te de mlog t]) auto

definition demo_options :: "Mode \<Rightarrow> Options" where
  "demo_options md = \<lparr>oMode = md, oTopK = 0, oCandidateN = 0, oRRFK = 0,
     oTemporal = \<lparr>tWindow = 0, tBoost = Num 0, tHardFilter = False\<rparr>,
     oMMR = \<lparr>mLambda = Num 0, mMaxPerSession = 1\<rparr>\<rparr>"

definition demo_text :: text_env where
  "demo_text = \<lparr>NFKC = (\<lambda>s. s), ToLower = (\<lambda>s. s), is_letter = (\<lambda>r. 97 \<le> r \<and> r \<le> 122),
     is_number = (\<lambda>r. 48 \<le> r \<and> r \<le> 57), stem = (\<lambda>s. s)\<rparr>"

lemma demo_corpus: "\<exists>c. NewCorpus demo_rows = Inr c"
proof -
  have "list_all row_ok demo_rows \<and> distinct (map rowID demo_rows)"
    by (simp add: demo_rows_def row_ok_def row_vector_def)
  then show ?thesis using NewCorpus_cases [of demo_rows] by (cases "NewCorpus demo_rows") auto
qed

theorem Search_sound_witness:
  "\<exists>c r res. NewCorpus demo_rows = Inr c \<and> NewRetriever c None (demo_options ModeBM25) = Inr r \<and>
     Search demo_text no_dates (\<lambda>x. x) r ''hi'' 0 () = Some (Inr res, ()) \<and>
     search_result demo_rows c (demo_options ModeBM25) res"
proof -
  obtain c where c: "NewCorpus demo_rows = Inr c" using demo_corpus by blast
  obtain r where r: "NewRetriever c (None :: unit embedder option) (demo_options ModeBM25) = Inr r"
    by (simp add: NewRetriever_def demo_options_def ParseMode_def ModeBM25_def Let_def)
  obtain res where res: "Search demo_text no_dates (\<lambda>x. x) r ''hi'' 0 () = Some (res, ())"
    "\<nexists>e. res = Inl e" "\<And>out. res = Inr out \<Longrightarrow> search_result demo_rows c (demo_options ModeBM25) out"
    using Search_sound [OF c r, of demo_text no_dates "\<lambda>x. x" "''hi''" 0 "()"] by (auto split: sum.splits)
  then obtain out where "res = Inr out" by (cases res) auto
  then show ?thesis using c r res by blast
qed

text \<open>With the prefixing embedding client as its query embedder and a well-formed cache, the only
  failure of a search is the client's own error: the dimension check of \<^verbatim>\<open>Search\<close> never fires, and the
  cache is well-formed afterwards.\<close>

theorem Search_with_client:
  assumes "NewCorpus rows = Inr c" and "NewRetriever c (Some (EmbedQuery cl fl)) opts = Inr r" and "cache_ok (fst st)"
  shows "\<exists>res st'. Search te de mlog r q t st = Some (res, st') \<and> cache_ok (fst st') \<and>
    (case res of
       Inr out \<Rightarrow> search_result rows c opts out
     | Inl err \<Rightarrow> (\<exists>e. EmbedQuery cl fl q st = (Inl e, st') \<and> err = Wrapf ''retrieve: embed query: %w'' [] e))"
proof (cases rule: Search_cases [OF assms(1,2), of q st te de mlog t])
  case (1 m e st')
  then show ?thesis using query.keeps [OF assms(3), of cl fl q] by auto
next
  case (2 m v st')
  then show ?thesis using query.dims [OF assms(3), of cl fl q v] by auto
next
  case (3 out st')
  then show ?thesis using query.keeps [OF assms(3), of cl fl q] assms(3) by auto
qed

theorem Search_with_client_witness:
  "\<exists>c r res st'. NewCorpus demo_rows = Inr c \<and>
     NewRetriever c (Some (EmbedQuery (NewClient (flaky 0) True) no_faults)) (demo_options ModeHybrid) = Inr r \<and>
     Search demo_text no_dates (\<lambda>x. x) r ''hi'' 0 ([], 0) = Some (res, st') \<and> cache_ok (fst st')"
proof -
  obtain c where c: "NewCorpus demo_rows = Inr c" using demo_corpus by blast
  obtain r where r: "NewRetriever c (Some (EmbedQuery (NewClient (flaky 0) True) no_faults)) (demo_options ModeHybrid) = Inr r"
    by (simp add: NewRetriever_def demo_options_def ParseMode_def ModeHybrid_def ModeBM25_def Let_def)
  have "cache_ok (fst ([], 0))" by (simp add: cache_ok_def)
  from Search_with_client [OF c r this, of demo_text no_dates "\<lambda>x. x" "''hi''" 0] c r
  show ?thesis by blast
qed

end
