(* ===== verification/Metrics.thy ===== *)
theory Metrics
  imports GoFloat
begin

text \<open>
  Retrieval metrics (\<^verbatim>\<open>internal/eval/metrics.go\<close>) in binary64 arithmetic. A set of ids is the list of
  its elements without repetitions; \<^verbatim>\<open>math.Log2\<close> is an argument of the definitions that use it.
\<close>

section \<open>Metrics of one query\<close>

definition toSet :: "string list \<Rightarrow> string list" where
  "toSet ids = remdups ids"

text \<open>The loops stop at position \<open>k\<close> when it is positive; \<open>seen\<close> holds the gold ids found.\<close>

fun recall_loop :: "int \<Rightarrow> string list \<Rightarrow> nat \<Rightarrow> string list \<Rightarrow> string list \<Rightarrow> nat \<Rightarrow> nat" where
  "recall_loop k goldSet i [] seen hits = hits"
| "recall_loop k goldSet i (d # ds) seen hits =
     (if 0 < k \<and> k \<le> int i then hits
      else if d \<in> set goldSet \<and> d \<notin> set seen then recall_loop k goldSet (i + 1) ds (d # seen) (hits + 1)
      else recall_loop k goldSet (i + 1) ds seen hits)"

definition RecallAtK :: "string list \<Rightarrow> string list \<Rightarrow> int \<Rightarrow> f64" where
  "RecallAtK retrieved gold k =
     (let goldSet = toSet gold in
      if length goldSet = 0 then Num 0
      else f64_div (f64_of_int (int (recall_loop k goldSet 0 retrieved [] 0))) (f64_of_int (int (length goldSet))))"

definition gain :: "(f64 \<Rightarrow> f64) \<Rightarrow> nat \<Rightarrow> f64" where
  "gain mlog2 i = f64_div (Num 1) (mlog2 (f64_add (f64_of_int (int i)) (Num 2)))"

fun dcg_loop :: "(f64 \<Rightarrow> f64) \<Rightarrow> int \<Rightarrow> string list \<Rightarrow> nat \<Rightarrow> string list \<Rightarrow> string list \<Rightarrow> f64 \<Rightarrow> f64" where
  "dcg_loop mlog2 k goldSet i [] seen dcg = dcg"
| "dcg_loop mlog2 k goldSet i (d # ds) seen dcg =
     (if 0 < k \<and> k \<le> int i then dcg
      else if d \<in> set goldSet \<and> d \<notin> set seen
        then dcg_loop mlog2 k goldSet (i + 1) ds (d # seen) (f64_add dcg (gain mlog2 i))
      else dcg_loop mlog2 k goldSet (i + 1) ds seen dcg)"

definition ideal_dcg :: "(f64 \<Rightarrow> f64) \<Rightarrow> nat \<Rightarrow> f64" where
  "ideal_dcg mlog2 n = foldl (\<lambda>s i. f64_add s (gain mlog2 i)) (Num 0) [0..<n]"

definition ideal_hits :: "int \<Rightarrow> nat \<Rightarrow> nat" where
  "ideal_hits k n = (if 0 < k \<and> k < int n then nat k else n)"

definition NDCGAtK :: "(f64 \<Rightarrow> f64) \<Rightarrow> string list \<Rightarrow> string list \<Rightarrow> int \<Rightarrow> f64" where
  "NDCGAtK mlog2 retrieved gold k =
     (let goldSet = toSet gold in
      if length goldSet = 0 then Num 0
      else f64_div (dcg_loop mlog2 k goldSet 0 retrieved [] (Num 0))
             (ideal_dcg mlog2 (ideal_hits k (length goldSet))))"

fun mrr_loop :: "string list \<Rightarrow> nat \<Rightarrow> string list \<Rightarrow> f64" where
  "mrr_loop goldSet i [] = Num 0"
| "mrr_loop goldSet i (d # ds) =
     (if d \<in> set goldSet then f64_div (Num 1) (f64_of_int (int i + 1)) else mrr_loop goldSet (i + 1) ds)"

definition MRR :: "string list \<Rightarrow> string list \<Rightarrow> f64" where
  "MRR retrieved gold = mrr_loop (toSet gold) 0 retrieved"

section \<open>Aggregation\<close>

record QueryResult =
  qrID :: string
  qrGroup :: string
  qrRetrieved :: "string list"
  qrGold :: "string list"

record Summary =
  suN :: nat
  suRecall :: "int \<Rightarrow> f64 option"
  suNDCG :: "int \<Rightarrow> f64 option"
  suMRR :: f64

record Report =
  reOverall :: Summary
  reByGroup :: "string \<Rightarrow> Summary option"
  reSkipped :: nat

record accum =
  acN :: nat
  acRecall :: "int \<Rightarrow> f64 option"
  acNdcg :: "int \<Rightarrow> f64 option"
  acMrr :: f64

definition newAccum :: "int list \<Rightarrow> accum" where
  "newAccum ks = \<lparr>acN = 0, acRecall = (\<lambda>k. if k \<in> set ks then Some (Num 0) else None),
                  acNdcg = (\<lambda>k. if k \<in> set ks then Some (Num 0) else None), acMrr = Num 0\<rparr>"

text \<open>\<^verbatim>\<open>m[k] += v\<close> on a map of floats.\<close>

definition plus_at :: "int \<Rightarrow> f64 \<Rightarrow> (int \<Rightarrow> f64 option) \<Rightarrow> int \<Rightarrow> f64 option" where
  "plus_at k v m = m(k \<mapsto> f64_add (case m k of None \<Rightarrow> Num 0 | Some x \<Rightarrow> x) v)"

definition accum_add :: "(f64 \<Rightarrow> f64) \<Rightarrow> accum \<Rightarrow> QueryResult \<Rightarrow> int list \<Rightarrow> accum" where
  "accum_add mlog2 a r ks =
     a\<lparr>acN := acN a + 1,
       acRecall := foldl (\<lambda>m k. plus_at k (RecallAtK (qrRetrieved r) (qrGold r) k) m) (acRecall a) ks,
       acNdcg := foldl (\<lambda>m k. plus_at k (NDCGAtK mlog2 (qrRetrieved r) (qrGold r) k) m) (acNdcg a) ks,
       acMrr := f64_add (acMrr a) (MRR (qrRetrieved r) (qrGold r))\<rparr>"

definition mean_at :: "nat \<Rightarrow> (int \<Rightarrow> f64 option) \<Rightarrow> int \<Rightarrow> f64" where
  "mean_at n m k = f64_div (case m k of None \<Rightarrow> Num 0 | Some x \<Rightarrow> x) (f64_of_int (int n))"

definition summary :: "accum \<Rightarrow> int list \<Rightarrow> Summary" where
  "summary a ks =
     (if acN a = 0 then \<lparr>suN = 0, suRecall = (\<lambda>_. None), suNDCG = (\<lambda>_. None), suMRR = Num 0\<rparr>
      else \<lparr>suN = acN a,
            suRecall = (\<lambda>k. if k \<in> set ks then Some (mean_at (acN a) (acRecall a) k) else None),
            suNDCG = (\<lambda>k. if k \<in> set ks then Some (mean_at (acN a) (acNdcg a) k) else None),
            suMRR = f64_div (acMrr a) (f64_of_int (int (acN a)))\<rparr>)"

text \<open>The state of the loop of \<open>Evaluate\<close>: overall, the groups, and the skipped count.\<close>

fun eval_loop ::
  "(f64 \<Rightarrow> f64) \<Rightarrow> int list \<Rightarrow> QueryResult list \<Rightarrow> accum \<Rightarrow> (string \<Rightarrow> accum option) \<Rightarrow> nat \<Rightarrow>
     accum \<times> (string \<Rightarrow> accum option) \<times> nat" where
  "eval_loop mlog2 ks [] overall groups skipped = (overall, groups, skipped)"
| "eval_loop mlog2 ks (r # rs) overall groups skipped =
     (if qrGold r = [] then eval_loop mlog2 ks rs overall groups (skipped + 1)
      else let g = (case groups (qrGroup r) of Some g \<Rightarrow> g | None \<Rightarrow> newAccum ks)
           in eval_loop mlog2 ks rs (accum_add mlog2 overall r ks)
                (groups(qrGroup r \<mapsto> accum_add mlog2 g r ks)) skipped)"

definition Evaluate :: "(f64 \<Rightarrow> f64) \<Rightarrow> QueryResult list \<Rightarrow> int list \<Rightarrow> Report" where
  "Evaluate mlog2 results ks0 =
     (let ks = (if ks0 = [] then [5, 10] else ks0) in
      case eval_loop mlog2 ks results (newAccum ks) (\<lambda>_. None) 0 of
        (overall, groups, skipped) \<Rightarrow>
          \<lparr>reOverall = summary overall ks, reByGroup = (\<lambda>g. map_option (\<lambda>a. summary a ks) (groups g)),
           reSkipped = skipped\<rparr>)"

section \<open>Recall counts what it says\<close>

definition top :: "int \<Rightarrow> 'a list \<Rightarrow> 'a list" where
  "top k xs = (if 0 < k then take (nat k) xs else xs)"

lemma recall_loop_count:
  "distinct seen \<Longrightarrow> set seen \<subseteq> set gold \<Longrightarrow>
   recall_loop k gold i ds seen hits =
     hits + card (set (if 0 < k then take (nat (k - int i)) ds else ds) \<inter> set gold - set seen)"
proof (induction k gold i ds seen hits rule: recall_loop.induct)
  case (2 k gold i d ds seen hits)
  let ?t = "if 0 < k then take (nat (k - int (i + 1))) ds else ds"
  show ?case
  proof (cases "0 < k \<and> k \<le> int i")
    case False
    then have s: "(if 0 < k then take (nat (k - int i)) (d # ds) else d # ds) = d # ?t"
    proof (cases "0 < k")
      case True
      then have "nat (k - int i) = Suc (nat (k - int (i + 1)))" using False by simp
      then show ?thesis using True by simp
    qed simp
    show ?thesis
    proof (cases "d \<in> set gold \<and> d \<notin> set seen")
      case True
      have "set (d # ?t) \<inter> set gold - set seen = insert d (set ?t \<inter> set gold - set (d # seen))"
        using True by auto
      moreover have "d \<notin> set ?t \<inter> set gold - set (d # seen)" by simp
      ultimately have "card (set (d # ?t) \<inter> set gold - set seen) = Suc (card (set ?t \<inter> set gold - set (d # seen)))"
        by (metis List.finite_set card_insert_disjoint finite_Diff finite_Int)
      then show ?thesis unfolding s using False True 2(1) [OF False True] 2(3,4) by simp
    next
      case out: False
      then have "set (d # ?t) \<inter> set gold - set seen = set ?t \<inter> set gold - set seen" by auto
      then show ?thesis unfolding s using False out 2(2) [OF False out] 2(3,4) by (simp only: recall_loop.simps if_False)
    qed
  qed simp
qed simp

text \<open>Recall at \<open>k\<close> is the number of distinct gold ids among the first \<open>k\<close> retrieved (all retrieved
  when \<open>k\<close> is not positive), divided by the number of distinct gold ids: repetitions on either side count
  once. Without gold it is 0.\<close>

theorem recall_is_fraction_found:
  "RecallAtK retrieved gold k =
     (if gold = [] then Num 0
      else f64_div (f64_of_int (int (card (set (top k retrieved) \<inter> set gold)))) (f64_of_int (int (card (set gold)))))"
proof -
  have "recall_loop k (toSet gold) 0 retrieved [] 0 = card (set (top k retrieved) \<inter> set gold)"
    using recall_loop_count [of "[]" "toSet gold" k 0 retrieved 0] by (simp add: toSet_def top_def)
  then show ?thesis
    by (simp add: RecallAtK_def Let_def) (simp add: toSet_def length_remdups_card_conv)
qed

section \<open>Bounds\<close>

definition unit_range :: "f64 \<Rightarrow> bool" where
  "unit_range a \<longleftrightarrow> f64_le (Num 0) a \<and> f64_le a (Num 1)"

definition nonneg :: "f64 \<Rightarrow> bool" where
  "nonneg a \<longleftrightarrow> a = PInf \<or> (\<exists>r\<ge>0. a = Num r)"

lemma mk64_cases_nonneg: "0 \<le> r \<Longrightarrow> nonneg (mk64 False r)"
  using rnd64_nonneg [of r] by (auto simp: mk64_def nonneg_def Let_def)

lemma f64_add_nonneg: "nonneg a \<Longrightarrow> nonneg b \<Longrightarrow> nonneg (f64_add a b)"
proof -
  assume a: "nonneg a" "nonneg b"
  have "nonneg (mk64 False (r + q))" if "0 \<le> r" "0 \<le> q" for r q using that by (intro mk64_cases_nonneg) simp
  then show ?thesis using a unfolding nonneg_def [of a] nonneg_def [of b]
    by (auto simp: f64_add_def is_inf_def) (simp_all add: nonneg_def)
qed

lemma f64_le_refl: "a \<noteq> NaN \<Longrightarrow> f64_le a a"
  by (simp add: f64_le_def)

lemma f64_add_mono:
  "nonneg a \<Longrightarrow> nonneg b \<Longrightarrow> nonneg c \<Longrightarrow> nonneg d \<Longrightarrow> f64_le a b \<Longrightarrow> f64_le c d \<Longrightarrow>
   f64_le (f64_add a c) (f64_add b d)"
proof -
  assume a: "nonneg a" "nonneg b" "nonneg c" "nonneg d" "f64_le a b" "f64_le c d"
  have top: "f64_le x PInf" if "nonneg x" for x
    using that by (auto simp: nonneg_def f64_le_def)
  show ?thesis
  proof (cases "b = PInf \<or> d = PInf")
    case True
    then have "f64_add b d = PInf" using a(2,4) by (auto simp: nonneg_def f64_add_def is_inf_def)
    then show ?thesis using top f64_add_nonneg [OF a(1,3)] by simp
  next
    case False
    then obtain s q where bd: "b = Num s" "d = Num q" using a(2,4) by (auto simp: nonneg_def)
    then obtain r p where ac: "a = Num r" "c = Num p" using a by (auto simp: nonneg_def f64_le_def)
    then have "r \<le> s" "p \<le> q" using a(5,6) bd by (auto simp: f64_le_def)
    then show ?thesis using mk64_mono [of "r + p" "s + q"] by (simp add: ac bd f64_add_def is_inf_def)
  qed
qed

lemma f64_of_nat: "n < 2 ^ 53 \<Longrightarrow> f64_of_int (int n) = Num (of_nat n)"
proof -
  assume n: "n < 2 ^ 53"
  then have r: "rnd64 (of_int (int n)) = of_int (int n)" by (intro rnd64_int) (simp add: of_nat_less_iff [symmetric])
  have "ilog2 \<bar>of_nat n\<bar> < 1024" if "0 < n"
  proof -
    have "(of_nat n :: rat) < 2 powi 53"
      using n by (metis of_nat_less_iff of_nat_numeral of_nat_power power_int_numeral)
    then have "ilog2 (of_nat n) < 53" using ilog2_bounds [of "of_nat n"] that powi2_less_iff
      by (metis le_less_trans of_nat_0_less_iff)
    then show ?thesis by simp
  qed
  then show ?thesis using r by (cases "n = 0") (auto simp: f64_of_int_def mk64_def Let_def)
qed

lemma div_unit: "nonneg (Num r) \<Longrightarrow> 0 < s \<Longrightarrow> r \<le> s \<Longrightarrow> unit_range (f64_div (Num r) (Num s))"
proof -
  assume a: "nonneg (Num r)" "0 < s" "r \<le> s"
  have e: "f64_div (Num r) (Num s) = mk64 False (r / s)"
    using a by (auto simp: f64_div_def is_inf_def is_neg_def nonneg_def Let_def)
  have i: "mk64 False 0 = Num 0" "mk64 False 1 = Num 1" by (simp_all add: mk64_def ilog2_def Let_def)
  have "0 \<le> r / s" "r / s \<le> 1" using a by (auto simp: nonneg_def)
  then show ?thesis
    using mk64_mono [of 0 "r / s" False False] mk64_mono [of "r / s" 1 False False] e i by (simp add: unit_range_def)
qed

lemma one_div_unit: "0 < n \<Longrightarrow> unit_range (f64_div (Num 1) (f64_of_int n))"
proof -
  assume n: "0 < n"
  have "1 \<le> rnd64 (of_int n)" using rnd64_mono [of 1 "of_int n"] n by simp
  then consider "f64_of_int n = PInf" | s where "f64_of_int n = Num s" "1 \<le> s"
    by (cases "1024 \<le> ilog2 \<bar>rnd64 (of_int n)\<bar>") (auto simp: f64_of_int_def mk64_def Let_def)
  then show ?thesis
  proof cases
    case 1
    then show ?thesis by (simp add: f64_div_def is_inf_def is_neg_def unit_range_def f64_le_def)
  next
    case (2 s)
    then show ?thesis using div_unit [of 1 s] by (simp add: nonneg_def)
  qed
qed

lemma unit_0: "unit_range (Num 0)"
  by (simp add: unit_range_def f64_le_def)

lemma mrr_loop_unit: "unit_range (mrr_loop gold i ds)"
  by (induction gold i ds rule: mrr_loop.induct) (simp_all add: unit_0 one_div_unit)

text \<open>What the metric relies on of \<^verbatim>\<open>math.Log2\<close>: the logarithms of 2, 3, 4, \<open>\<dots>\<close> are finite, start at 1, and do
  not decrease.\<close>

definition log2_ok :: "(f64 \<Rightarrow> f64) \<Rightarrow> nat \<Rightarrow> bool" where
  "log2_ok mlog2 n \<longleftrightarrow>
     mlog2 (f64_add (f64_of_int 0) (Num 2)) = Num 1 \<and>
     (\<forall>i<n. \<exists>r\<ge>1. mlog2 (f64_add (f64_of_int (int i)) (Num 2)) = Num r) \<and>
     (\<forall>i<n. \<forall>j<i. f64_le (mlog2 (f64_add (f64_of_int (int j)) (Num 2))) (mlog2 (f64_add (f64_of_int (int i)) (Num 2))))"

lemma gain_Num: "1 \<le> r \<Longrightarrow> f64_div (Num 1) (Num r) = mk64 False (1 / r)"
  by (auto simp: f64_div_def is_inf_def is_neg_def Let_def)

lemma gain_unit: "log2_ok mlog2 n \<Longrightarrow> i < n \<Longrightarrow> nonneg (gain mlog2 i) \<and> f64_le (gain mlog2 i) (Num 1)"
proof -
  assume l: "log2_ok mlog2 n" "i < n"
  then obtain r where r: "1 \<le> r" "mlog2 (f64_add (f64_of_int (int i)) (Num 2)) = Num r" by (auto simp: log2_ok_def)
  then have g: "gain mlog2 i = mk64 False (1 / r)" by (simp add: gain_def gain_Num)
  have "unit_range (gain mlog2 i)" using div_unit [of 1 r] r by (simp add: gain_def nonneg_def)
  moreover have "nonneg (gain mlog2 i)" unfolding g by (rule mk64_cases_nonneg) (use r in simp)
  ultimately show ?thesis by (simp add: unit_range_def)
qed

lemma gain_antimono: "log2_ok mlog2 n \<Longrightarrow> j \<le> i \<Longrightarrow> i < n \<Longrightarrow> f64_le (gain mlog2 i) (gain mlog2 j)"
proof -
  assume l: "log2_ok mlog2 n" "j \<le> i" "i < n"
  obtain r q where r: "1 \<le> r" "mlog2 (f64_add (f64_of_int (int i)) (Num 2)) = Num r"
    and q: "1 \<le> q" "mlog2 (f64_add (f64_of_int (int j)) (Num 2)) = Num q"
    using l by (meson le_less_trans log2_ok_def)
  have "q \<le> r"
  proof (cases "j = i")
    case False
    then have "f64_le (Num q) (Num r)" using l r q unfolding log2_ok_def by (metis le_neq_implies_less)
    then show ?thesis by (simp add: f64_le_def)
  qed (use r q in simp)
  then have "1 / r \<le> 1 / q" using q by (simp add: frac_le)
  then show ?thesis using mk64_mono r q by (simp add: gain_def gain_Num)
qed

lemma ideal_dcg_Suc: "ideal_dcg mlog2 (Suc n) = f64_add (ideal_dcg mlog2 n) (gain mlog2 n)"
  by (simp add: ideal_dcg_def)

lemma ideal_dcg_nonneg: "log2_ok mlog2 n \<Longrightarrow> m \<le> n \<Longrightarrow> nonneg (ideal_dcg mlog2 m)"
proof (induction m)
  case 0
  then show ?case by (simp add: ideal_dcg_def nonneg_def)
next
  case (Suc m)
  then show ?case using gain_unit [OF Suc.prems(1), of m] f64_add_nonneg by (simp add: ideal_dcg_Suc)
qed

lemma ideal_dcg_le: "log2_ok mlog2 n \<Longrightarrow> m \<le> n \<Longrightarrow> m < 2 ^ 53 \<Longrightarrow> f64_le (ideal_dcg mlog2 m) (Num (of_nat m))"
proof (induction m)
  case 0
  then show ?case by (simp add: ideal_dcg_def f64_le_def)
next
  case (Suc m)
  have le: "f64_le (ideal_dcg mlog2 m) (Num (of_nat m))" using Suc by simp
  have g: "nonneg (gain mlog2 m)" "f64_le (gain mlog2 m) (Num 1)" using gain_unit [OF Suc.prems(1), of m] Suc.prems by simp_all
  have "f64_add (Num (of_nat m)) (Num 1) = f64_of_int (int (Suc m))"
    by (simp add: f64_add_def is_inf_def f64_of_int_def algebra_simps)
  also have "\<dots> = Num (of_nat (Suc m))" using f64_of_nat [OF Suc.prems(3)] .
  finally have e: "f64_add (Num (of_nat m)) (Num 1) = Num (of_nat (Suc m))" .
  have "f64_le (f64_add (ideal_dcg mlog2 m) (gain mlog2 m)) (f64_add (Num (of_nat m)) (Num 1))"
    by (rule f64_add_mono) (use le g ideal_dcg_nonneg [OF Suc.prems(1), of m] Suc.prems in \<open>simp_all add: nonneg_def\<close>)
  then show ?case unfolding e ideal_dcg_Suc .
qed

lemma ideal_dcg_grows: "log2_ok mlog2 n \<Longrightarrow> m' \<le> n \<Longrightarrow> m \<le> m' \<Longrightarrow> f64_le (ideal_dcg mlog2 m) (ideal_dcg mlog2 m')"
proof (induction m')
  case 0
  then show ?case by (simp add: ideal_dcg_def f64_le_def)
next
  case (Suc m')
  have nn: "nonneg (ideal_dcg mlog2 k)" if "k \<le> n" for k using ideal_dcg_nonneg [OF Suc.prems(1) that] .
  show ?case
  proof (cases "m = Suc m'")
    case True
    then show ?thesis using nn [OF Suc.prems(2)] by (auto simp: nonneg_def intro: f64_le_refl)
  next
    case False
    then have le: "f64_le (ideal_dcg mlog2 m) (ideal_dcg mlog2 m')" using Suc by simp
    have g: "nonneg (gain mlog2 m')" using gain_unit [OF Suc.prems(1), of m'] Suc.prems by simp
    have ok: "f64_add (ideal_dcg mlog2 m') (Num 0) = mk64 False (fval (ideal_dcg mlog2 m')) \<or> ideal_dcg mlog2 m' = PInf"
      using nn [of m'] Suc.prems by (auto simp: nonneg_def f64_add_def is_inf_def)
    have okm: "f64_ok (ideal_dcg mlog2 k)" for k
    proof (cases k)
      case (Suc j)
      then show ?thesis unfolding ideal_dcg_Suc Suc
        by (induction j) (auto simp: ideal_dcg_Suc gain_def f64_div_ok intro!: f64_add_ok, simp_all add: ideal_dcg_def f64_ok_def)
    qed (simp add: ideal_dcg_def f64_ok_def)
    have "f64_add (ideal_dcg mlog2 m') (Num 0) = ideal_dcg mlog2 m'"
      using okm [of m'] nn [of m'] Suc.prems
      by (auto simp: nonneg_def f64_add_def is_inf_def f64_ok_def mk64_def Let_def)
    moreover have "f64_le (f64_add (ideal_dcg mlog2 m') (Num 0)) (f64_add (ideal_dcg mlog2 m') (gain mlog2 m'))"
      by (rule f64_add_mono)
        (use nn [of m'] g Suc.prems in \<open>auto simp: nonneg_def f64_le_def\<close>)
    ultimately show ?thesis using le f64_le_trans by (simp add: ideal_dcg_Suc)
  qed
qed

text \<open>After \<open>length seen\<close> hits before position \<open>i\<close>, the accumulated gain is at most the ideal one.\<close>

lemma dcg_loop_le:
  assumes "log2_ok mlog2 n" and "i + length ds \<le> n" and "length seen \<le> i"
    and "nonneg dcg" and "f64_le dcg (ideal_dcg mlog2 (length seen))"
    and "distinct seen" and "set seen \<subseteq> set gold" and "0 < k \<longrightarrow> int (length seen) \<le> k"
  shows "nonneg (dcg_loop mlog2 k gold i ds seen dcg) \<and>
    (\<exists>h. h \<le> n \<and> h \<le> card (set gold) \<and> (0 < k \<longrightarrow> int h \<le> k) \<and>
       f64_le (dcg_loop mlog2 k gold i ds seen dcg) (ideal_dcg mlog2 h))"
  using assms
proof (induction mlog2 k gold i ds seen dcg rule: dcg_loop.induct)
  case (1 mlog2 k gold i seen dcg)
  have "length seen \<le> card (set gold)" using 1(6,7) by (metis List.finite_set card_mono distinct_card)
  then show ?case using 1 by (intro conjI exI [of _ "length seen"]) simp_all
next
  case (2 mlog2 k gold i d ds seen dcg)
  show ?case
  proof (cases "0 < k \<and> k \<le> int i")
    case True
    have "length seen \<le> card (set gold)" using 2(8,9) by (metis List.finite_set card_mono distinct_card)
    then show ?thesis using True 2(3-10) by (intro conjI exI [of _ "length seen"]) simp_all
  next
    case False
    show ?thesis
    proof (cases "d \<in> set gold \<and> d \<notin> set seen")
      case True
      have i: "i < n" using 2(4) by simp
      have g: "nonneg (gain mlog2 i)" "nonneg (gain mlog2 (length seen))"
        using gain_unit [OF 2(3)] i 2(5) by auto
      have "f64_le (f64_add dcg (gain mlog2 i)) (ideal_dcg mlog2 (length (d # seen)))"
        unfolding length_Cons ideal_dcg_Suc
        by (rule f64_add_mono)
          (use 2(6,7) g ideal_dcg_nonneg [OF 2(3), of "length seen"] gain_antimono [OF 2(3) 2(5) i] i 2(5) in auto)
      moreover have "nonneg (f64_add dcg (gain mlog2 i))" using f64_add_nonneg 2(6) g by blast
      ultimately show ?thesis using False True 2(1) [OF False True] 2(3-10) by auto
    next
      case out: False
      then show ?thesis using False 2(2) [OF False out] 2(3-10) by auto
    qed
  qed
qed

lemma ideal_hits_bound: "h \<le> n \<Longrightarrow> (0 < k \<longrightarrow> int h \<le> k) \<Longrightarrow> h \<le> ideal_hits k n"
  by (auto simp: ideal_hits_def)

lemma ndcg_unit:
  assumes l: "log2_ok mlog2 n" and n: "length retrieved \<le> n" "length gold \<le> n" "n < 2 ^ 53"
  shows "unit_range (NDCGAtK mlog2 retrieved gold k)"
proof (cases "gold = []")
  case True
  then show ?thesis by (simp add: NDCGAtK_def toSet_def unit_0)
next
  case False
  let ?dcg = "dcg_loop mlog2 k (toSet gold) 0 retrieved [] (Num 0)"
  define m where "m = ideal_hits k (length (toSet gold))"
  have pos: "0 < length (toSet gold)" using False by (simp add: toSet_def)
  have lt: "length (toSet gold) \<le> length gold" by (simp add: toSet_def)
  have "1 \<le> m" "m \<le> length (toSet gold)"
    using pos by (auto simp: m_def ideal_hits_def Suc_le_eq simp del: length_greater_0_conv)
  then have m: "1 \<le> m" "m \<le> n" using lt n by simp_all
  obtain h where h: "h \<le> card (set (toSet gold))" "0 < k \<longrightarrow> int h \<le> k" "f64_le ?dcg (ideal_dcg mlog2 h)"
    and nn: "nonneg ?dcg"
    using dcg_loop_le [OF l, of 0 retrieved "[]" "Num 0" "toSet gold" k] n
    by (auto simp: nonneg_def f64_le_def ideal_dcg_def)
  have "card (set (toSet gold)) = length (toSet gold)" by (simp add: toSet_def length_remdups_card_conv)
  then have "h \<le> m" unfolding m_def using h by (intro ideal_hits_bound) simp_all
  then have le: "f64_le ?dcg (ideal_dcg mlog2 m)" using h(3) ideal_dcg_grows [OF l m(2)] f64_le_trans by blast
  have one: "f64_le (Num 1) (ideal_dcg mlog2 m)"
  proof -
    have "ideal_dcg mlog2 1 = f64_add (Num 0) (f64_div (Num 1) (Num 1))"
      using l by (simp add: ideal_dcg_def gain_def log2_ok_def)
    also have "\<dots> = Num 1" by code_simp
    finally show ?thesis using ideal_dcg_grows [OF l m(2) m(1)] by simp
  qed
  have "f64_le (ideal_dcg mlog2 m) (Num (of_nat m))" by (rule ideal_dcg_le [OF l m(2)]) (use m n in simp)
  then obtain s where s: "ideal_dcg mlog2 m = Num s" "1 \<le> s"
    using one ideal_dcg_nonneg [OF l m(2)] by (auto simp: nonneg_def f64_le_def)
  then obtain r where "?dcg = Num r" "0 \<le> r" "r \<le> s" using le nn by (auto simp: nonneg_def f64_le_def)
  then have "unit_range (f64_div ?dcg (ideal_dcg mlog2 m))" using div_unit [of r s] s by (simp add: nonneg_def)
  then show ?thesis using pos by (simp add: NDCGAtK_def m_def Let_def)
qed

text \<open>C33. Every metric of a query lies between 0 and 1, in floating point: recall and NDCG at every cutoff,
  and the reciprocal rank, for lists shorter than 2^53 and a logarithm that starts at 1 and does not
  decrease.\<close>

theorem metrics_unit_range:
  assumes "log2_ok mlog2 n" and "length retrieved \<le> n" and "length gold \<le> n" and "n < 2 ^ 53"
  shows "unit_range (RecallAtK retrieved gold k) \<and> unit_range (NDCGAtK mlog2 retrieved gold k) \<and>
    unit_range (MRR retrieved gold)"
proof -
  define hits where "hits = recall_loop k (toSet gold) 0 retrieved [] 0"
  have "hits = card (set (top k retrieved) \<inter> set gold)"
    using recall_loop_count [of "[]" "toSet gold" k 0 retrieved 0] by (simp add: hits_def toSet_def top_def)
  then have "hits \<le> card (set gold)" by (simp add: card_mono)
  moreover have c: "length (toSet gold) = card (set gold)" by (simp add: toSet_def length_remdups_card_conv)
  moreover have "card (set gold) < 2 ^ 53" using card_length [of gold] assms(3,4) by linarith
  ultimately have h: "hits \<le> length (toSet gold)" "length (toSet gold) < 2 ^ 53" "hits < 2 ^ 53" by simp_all
  have "unit_range (RecallAtK retrieved gold k)"
  proof (cases "length (toSet gold) = 0")
    case False
    then have "unit_range (f64_div (Num (of_nat hits)) (Num (of_nat (length (toSet gold)))))"
      using h(1) by (intro div_unit) (simp_all add: nonneg_def)
    then show ?thesis using False h(2,3) by (simp add: RecallAtK_def Let_def f64_of_nat hits_def)
  qed (simp add: RecallAtK_def unit_0)
  then show ?thesis using ndcg_unit [OF assms] mrr_loop_unit by (simp add: MRR_def)
qed

definition demo_log2 :: "f64 \<Rightarrow> f64" where
  "demo_log2 x = (if x = Num 2 then Num 1 else Num 2)"

theorem metrics_unit_range_witness:
  "unit_range (NDCGAtK demo_log2 [''a'', ''b'', ''a''] [''b'', ''c''] 5)"
proof -
  have two: "f64_add (f64_of_int 0) (Num 2) = Num 2" by code_simp
  have r: "demo_log2 x = Num 1 \<or> demo_log2 x = Num 2" for x by (simp add: demo_log2_def)
  have "f64_add (f64_of_int 1) (Num 2) \<noteq> Num 2" "f64_add (f64_of_int 2) (Num 2) \<noteq> Num 2" by code_simp+
  then have v: "demo_log2 (f64_add (f64_of_int 1) (Num 2)) = Num 2" "demo_log2 (f64_add (f64_of_int 2) (Num 2)) = Num 2"
    "demo_log2 (f64_add (f64_of_int 0) (Num 2)) = Num 1" by (simp_all add: demo_log2_def two)
  have "log2_ok demo_log2 3"
    unfolding log2_ok_def using v by (auto simp: less_Suc_eq numeral_3_eq_3 f64_le_def)
  then show ?thesis using metrics_unit_range [of demo_log2 3 "[''a'', ''b'', ''a'']" "[''b'', ''c'']" 5] by simp
qed

section \<open>Groups are evaluations of their own\<close>

definition scored :: "QueryResult list \<Rightarrow> QueryResult list" where
  "scored rs = filter (\<lambda>r. qrGold r \<noteq> []) rs"

definition of_group :: "string \<Rightarrow> QueryResult list \<Rightarrow> QueryResult list" where
  "of_group g rs = filter (\<lambda>r. qrGroup r = g) rs"

lemma eval_loop_folds:
  "eval_loop mlog2 ks rs overall groups skipped =
     (foldl (\<lambda>a r. accum_add mlog2 a r ks) overall (scored rs),
      (\<lambda>g. if of_group g (scored rs) = [] then groups g
           else Some (foldl (\<lambda>a r. accum_add mlog2 a r ks)
             (case groups g of Some a \<Rightarrow> a | None \<Rightarrow> newAccum ks) (of_group g (scored rs)))),
      skipped + length (filter (\<lambda>r. qrGold r = []) rs))"
proof (induction rs arbitrary: overall groups skipped)
  case (Cons r rs)
  show ?case
  proof (cases "qrGold r = []")
    case True
    then have s: "scored (r # rs) = scored rs" by (simp add: scored_def)
    show ?thesis unfolding s using Cons True by simp
  next
    case False
    then have s: "scored (r # rs) = r # scored rs" by (simp add: scored_def)
    have g: "of_group g (r # scored rs) = (if qrGroup r = g then r # of_group g (scored rs) else of_group g (scored rs))" for g
      by (simp add: of_group_def)
    show ?thesis unfolding s using False by (simp add: Cons g Let_def fun_eq_iff)
  qed
qed (simp add: scored_def of_group_def)

lemma foldl_accum_n: "acN (foldl (\<lambda>a r. accum_add mlog2 a r ks) a rs) = acN a + length rs"
  by (induction rs arbitrary: a) (simp_all add: accum_add_def)

lemma summary_n: "suN (summary a ks) = acN a"
  by (simp add: summary_def)

lemma Evaluate_overall:
  "reOverall (Evaluate mlog2 rs ks) =
     (let ks' = (if ks = [] then [5, 10] else ks)
      in summary (foldl (\<lambda>a r. accum_add mlog2 a r ks') (newAccum ks') (scored rs)) ks')"
  by (simp add: Evaluate_def eval_loop_folds Let_def)

text \<open>The report accounts for every query: each is scored once or skipped for want of gold, and the
  breakdown of a group is exactly what evaluating that group's queries alone reports overall; a group
  without a scored query does not appear.\<close>

theorem Evaluate_by_group:
  "suN (reOverall (Evaluate mlog2 rs ks)) + reSkipped (Evaluate mlog2 rs ks) = length rs \<and>
   reByGroup (Evaluate mlog2 rs ks) g =
     (if of_group g (scored rs) = [] then None else Some (reOverall (Evaluate mlog2 (of_group g rs) ks)))"
proof
  have "length (scored rs) + length (filter (\<lambda>r. qrGold r = []) rs) = length rs"
    using sum_length_filter_compl [of "\<lambda>r. qrGold r \<noteq> []" rs] by (simp add: scored_def)
  then show "suN (reOverall (Evaluate mlog2 rs ks)) + reSkipped (Evaluate mlog2 rs ks) = length rs"
    by (simp add: Evaluate_overall Let_def summary_n foldl_accum_n newAccum_def)
      (simp add: Evaluate_def eval_loop_folds Let_def)
next
  have "scored (of_group g rs) = of_group g (scored rs)"
    by (simp add: scored_def of_group_def conj_commute)
  then show "reByGroup (Evaluate mlog2 rs ks) g =
      (if of_group g (scored rs) = [] then None else Some (reOverall (Evaluate mlog2 (of_group g rs) ks)))"
    by (simp add: Evaluate_overall Let_def) (simp add: Evaluate_def eval_loop_folds Let_def)
qed

end
