(* ===== verification/Client.thy ===== *)
theory Client
  imports Dataset Retriever Metrics
begin

text \<open>
  The benchmark client (\<^verbatim>\<open>cmd/client/main.go\<close>): ingest, waiting for enrichment, and the evaluation with its
  tuning, the mapping of fetched rows back to dataset ids, the granularity filter, the expansion of
  rounds and the gates on the exit code. The server is met through its replies; the embedder, the clock
  and the logarithms are arguments. Log output is left out.
\<close>

section \<open>Ingest\<close>

definition ingest_msg :: "string \<Rightarrow> conversation \<Rightarrow> item \<Rightarrow> upload_msg" where
  "ingest_msg dataset c it =
     (let env = envelopeOf (cvNum c) it
      in \<lparr>umConversationId = eConversationID env, umSessionId = eSessionID env, umTurnId = eTurnID env,
          umSpeaker = eSpeaker env, umText = eText env,
          umMetadata = [''date_time'' \<mapsto> eDateTime env, ''dataset'' \<mapsto> dataset]\<rparr>)"

definition conv_msgs :: "string \<Rightarrow> conversation \<Rightarrow> upload_msg list" where
  "conv_msgs dataset c = map (ingest_msg dataset c) (cvItems c @ fst (roundItemsOf c))"

text \<open>The messages the command sends, in order; \<open>upload\<close> is the server's answer to the stream.\<close>

definition cmdIngest ::
  "(go_error, conversation list) result \<Rightarrow> string \<Rightarrow> (upload_msg list \<Rightarrow> (go_error, UploadAck) result) \<Rightarrow>
   (go_error, UploadAck) result" where
  "cmdIngest loaded dataset upload =
     (case loaded of
        Inl e \<Rightarrow> Inl e
      | Inr convs \<Rightarrow> upload (concat (map (conv_msgs dataset) convs)))"

section \<open>Waiting for enrichment\<close>

text \<open>What the world does in one round of the polling loop: the database behind the server at the time of the call
  (with the fate of its statement), whether the call is lost on the network, and whether the deadline of the command passes in a failing call
  or in the pause after a reply.\<close>

record wait_round =
  wrPg :: pg_state
  wrLost :: "go_error option"
  wrExpired :: bool

text \<open>The call of \<^verbatim>\<open>GetProgress\<close> for conversation 0, answered by the server's handler.\<close>

definition poll_of :: "int32 \<Rightarrow> wait_round \<Rightarrow> (go_error, Progress) result" where
  "poll_of v rd = (case wrLost rd of Some e \<Rightarrow> Inl e | None \<Rightarrow> fst (MemoryService_GetProgress 0 v (wrPg rd)))"

definition progress_line :: "Progress \<Rightarrow> string" where
  "progress_line p = ''total='' @ FormatInt (int (pTotal p)) @ '' done='' @ FormatInt (int (pDone p)) @
     '' remaining='' @ FormatInt (int (pRemaining p)) @ '' dead='' @ FormatInt (int (pDead p))"

text \<open>The loop over the rounds; \<open>timeout\<close> is the printed duration and \<open>lastLine\<close> the line logged last. \<open>None\<close>: the loop is
  still polling after these rounds.\<close>

fun wait_loop :: "int \<Rightarrow> string \<Rightarrow> bool \<Rightarrow> string \<Rightarrow> wait_round list \<Rightarrow> (go_error, unit) result option" where
  "wait_loop version timeout failOnDead lastLine [] = None"
| "wait_loop version timeout failOnDead lastLine (rd # rds) =
     (case poll_of (word_of_int version) rd of
        Inl e \<Rightarrow>
          Some (Inl (if wrExpired rd then Errorf ''timeout after %s (last: %s)'' [AStr timeout, AStr lastLine] else e))
      | Inr p \<Rightarrow>
          if failOnDead \<and> pDead p > 0
          then Some (Inl (Errorf ''%d memories dead-lettered at version %d (--fail-on-dead)''
                            [AInt (int (pDead p)), AInt version]))
          else if pTotal p > 0 \<and> pRemaining p = 0 then Some (Inr ())
          else if wrExpired rd
          then Some (Inl (Errorf ''timeout after %s (last: %s)'' [AStr timeout, AStr (progress_line p)]))
          else wait_loop version timeout failOnDead (progress_line p) rds)"

text \<open>\<open>dialed\<close> is the outcome of connecting to the server.\<close>

definition cmdWaitEnriched ::
  "(go_error, unit) result \<Rightarrow> int \<Rightarrow> string \<Rightarrow> bool \<Rightarrow> wait_round list \<Rightarrow> (go_error, unit) result option" where
  "cmdWaitEnriched dialed version timeout failOnDead rds =
     (if version \<le> 0 then Some (Inl (Errorf ''--version is required (no defaulting)'' []))
      else case dialed of
        Inl e \<Rightarrow> Some (Inl e)
      | Inr _ \<Rightarrow> wait_loop version timeout failOnDead [] rds)"

section \<open>Tuning\<close>

record evalTuning =
  tgGranularity :: string
  tgRrfK :: int
  tgCandidates :: int
  tgTopK :: int
  tgMaxPerSession :: int

definition evalDefaults :: "string \<Rightarrow> evalTuning" where
  "evalDefaults dataset =
     (let t0 = \<lparr>tgGranularity = ''all'', tgRrfK = DefaultRRFK, tgCandidates = DefaultCandidateN,
                tgTopK = DefaultTopK, tgMaxPerSession = 4\<rparr>;
          t1 = (if dataset = ''locomo'' then t0\<lparr>tgRrfK := 10, tgMaxPerSession := 0\<rparr> else t0)
      in if dataset = ''longmemeval_s'' then t1\<lparr>tgRrfK := 30, tgGranularity := ''turn''\<rparr> else t1)"

record eval_flags =
  flDataset :: string
  flVersion :: int
  flRetrieval :: string
  flMaxPerSession :: int
  flRrfK :: int
  flCandidates :: int
  flTopK :: int
  flGranularity :: string

definition tune :: "eval_flags \<Rightarrow> (go_error, Mode \<times> evalTuning) result" where
  "tune fl =
     (if flVersion fl \<le> 0 then Inl (Errorf ''--version is required (no defaulting)'' [])
      else case ParseMode (flRetrieval fl) of
        Inl e \<Rightarrow> Inl e
      | Inr mode \<Rightarrow>
          (let t = evalDefaults (flDataset fl);
               t1 = (if flGranularity fl \<noteq> [] then t\<lparr>tgGranularity := flGranularity fl\<rparr> else t)
           in if \<not> (tgGranularity t1 = ''turn'' \<or> tgGranularity t1 = ''round'' \<or> tgGranularity t1 = ''all'')
              then Inl (Errorf ''--granularity %q invalid (want turn|round|all)'' [AStr (tgGranularity t1)])
              else
                let t2 = (if flRrfK fl > 0 then t1\<lparr>tgRrfK := flRrfK fl\<rparr> else t1);
                    t3 = (if flCandidates fl > 0 then t2\<lparr>tgCandidates := flCandidates fl\<rparr> else t2);
                    t4 = (if flTopK fl > 0 then t3\<lparr>tgTopK := flTopK fl\<rparr> else t3);
                    t5 = (if flMaxPerSession fl \<ge> 0 then t4\<lparr>tgMaxPerSession := flMaxPerSession fl\<rparr> else t4)
                in Inr (mode, t5)))"

section \<open>The corpus of a conversation\<close>

datatype em_recv = EmMsg enriched_msg | EmErr go_error

definition by_hash :: "int64 \<Rightarrow> item list \<Rightarrow> string \<Rightarrow> item option" where
  "by_hash num loc = map_of (rev (map (\<lambda>it. (hex_encode (Hash (Marshal (envelopeOf num it))), it)) loc))"

text \<open>An empty bytes field is nil on the wire; a zero timestamp means none.\<close>

definition row_of_em :: "conversation \<Rightarrow> item \<Rightarrow> enriched_msg \<Rightarrow> Row" where
  "row_of_em c it em =
     \<lparr>rowID = itTurnID it, rowConversationID = cvName c, rowSessionID = itSessionID it, rowTurnID = itTurnID it,
      rowText = gmNormalizedText em, rowLexemes = gmLexemes em,
      rowTimestamp = (if gmTsUnix em \<noteq> 0 then (gmTsUnix em + unixToInternal) * 1000000000 else 0),
      rowEmbeddingBytes = (if gmEmbedding em = [] then None else Some (gmEmbedding em))\<rparr>"

fun corpus_stream ::
  "conversation \<Rightarrow> (string \<Rightarrow> item option) \<Rightarrow> nat \<Rightarrow> Row list \<Rightarrow> em_recv list \<Rightarrow> (go_error, Row list \<times> nat) result" where
  "corpus_stream c byHash fetched rows [] = Inr (rows, fetched)"
| "corpus_stream c byHash fetched rows (EmErr e # rs) =
     Inl (Wrapf ''fetch stream (after %d rows): %w'' [AInt (int fetched)] e)"
| "corpus_stream c byHash fetched rows (EmMsg em # rs) =
     (case byHash (hex_encode (gmContentHash em)) of
        None \<Rightarrow> corpus_stream c byHash (fetched + 1) rows rs
      | Some it \<Rightarrow> corpus_stream c byHash (fetched + 1) (rows @ [row_of_em c it em]) rs)"

definition fetchCorpus ::
  "conversation \<Rightarrow> item list \<Rightarrow> (go_error, em_recv list) result \<Rightarrow> (go_error, Row list \<times> nat) result" where
  "fetchCorpus c roundItems reply =
     (let byHash = by_hash (cvNum c) (cvItems c @ roundItems)
      in case reply of Inl e \<Rightarrow> Inl e | Inr rs \<Rightarrow> corpus_stream c byHash 0 [] rs)"

definition filterGranularity :: "Row list \<Rightarrow> expand \<Rightarrow> string \<Rightarrow> Row list" where
  "filterGranularity rows expand granularity =
     (if granularity = [] \<or> granularity = ''all'' then rows
      else
        let covered = concat (map snd expand);
            isRound = (\<lambda>r. map_of expand (rowID r) \<noteq> None)
        in filter (\<lambda>r. if granularity = ''turn'' then \<not> isRound r
                       else if granularity = ''round'' then isRound r \<or> rowID r \<notin> set covered
                       else False) rows)"

section \<open>Scoring\<close>

definition add_once :: "string list \<Rightarrow> string \<Rightarrow> string list" where
  "add_once out i = (if i \<in> set out then out else out @ [i])"

fun expand_loop :: "expand \<Rightarrow> string list \<Rightarrow> Scored list \<Rightarrow> string list" where
  "expand_loop ex out [] = out"
| "expand_loop ex out (s # ss) =
     (case map_of ex (sID s) of
        Some members \<Rightarrow> expand_loop ex (foldl add_once out members) ss
      | None \<Rightarrow> expand_loop ex (add_once out (sID s)) ss)"

definition expandRetrieved :: "Scored list \<Rightarrow> expand \<Rightarrow> string list" where
  "expandRetrieved found ex = expand_loop ex [] found"

text \<open>What the evaluation asks of its surroundings: the pipeline and its dates, the logarithms, the query
  embedder, whether its context has ended, and the server's answer for a conversation.\<close>

record 's eval_env =
  evText :: text_env
  evDates :: date_env
  evLog :: "f64 \<Rightarrow> f64"
  evLog2 :: "f64 \<Rightarrow> f64"
  evEmbedder :: "'s embedder"
  evCancelled :: "'s \<Rightarrow> bool"
  evFetch :: "conversation \<Rightarrow> int32 \<Rightarrow> (go_error, em_recv list) result"

record 's tally =
  tyResults :: "QueryResult list"
  tyFetched :: nat
  tyMapped :: nat
  tyTotal :: nat
  tySkipped :: nat
  tyState :: 's

text \<open>One question; the outer \<open>None\<close> is a panic in the search.\<close>

definition eval_question ::
  "'s eval_env \<Rightarrow> 's Retriever \<Rightarrow> expand \<Rightarrow> question \<Rightarrow> 's tally \<Rightarrow> (go_error, 's tally) result option" where
  "eval_question ev r ex q ty =
     (let qdate = (if quQuestionDate q \<noteq> []
                   then (case ParseTimestamp (evDates ev) (quQuestionDate q) of Inr t \<Rightarrow> t | Inl _ \<Rightarrow> 0)
                   else 0)
      in case Search (evText ev) (evDates ev) (evLog ev) r (quQuestion q) qdate (tyState ty) of
           None \<Rightarrow> None
         | Some (Inl err, s') \<Rightarrow>
             if evCancelled ev s' then Some (Inl (Wrapf ''question %s: %w'' [AStr (quID q)] err))
             else Some (Inr (ty\<lparr>tyTotal := tyTotal ty + 1, tySkipped := tySkipped ty + 1, tyState := s'\<rparr>))
         | Some (Inr found, s') \<Rightarrow>
             Some (Inr (ty\<lparr>tyTotal := tyTotal ty + 1, tyState := s',
                tyResults := tyResults ty @ [\<lparr>qrID = quID q, qrGroup = quGroup q,
                  qrRetrieved = expandRetrieved found ex, qrGold = quEvidence q\<rparr>]\<rparr>)))"

fun eval_questions ::
  "'s eval_env \<Rightarrow> 's Retriever \<Rightarrow> expand \<Rightarrow> question list \<Rightarrow> 's tally \<Rightarrow> (go_error, 's tally) result option" where
  "eval_questions ev r ex [] ty = Some (Inr ty)"
| "eval_questions ev r ex (q # qs) ty =
     (case eval_question ev r ex q ty of
        None \<Rightarrow> None
      | Some (Inl e) \<Rightarrow> Some (Inl e)
      | Some (Inr ty') \<Rightarrow> eval_questions ev r ex qs ty')"

definition eval_options :: "Mode \<Rightarrow> evalTuning \<Rightarrow> Options" where
  "eval_options mode tun =
     \<lparr>oMode = mode, oTopK = tgTopK tun, oCandidateN = tgCandidates tun, oRRFK = tgRrfK tun,
      oTemporal = \<lparr>tWindow = 0, tBoost = Num 0, tHardFilter = False\<rparr>,
      oMMR = \<lparr>mLambda = Num 0, mMaxPerSession = tgMaxPerSession tun\<rparr>\<rparr>"

definition eval_conversation ::
  "'s eval_env \<Rightarrow> int32 \<Rightarrow> Mode \<Rightarrow> evalTuning \<Rightarrow> conversation \<Rightarrow> 's tally \<Rightarrow> (go_error, 's tally) result option" where
  "eval_conversation ev version mode tun c ty =
     (let (roundItems, ex) = roundItemsOf c
      in case fetchCorpus c roundItems (evFetch ev c version) of
           Inl err \<Rightarrow> Some (Inl (Wrapf ''conversation %s: %w'' [AStr (cvName c)] err))
         | Inr (allRows, nFetched) \<Rightarrow>
             (let rows = filterGranularity allRows ex (tgGranularity tun)
              in case NewCorpus rows of
                   Inl err \<Rightarrow> Some (Inl err)
                 | Inr corpus \<Rightarrow>
                     (case NewRetriever corpus (if mode \<noteq> ModeBM25 then Some (evEmbedder ev) else None)
                             (eval_options mode tun) of
                        Inl err \<Rightarrow> Some (Inl err)
                      | Inr r \<Rightarrow> eval_questions ev r ex (cvQuestions c)
                          (ty\<lparr>tyFetched := tyFetched ty + nFetched, tyMapped := tyMapped ty + length rows\<rparr>))))"

fun eval_conversations ::
  "'s eval_env \<Rightarrow> int32 \<Rightarrow> Mode \<Rightarrow> evalTuning \<Rightarrow> conversation list \<Rightarrow> 's tally \<Rightarrow> (go_error, 's tally) result option" where
  "eval_conversations ev version mode tun [] ty = Some (Inr ty)"
| "eval_conversations ev version mode tun (c # cs) ty =
     (case eval_conversation ev version mode tun c ty of
        None \<Rightarrow> None
      | Some (Inl e) \<Rightarrow> Some (Inl e)
      | Some (Inr ty') \<Rightarrow> eval_conversations ev version mode tun cs ty')"

text \<open>\<^verbatim>\<open>float64(embedSkipped) > 0.01*float64(totalQuestions)\<close>.\<close>

definition over_budget :: "nat \<Rightarrow> nat \<Rightarrow> bool" where
  "over_budget skipped asked \<longleftrightarrow>
     0 < asked \<and> f64_lt (f64_mul (f64_const (1 / 100)) (f64_of_int (int asked))) (f64_of_int (int skipped))"

definition eval_gate :: "string \<Rightarrow> Report \<Rightarrow> nat \<Rightarrow> nat \<Rightarrow> (go_error, unit) result" where
  "eval_gate dataset rep skipped asked =
     (if over_budget skipped asked
      then Inl (Errorf ''skipped %d/%d questions (embed failures) exceeds the 1%% budget'' [AInt (int skipped), AInt (int asked)])
      else if dataset = ''fixtures'' \<and>
          f64_lt (case suRecall (reOverall rep) 5 of Some r5 \<Rightarrow> r5 | None \<Rightarrow> Num 0) (f64_const (999999 / 1000000))
      then Inl (Errorf ''FIXTURES GATE FAILED: Recall@5 = %.4f, want 1.0'' [])
      else Inr ())"

definition cmdEval ::
  "'s eval_env \<Rightarrow> eval_flags \<Rightarrow> (go_error, conversation list) result \<Rightarrow> 's \<Rightarrow> (go_error, Report \<times> 's tally) result option" where
  "cmdEval ev fl loaded s =
     (case tune fl of
        Inl e \<Rightarrow> Some (Inl e)
      | Inr (mode, tun) \<Rightarrow>
          (case loaded of
             Inl e \<Rightarrow> Some (Inl e)
           | Inr convs \<Rightarrow>
               (case eval_conversations ev (word_of_int (flVersion fl)) mode tun convs
                       \<lparr>tyResults = [], tyFetched = 0, tyMapped = 0, tyTotal = 0, tySkipped = 0, tyState = s\<rparr> of
                  None \<Rightarrow> None
                | Some (Inl e) \<Rightarrow> Some (Inl e)
                | Some (Inr ty) \<Rightarrow>
                    (let rep = Evaluate (evLog2 ev) (tyResults ty) [5, 10]
                     in case eval_gate (flDataset fl) rep (tySkipped ty) (tyTotal ty) of
                          Inl e \<Rightarrow> Some (Inl e)
                        | Inr _ \<Rightarrow> Some (Inr (rep, ty))))))"

section \<open>Rows find their way back\<close>

lemma ingest_envelope: "envelope_of_msg (ingest_msg dataset c it) = envelopeOf (cvNum c) it"
  by (simp add: envelope_of_msg_def ingest_msg_def envelopeOf_def Let_def)

lemma envelopeOf_inj: "envelopeOf num it = envelopeOf num it' \<Longrightarrow> it = (it' :: item)"
  by (cases it; cases it') (simp add: envelopeOf_def)

lemma by_hash_finds:
  assumes "inj_on Hash ((\<lambda>it. Marshal (envelopeOf num it)) ` set loc)"
    and "\<forall>it\<in>set loc. envelope_valid (envelopeOf num it)" and "it \<in> set loc"
  shows "by_hash num loc (hex_encode (Hash (Marshal (envelopeOf num it)))) = Some it"
proof -
  let ?key = "\<lambda>it. hex_encode (Hash (Marshal (envelopeOf num it)))"
  let ?xs = "rev (map (\<lambda>it. (?key it, it)) loc)"
  have "?key it \<in> fst ` set ?xs" using assms(3) by force
  then have "map_of ?xs (?key it) \<noteq> None" by (simp only: map_of_eq_None_iff not_not)
  then obtain it' where m: "map_of ?xs (?key it) = Some it'" by blast
  then have "(?key it, it') \<in> set ?xs" by (rule map_of_SomeD)
  then have it': "it' \<in> set loc" "?key it' = ?key it" by auto
  have "Hash (Marshal (envelopeOf num it')) = Hash (Marshal (envelopeOf num it))" using it'(2) by (rule hex_encode_inj)
  then have eq: "Marshal (envelopeOf num it') = Marshal (envelopeOf num it)"
    by (rule inj_onD [OF assms(1)]) (use it'(1) assms(3) in auto)
  have "Parse (Marshal (envelopeOf num it')) = Inr (envelopeOf num it')" "Parse (Marshal (envelopeOf num it)) = Inr (envelopeOf num it)"
    using assms(2,3) it'(1) by (simp_all only: parse_marshal)
  then have "envelopeOf num it' = envelopeOf num it" unfolding eq by (simp only: sum.inject)
  then show ?thesis using m envelopeOf_inj unfolding by_hash_def by blast
qed

lemma corpus_stream_maps:
  assumes "list_all2 (\<lambda>it em. byHash (hex_encode (gmContentHash em)) = Some it) its ems"
  shows "corpus_stream c byHash n rows (map EmMsg ems) = Inr (rows @ map2 (row_of_em c) its ems, n + length ems)"
  using assms by (induction its ems arbitrary: n rows rule: list_all2_induct) simp_all

text \<open>C7. The evaluation scores the memories it means: when the server streams enriched rows of uploaded items,
  identified only by the hash the server computed at upload, the client maps every row back to the very
  item it was, with its turn id and session, in order, losing none.\<close>

theorem fetch_maps_back:
  assumes "loc = cvItems c @ fst (roundItemsOf c)"
    and "inj_on Hash ((\<lambda>it. Marshal (envelopeOf (cvNum c) it)) ` set loc)"
    and "\<forall>it\<in>set loc. envelope_valid (envelopeOf (cvNum c) it)"
    and "list_all2 (\<lambda>it em. it \<in> set loc \<and>
           gmContentHash em = mContentHash (row_of_msg bucket (ingest_msg dataset c it))) its ems"
  shows "fetchCorpus c (fst (roundItemsOf c)) (Inr (map EmMsg ems)) = Inr (map2 (row_of_em c) its ems, length ems)"
proof -
  have h: "mContentHash (row_of_msg bucket (ingest_msg dataset c it)) = Hash (Marshal (envelopeOf (cvNum c) it))" for it
    by (simp add: row_of_msg_def Let_def ingest_envelope)
  have "list_all2 (\<lambda>it em. by_hash (cvNum c) loc (hex_encode (gmContentHash em)) = Some it) its ems"
    using assms(4) by (rule list_all2_mono) (auto simp: h intro: by_hash_finds [OF assms(2,3)])
  then show ?thesis using corpus_stream_maps [of "by_hash (cvNum c) loc" its ems c 0 "[]"] assms(1)
    by (simp add: fetchCorpus_def Let_def)
qed

definition demo_em :: enriched_msg where
  "demo_em = \<lparr>gmMemoryId = 1, gmEnrichmentVersion = 1, gmNormalizedText = ''hi'', gmLexemes = [''hi''], gmTsUnix = 0,
     gmEmbedding = [], gmContentHash = mContentHash (row_of_msg ''b'' (ingest_msg ''d'' \<lparr>cvNum = 7, cvName = ''demo'',
       cvItems = take 1 demo_items, cvQuestions = []\<rparr> (hd demo_items))), gmS3Key = []\<rparr>"

theorem fetch_maps_back_witness:
  "\<exists>rows. fetchCorpus \<lparr>cvNum = 7, cvName = ''demo'', cvItems = take 1 demo_items, cvQuestions = []\<rparr> [] (Inr [EmMsg demo_em]) =
     Inr (rows, 1) \<and> map rowID rows = [''t1'']"
proof -
  let ?c = "\<lparr>cvNum = 7, cvName = ''demo'', cvItems = take 1 demo_items, cvQuestions = []\<rparr>"
  have r: "fst (roundItemsOf ?c) = []" by code_simp
  have l: "cvItems ?c = [hd demo_items]" by (simp add: demo_items_def)
  have v: "envelope_valid (envelopeOf 7 (hd demo_items))" by code_simp
  have "fetchCorpus ?c (fst (roundItemsOf ?c)) (Inr (map EmMsg [demo_em])) =
      Inr (map2 (row_of_em ?c) [hd demo_items] [demo_em], length [demo_em])"
    by (rule fetch_maps_back [OF refl, of _ "''b''" "''d''"]) (use r l v in \<open>simp_all add: demo_em_def\<close>)
  then show ?thesis using r by (simp add: row_of_em_def demo_items_def)
qed

section \<open>Granularity\<close>

text \<open>No granularity makes a turn unreachable: a turn whose row was fetched stays in the index, or a round
  that stays in the index expands to it, when all rounds were fetched.\<close>

theorem granularity_keeps_turns:
  assumes "g = ''turn'' \<or> g = ''round'' \<or> g = ''all''" and "distinct (map fst expand)"
    and "\<forall>k\<in>fst ` set expand. k \<in> rowID ` set rows" and "r \<in> set rows" and "map_of expand (rowID r) = None"
  shows "\<exists>r'\<in>set (filterGranularity rows expand g).
    rowID r' = rowID r \<or> (\<exists>members. map_of expand (rowID r') = Some members \<and> rowID r \<in> set members)"
proof (cases "g = ''round'' \<and> rowID r \<in> set (concat (map snd expand))")
  case True
  then obtain k members where e: "(k, members) \<in> set expand" "rowID r \<in> set members" by auto
  then obtain r' where r': "r' \<in> set rows" "rowID r' = k" using assms(3) by force
  moreover have "map_of expand k = Some members" using e(1) assms(2) by simp
  ultimately have "r' \<in> set (filterGranularity rows expand g)" using True by (simp add: filterGranularity_def Let_def)
  then show ?thesis using \<open>map_of expand k = Some members\<close> r'(2) e(2) by blast
next
  case False
  then have "r \<in> set (filterGranularity rows expand g)"
    using assms(1,4,5) by (auto simp: filterGranularity_def Let_def)
  then show ?thesis by blast
qed

definition id_row :: "string \<Rightarrow> Row" where
  "id_row i = \<lparr>rowID = i, rowConversationID = [], rowSessionID = [], rowTurnID = i, rowText = [], rowLexemes = [],
     rowTimestamp = 0, rowEmbeddingBytes = None\<rparr>"

theorem granularity_keeps_turns_witness:
  "map rowID (filterGranularity [id_row ''a'', id_row ''b'', id_row ''a+b'', id_row ''c''] [(''a+b'', [''a'', ''b''])] ''round'') =
     [''a+b'', ''c''] \<and>
   (\<exists>r'\<in>set (filterGranularity [id_row ''a'', id_row ''b'', id_row ''a+b'', id_row ''c''] [(''a+b'', [''a'', ''b''])] ''round'').
      rowID r' = rowID (id_row ''b'') \<or>
      (\<exists>members. map_of [(''a+b'', [''a'', ''b''])] (rowID r') = Some members \<and> rowID (id_row ''b'') \<in> set members))"
proof
  show "\<exists>r'\<in>set (filterGranularity [id_row ''a'', id_row ''b'', id_row ''a+b'', id_row ''c''] [(''a+b'', [''a'', ''b''])] ''round'').
      rowID r' = rowID (id_row ''b'') \<or>
      (\<exists>members. map_of [(''a+b'', [''a'', ''b''])] (rowID r') = Some members \<and> rowID (id_row ''b'') \<in> set members)"
    by (rule granularity_keeps_turns) (simp_all add: id_row_def)
qed (simp add: filterGranularity_def id_row_def)

section \<open>The skip budget\<close>

lemma rnd64_dyadic:
  assumes "0 < m" and "m < 2 ^ 53"
  shows "rnd64 (of_int m / 128) = of_int m / 128" and "ilog2 (of_int m / 128) < 46"
proof -
  let ?r = "of_int m / 128 :: rat"
  have "(of_int m :: rat) < of_int (2 ^ 53)" using assms(2) by (simp only: of_int_less_iff)
  then have lt: "?r < 2 powi 46" by (simp add: powi2_int)
  have "(2 :: rat) powi ilog2 ?r < 2 powi 46" using ilog2_bounds(1) [of ?r] lt assms(1) by simp
  then show l: "ilog2 ?r < 46" by (simp only: powi2_less_iff)
  have "?r = of_int m * 2 powi (- 7)" by (simp add: powi2_neg)
  then have "round_pos 53 (- 1074) ?r = ?r"
    by (rule binary64.round_pos_exact) (use l in \<open>simp add: quantum_def\<close>)
  then show "rnd64 ?r = ?r" using assms(1) by (simp add: rnd64_def round_to_def)
qed

lemma one_percent: "f64_const (1 / 100) = Num (5764607523034235 / 576460752303423488)"
  by code_simp

lemma f64_of_pos: "0 < n \<Longrightarrow> n < 2 ^ 53 \<Longrightarrow> f64_of_int (int n) = Num (of_nat n)"
  using f64_of_nat [of n] by simp

lemma f64_le_lt_trans: "f64_le a b \<Longrightarrow> f64_lt b c \<Longrightarrow> f64_lt a c"
  by (auto simp: f64_le_def f64_lt_def)

lemma budget_exact:
  assumes "0 < asked" and "asked < 2 ^ 40" and "skipped \<le> asked"
  shows "over_budget skipped asked \<longleftrightarrow> asked < 100 * skipped"
proof -
  let ?c = "5764607523034235 / 576460752303423488 :: rat" and ?a = "of_nat asked :: rat" and ?s = "of_nat skipped :: rat"
  have "f64_of_int (int asked) = Num ?a" using assms by (intro f64_of_pos) auto
  then have prod: "f64_mul (f64_const (1 / 100)) (f64_of_int (int asked)) = mk64 False (?c * ?a)"
    by (simp add: one_percent f64_mul_def is_neg_def is_inf_def Let_def)
  have "?a < of_nat (2 ^ 40)" using assms(2) by (simp only: of_nat_less_iff)
  then have a: "?a < 1099511627776" "0 < ?a" using assms(1) by simp_all
  show ?thesis
  proof (cases "asked < 100 * skipped")
    case False
    then have "of_nat (100 * skipped) \<le> ?a" by (simp only: of_nat_le_iff not_less)
    then have "of_int (int skipped) * 100 \<le> ?a" by simp
    then have "of_int (int skipped) \<le> ?c * ?a" using a by linarith
    then have "f64_le (f64_of_int (int skipped)) (mk64 False (?c * ?a))" unfolding f64_of_int_def by (rule mk64_mono)
    then have "\<not> f64_lt (mk64 False (?c * ?a)) (f64_of_int (int skipped))" by (auto simp: f64_le_def f64_lt_def)
    then show ?thesis using False prod by (simp add: over_budget_def)
  next
    case True
    have s: "f64_of_int (int skipped) = Num ?s" using True assms by (intro f64_of_pos) auto
    let ?m = "128 * int skipped - 1"
    have m: "0 < ?m" "?m < 2 ^ 53" using True assms by auto
    have "of_nat (Suc asked) \<le> (of_nat (100 * skipped) :: rat)" using True by (simp only: of_nat_le_iff Suc_le_eq)
    then have "?a + 1 \<le> 100 * ?s" by simp
    moreover have "of_int ?m / 128 = ?s - 1 / 128" by simp
    ultimately have "?c * ?a \<le> of_int ?m / 128" using a by linarith
    then have le: "f64_le (mk64 False (?c * ?a)) (mk64 False (of_int ?m / 128))" by (rule mk64_mono)
    have eq: "mk64 False (of_int ?m / 128) = Num (of_int ?m / 128)"
    proof (rule mk64_exact)
      show "rnd64 (of_int ?m / 128) = of_int ?m / 128" by (rule rnd64_dyadic [OF m])
      have p: "0 < (of_int ?m / 128 :: rat)" using m(1) by (simp only: of_int_0_less_iff zero_less_divide_iff) simp
      then show "(of_int ?m / 128 :: rat) \<noteq> 0" by (rule less_imp_neq [symmetric])
      show "ilog2 \<bar>of_int ?m / 128\<bar> < 1024" using rnd64_dyadic(2) [OF m] abs_of_pos [OF p] by simp
    qed
    have "f64_lt (Num (of_int ?m / 128)) (Num ?s)" by (simp add: f64_lt_def)
    from f64_le_lt_trans [OF le [unfolded eq] this] have "f64_lt (mk64 False (?c * ?a)) (Num ?s)" .
    then show ?thesis using True assms(1) prod s by (simp add: over_budget_def)
  qed
qed

text \<open>The skip budget is exact although it is computed in floating point with a rounded 0.01: a run is over
  budget precisely when more than one question in a hundred was skipped.\<close>

theorem skip_budget_exact:
  assumes "0 < asked" and "asked < 2 ^ 40" and "skipped \<le> asked"
  shows "over_budget skipped asked \<longleftrightarrow> asked < 100 * skipped"
  by (rule budget_exact [OF assms])

theorem skip_budget_exact_witness: "over_budget 8 700 \<and> \<not> over_budget 7 700"
  using skip_budget_exact [of 700 8] skip_budget_exact [of 700 7] by simp

section \<open>The evaluation accounts for every question\<close>

lemma add_once_distinct: "distinct out \<Longrightarrow> distinct (add_once out i)"
  by (simp add: add_once_def)

lemma foldl_add_once_distinct: "distinct out \<Longrightarrow> distinct (foldl add_once out is)"
  by (induction "is" arbitrary: out) (simp_all add: add_once_distinct)

lemma expand_loop_distinct: "distinct out \<Longrightarrow> distinct (expand_loop ex out ss)"
  by (induction ex out ss rule: expand_loop.induct) (simp_all add: add_once_distinct foldl_add_once_distinct split: option.splits)

definition tally_ok :: "'s tally \<Rightarrow> bool" where
  "tally_ok ty \<longleftrightarrow> length (tyResults ty) + tySkipped ty = tyTotal ty \<and>
     list_all (\<lambda>r. distinct (qrRetrieved r)) (tyResults ty)"

lemma Search_returns:
  assumes "NewCorpus rows = Inr corpus" and "NewRetriever corpus emb opts = Inr r"
  shows "\<exists>res s'. Search te de mlog r q t s = Some (res, s')"
  by (cases rule: Search_cases [OF assms, of q s te de mlog t]) auto

definition counts :: "'s tally \<Rightarrow> nat \<Rightarrow> (go_error, 's tally) result option \<Rightarrow> bool" where
  "counts ty n out \<longleftrightarrow>
     (case out of
        None \<Rightarrow> False
      | Some (Inl e) \<Rightarrow> True
      | Some (Inr ty') \<Rightarrow> tyTotal ty' = tyTotal ty + n \<and> (tally_ok ty \<longrightarrow> tally_ok ty'))"

lemma counts_seq:
  assumes "counts ty m out" and "\<And>ty'. counts ty' n (f ty')"
  shows "counts ty (m + n) (case out of None \<Rightarrow> None | Some (Inl e) \<Rightarrow> Some (Inl e) | Some (Inr ty') \<Rightarrow> f ty')"
proof (cases "\<exists>ty'. out = Some (Inr ty')")
  case True
  then obtain ty' where o: "out = Some (Inr ty')" by blast
  then show ?thesis using assms(1) assms(2) [of ty'] by (auto simp: counts_def split: option.splits sum.splits)
next
  case False
  then show ?thesis using assms(1) by (auto simp: counts_def split: option.splits sum.splits)
qed

lemma eval_question_counts:
  assumes "NewCorpus rows = Inr corpus" and "NewRetriever corpus emb opts = Inr r"
  shows "counts ty 1 (eval_question ev r ex q ty)"
proof -
  define qdate where "qdate = (if quQuestionDate q \<noteq> []
      then (case ParseTimestamp (evDates ev) (quQuestionDate q) of Inr t \<Rightarrow> t | Inl _ \<Rightarrow> 0) else 0)"
  obtain res s' where s: "Search (evText ev) (evDates ev) (evLog ev) r (quQuestion q) qdate (tyState ty) = Some (res, s')"
    using Search_returns [OF assms] by blast
  show ?thesis
    unfolding eval_question_def qdate_def [symmetric] Let_def s counts_def
    by (cases res) (auto simp: tally_ok_def expandRetrieved_def expand_loop_distinct)
qed

lemma eval_questions_counts:
  assumes "NewCorpus rows = Inr corpus" and "NewRetriever corpus emb opts = Inr r"
  shows "counts ty (length qs) (eval_questions ev r ex qs ty)"
proof (induction qs arbitrary: ty)
  case (Cons q qs)
  show ?case
    using counts_seq [OF eval_question_counts [OF assms, of ty ev ex q] Cons] by simp
qed (simp add: counts_def)

lemma counts_total: "counts ty n (Some (Inr ty')) \<Longrightarrow> tyTotal ty' = tyTotal ty + n"
  by (simp add: counts_def)

lemma eval_conversation_counts: "counts ty (length (cvQuestions c)) (eval_conversation ev v mode tun c ty)"
proof (cases "fetchCorpus c (fst (roundItemsOf c)) (evFetch ev c v)")
  case (Inl e)
  then show ?thesis by (simp add: eval_conversation_def case_prod_beta counts_def)
next
  case (Inr p)
  obtain allRows n where p: "p = (allRows, n)" by force
  let ?rows = "filterGranularity allRows (snd (roundItemsOf c)) (tgGranularity tun)"
  let ?emb = "if mode \<noteq> ModeBM25 then Some (evEmbedder ev) else None"
  show ?thesis
  proof (cases "NewCorpus ?rows")
    case e: (Inl e)
    then show ?thesis using Inr p by (simp add: eval_conversation_def case_prod_beta Let_def counts_def)
  next
    case corpus: (Inr corpus)
    show ?thesis
    proof (cases "NewRetriever corpus ?emb (eval_options mode tun)")
      case e: (Inl e)
      then show ?thesis using Inr p corpus by (simp add: eval_conversation_def case_prod_beta Let_def counts_def)
    next
      case r: (Inr r)
      let ?ty = "ty\<lparr>tyFetched := tyFetched ty + n, tyMapped := tyMapped ty + length ?rows\<rparr>"
      have "eval_conversation ev v mode tun c ty = eval_questions ev r (snd (roundItemsOf c)) (cvQuestions c) ?ty"
        using Inr p corpus r by (simp add: eval_conversation_def case_prod_beta Let_def)
      moreover have same: "tyTotal ?ty = tyTotal ty" "tally_ok ?ty \<longleftrightarrow> tally_ok ty" by (simp_all add: tally_ok_def)
      have "counts ?ty k out \<longleftrightarrow> counts ty k out" for k out unfolding counts_def same ..
      ultimately show ?thesis using eval_questions_counts [OF corpus r, of ?ty "cvQuestions c" ev "snd (roundItemsOf c)"] by simp
    qed
  qed
qed

lemma eval_conversations_counts:
  "counts ty (sum_list (map (\<lambda>c. length (cvQuestions c)) cs)) (eval_conversations ev v mode tun cs ty)"
proof (induction cs arbitrary: ty)
  case (Cons c cs)
  show ?case
    using counts_seq [OF eval_conversation_counts [of ty c ev v mode tun] Cons] by simp
qed (simp add: counts_def)

lemma Evaluate_total: "suN (reOverall (Evaluate l rs ks)) + reSkipped (Evaluate l rs ks) = length rs"
proof -
  have "length (scored rs) + length (filter (\<lambda>r. qrGold r = []) rs) = length rs"
    using sum_length_filter_compl [of "\<lambda>r. qrGold r \<noteq> []" rs] by (simp add: scored_def)
  then show ?thesis
    by (simp add: Evaluate_overall Let_def summary_n foldl_accum_n newAccum_def)
      (simp add: Evaluate_def eval_loop_folds Let_def)
qed

text \<open>C14. An evaluation never panics, and one that succeeds accounts for every question of the dataset: each is
  scored, skipped for want of evidence, or skipped for a failed search; the failed searches are at most
  one in a hundred (for datasets of less than 2^40 questions), and no result lists an id twice.\<close>

theorem eval_accounts:
  assumes "n = sum_list (map (\<lambda>c. length (cvQuestions c)) convs)" and "n < 2 ^ 40"
  shows "case cmdEval ev fl (Inr convs) s of
      None \<Rightarrow> False
    | Some (Inl e) \<Rightarrow> True
    | Some (Inr (rep, ty)) \<Rightarrow>
        suN (reOverall rep) + reSkipped rep + tySkipped ty = n \<and> 100 * tySkipped ty \<le> n \<and>
        list_all (\<lambda>r. distinct (qrRetrieved r)) (tyResults ty)"
proof (cases "tune fl")
  case (Inl e)
  then show ?thesis by (simp add: cmdEval_def)
next
  case (Inr p)
  obtain mode tun where p: "p = (mode, tun)" by force
  let ?ty = "\<lparr>tyResults = [], tyFetched = 0, tyMapped = 0, tyTotal = 0, tySkipped = 0, tyState = s\<rparr>"
  let ?out = "eval_conversations ev (word_of_int (flVersion fl)) mode tun convs ?ty"
  have c: "counts ?ty n ?out" unfolding assms(1) by (rule eval_conversations_counts)
  show ?thesis
  proof (cases "\<exists>ty. ?out = Some (Inr ty)")
    case False
    then show ?thesis using c Inr p by (auto simp: cmdEval_def counts_def split: option.splits sum.splits)
  next
    case True
    then obtain ty where ty: "?out = Some (Inr ty)" by blast
    have t: "tyTotal ty = n" "tally_ok ty" using c ty by (simp_all add: counts_def tally_ok_def)
    have b: "100 * tySkipped ty \<le> n" if "\<not> over_budget (tySkipped ty) n"
    proof (cases "n = 0")
      case False
      then show ?thesis using budget_exact [of n "tySkipped ty"] that assms(2) t by (simp add: tally_ok_def)
    qed (use t in \<open>simp add: tally_ok_def\<close>)
    show ?thesis
      using ty t b Inr p Evaluate_total [of "evLog2 ev" "tyResults ty" "[5, 10]"]
      by (auto simp: cmdEval_def Let_def eval_gate_def tally_ok_def split: if_splits)
  qed
qed

definition demo_eval :: "unit eval_env" where
  "demo_eval = \<lparr>evText = demo_text, evDates = no_dates, evLog = (\<lambda>x. x), evLog2 = (\<lambda>x. x),
     evEmbedder = (\<lambda>q s. (Inl CtxError, s)), evCancelled = (\<lambda>_. False), evFetch = (\<lambda>c v. Inr [])\<rparr>"

definition demo_flags :: eval_flags where
  "demo_flags = \<lparr>flDataset = ''locomo'', flVersion = 1, flRetrieval = ''bm25'', flMaxPerSession = -1, flRrfK = 0,
     flCandidates = 0, flTopK = 0, flGranularity = []\<rparr>"

lemma demo_conversation_evaluates:
  "\<exists>ty. eval_conversation demo_eval 1 ''bm25'' (evalDefaults ''locomo'') demo_conversation
     \<lparr>tyResults = [], tyFetched = 0, tyMapped = 0, tyTotal = 0, tySkipped = 0, tyState = ()\<rparr> = Some (Inr ty) \<and> tySkipped ty = 0"
proof -
  let ?ty = "\<lparr>tyResults = [], tyFetched = 0, tyMapped = 0, tyTotal = 0, tySkipped = 0, tyState = ()\<rparr>"
  have f: "fetchCorpus demo_conversation ri (evFetch demo_eval demo_conversation 1) = Inr ([], 0)" for ri
    by (simp add: fetchCorpus_def demo_eval_def Let_def)
  obtain c where c: "NewCorpus [] = Inr c" by (simp add: NewCorpus_def Let_def)
  obtain r where r: "NewRetriever c (None :: unit embedder option) (eval_options ''bm25'' (evalDefaults ''locomo'')) = Inr r"
    by (simp add: NewRetriever_def eval_options_def ParseMode_def ModeBM25_def Let_def)
  have q: "cvQuestions demo_conversation =
      [\<lparr>quID = ''q'', quQuestion = ''hi'', quQuestionDate = [], quEvidence = [''t1''], quGroup = ''g''\<rparr>]"
    by (simp add: demo_conversation_def)
  have "\<exists>out. Search (evText demo_eval) (evDates demo_eval) (evLog demo_eval) r ''hi'' 0 () = Some (Inr out, ())"
    by (cases rule: Search_cases [OF c r, of "''hi''" "()" "evText demo_eval" "evDates demo_eval" "evLog demo_eval" 0]) auto
  then have "\<exists>ty. eval_questions demo_eval r ex (cvQuestions demo_conversation) ?ty = Some (Inr ty) \<and> tySkipped ty = 0" for ex
    by (auto simp: q eval_question_def Let_def)
  then show ?thesis
    using f c r by (simp add: eval_conversation_def case_prod_beta Let_def filterGranularity_def ModeBM25_def)
qed

theorem eval_accounts_witness:
  "\<exists>rep ty. cmdEval demo_eval demo_flags (Inr [demo_conversation]) () = Some (Inr (rep, ty)) \<and>
     suN (reOverall rep) + reSkipped rep + tySkipped ty = 1"
proof -
  have t: "tune demo_flags = Inr (''bm25'', evalDefaults ''locomo'')"
    by (simp add: tune_def demo_flags_def ParseMode_def ModeBM25_def evalDefaults_def Let_def)
  have f: "flDataset demo_flags = ''locomo''" "word_of_int (flVersion demo_flags) = (1 :: int32)" by (simp_all add: demo_flags_def)
  have g: "eval_gate ''locomo'' rep 0 (Suc 0) = Inr ()" for rep using budget_exact [of 1 0] by (simp add: eval_gate_def)
  obtain ty where ty: "eval_conversation demo_eval 1 ''bm25'' (evalDefaults ''locomo'') demo_conversation
     \<lparr>tyResults = [], tyFetched = 0, tyMapped = 0, tyTotal = 0, tySkipped = 0, tyState = ()\<rparr> = Some (Inr ty)" "tySkipped ty = 0"
    using demo_conversation_evaluates by blast
  have "tyTotal ty = 1"
    using counts_total [OF eval_conversation_counts [of "\<lparr>tyResults = [], tyFetched = 0, tyMapped = 0, tyTotal = 0, tySkipped = 0, tyState = ()\<rparr>"
        demo_conversation demo_eval 1 "''bm25''" "evalDefaults ''locomo''", unfolded ty(1)]]
    by (simp add: demo_conversation_def)
  then obtain rep where e: "cmdEval demo_eval demo_flags (Inr [demo_conversation]) () = Some (Inr (rep, ty))"
    using ty by (simp add: cmdEval_def t f g Let_def)
  have "1 = sum_list (map (\<lambda>c. length (cvQuestions c)) [demo_conversation])" "(1 :: nat) < 2 ^ 40" by (simp_all add: demo_conversation_def)
  from eval_accounts [OF this, of demo_eval demo_flags "()"] show ?thesis using e by auto
qed

section \<open>Waiting\<close>

definition enriched :: "int16 \<Rightarrow> ledger \<Rightarrow> bool" where
  "enriched v db \<longleftrightarrow> memories db \<noteq> [] \<and> list_all (\<lambda>r. has_done v db (mr_id r)) (memories db)"

definition any_dead :: "int16 \<Rightarrow> ledger \<Rightarrow> bool" where
  "any_dead v db \<longleftrightarrow> list_ex (\<lambda>r. has_permanent_failure v db (mr_id r)) (memories db)"

lemma progress_facts:
  "pTotal (progress_of v db (memories db)) > 0 \<and> pRemaining (progress_of v db (memories db)) = 0 \<longleftrightarrow> enriched v db"
  "pDead (progress_of v db (memories db)) > 0 \<longleftrightarrow> any_dead v db"
  by (auto simp: progress_of_def enriched_def any_dead_def count_by_length_filter filter_empty_conv list_all_iff list_ex_iff
      length_greater_0_conv simp del: length_greater_0_conv)

text \<open>A round in which the client gets a reply: the call is not lost, the server accepts the version as an \<^verbatim>\<open>int32\<close>, and the
  database answers.\<close>

definition replies :: "int \<Rightarrow> wait_round \<Rightarrow> bool" where
  "replies version rd \<longleftrightarrow> wrLost rd = None \<and> 0 < sint (word_of_int version :: int32) \<and>
     (ps_fates (wrPg rd) = [] \<or> hd (ps_fates (wrPg rd)) = Answered)"

text \<open>What a reply lets the command see of the ledger: all enriched, or some memory dead.\<close>

abbreviation sees_enriched :: "int \<Rightarrow> wait_round \<Rightarrow> bool" where
  "sees_enriched version rd \<equiv> enriched (word_of_int version) (ps_db (wrPg rd))"

abbreviation sees_dead :: "int \<Rightarrow> wait_round \<Rightarrow> bool" where
  "sees_dead version rd \<equiv> any_dead (word_of_int version) (ps_db (wrPg rd))"

lemma poll_of_replies:
  "replies version rd \<Longrightarrow> poll_of (word_of_int version) rd =
     Inr (progress_of (word_of_int version) (ps_db (wrPg rd)) (memories (ps_db (wrPg rd))))"
  "\<not> replies version rd \<Longrightarrow> \<exists>e. poll_of (word_of_int version) rd = Inl e"
proof -
  have v: "ucast (word_of_int version :: int32) = (word_of_int version :: int16)"
    by (simp add: unsigned_of_int word_of_int_eq_iff take_bit_take_bit)
  show "replies version rd \<Longrightarrow> poll_of (word_of_int version) rd =
     Inr (progress_of (word_of_int version) (ps_db (wrPg rd)) (memories (ps_db (wrPg rd))))"
    by (auto simp: replies_def poll_of_def MemoryService_GetProgress_def pg_statement_def GlobalProgress_def Let_def v)
  show "\<exists>e. poll_of (word_of_int version) rd = Inl e" if "\<not> replies version rd"
    using that by (cases "hd (ps_fates (wrPg rd))")
      (auto simp: replies_def poll_of_def MemoryService_GetProgress_def pg_statement_def GlobalProgress_def Let_def
        split: option.splits)
qed

lemma wait_step:
  "\<exists>e1 e2 e3 line. wait_loop version timeout fod lastLine (rd # rds) =
     (if \<not> replies version rd then Some (Inl e1)
      else if fod \<and> sees_dead version rd then Some (Inl e2)
      else if sees_enriched version rd then Some (Inr ())
      else if wrExpired rd then Some (Inl e3)
      else wait_loop version timeout fod line rds)"
proof (cases "replies version rd")
  case True
  then show ?thesis
    using poll_of_replies(1) [OF True] progress_facts [of "word_of_int version" "ps_db (wrPg rd)"] by simp blast
next
  case False
  then show ?thesis using poll_of_replies(2) [OF False] by auto
qed

lemma first_split:
  "(\<exists>pre y post. x # xs = pre @ y # post \<and> list_all P pre \<and> Q y) \<longleftrightarrow>
   Q x \<or> P x \<and> (\<exists>pre y post. xs = pre @ y # post \<and> list_all P pre \<and> Q y)" (is "?L \<longleftrightarrow> ?R")
proof
  assume ?L
  then obtain pre y post where "x # xs = pre @ y # post" "list_all P pre" "Q y" by blast
  then show ?R by (cases pre) auto
next
  assume ?R
  then show ?L
  proof
    assume "Q x"
    then show ?L by (intro exI [of _ "[]"]) auto
  next
    assume "P x \<and> (\<exists>pre y post. xs = pre @ y # post \<and> list_all P pre \<and> Q y)"
    then obtain pre y post where "P x" "xs = pre @ y # post" "list_all P pre" "Q y" by blast
    then show ?L by (intro exI [of _ "x # pre"] exI [of _ y] exI [of _ post]) auto
  qed
qed

text \<open>The rounds the command polls past: it gets a reply, which shows neither success nor a reason to fail, and the deadline does not pass.\<close>

definition polls_on :: "int \<Rightarrow> bool \<Rightarrow> wait_round \<Rightarrow> bool" where
  "polls_on version fod rd \<longleftrightarrow> replies version rd \<and> \<not> (fod \<and> sees_dead version rd) \<and> \<not> sees_enriched version rd \<and> \<not> wrExpired rd"

lemma wait_loop_exact:
  "wait_loop version timeout fod lastLine rds = Some (Inr ()) \<longleftrightarrow>
     (\<exists>pre rd post. rds = pre @ rd # post \<and> list_all (polls_on version fod) pre \<and>
        replies version rd \<and> sees_enriched version rd \<and> \<not> (fod \<and> sees_dead version rd))" (is "?S lastLine rds")
  and wait_loop_polling: "wait_loop version timeout fod lastLine rds = None \<longleftrightarrow> list_all (polls_on version fod) rds" (is "?N lastLine rds")
proof -
  define Q where "Q rd \<longleftrightarrow> replies version rd \<and> sees_enriched version rd \<and> \<not> (fod \<and> sees_dead version rd)" for rd
  define E where "E rds \<longleftrightarrow> (\<exists>pre rd post. rds = pre @ rd # post \<and> list_all (polls_on version fod) pre \<and> Q rd)" for rds
  have E: "E (x # xs) \<longleftrightarrow> Q x \<or> polls_on version fod x \<and> E xs" "\<not> E []" for x xs
    unfolding E_def first_split by simp_all
  have "(wait_loop version timeout fod lastLine rds = Some (Inr ()) \<longleftrightarrow> E rds) \<and> ?N lastLine rds"
  proof (induction rds arbitrary: lastLine)
    case (Cons rd rds)
    obtain e1 e2 e3 line where step: "wait_loop version timeout fod lastLine (rd # rds) =
       (if \<not> replies version rd then Some (Inl e1)
        else if fod \<and> sees_dead version rd then Some (Inl e2)
        else if sees_enriched version rd then Some (Inr ())
        else if wrExpired rd then Some (Inl e3)
        else wait_loop version timeout fod line rds)"
      using wait_step [of version timeout fod lastLine rd rds] by blast
    show ?case unfolding step E using Cons [of line] by (simp add: polls_on_def Q_def)
  qed (simp add: E)
  then show "?S lastLine rds" and "?N lastLine rds" unfolding E_def Q_def by blast+
qed

text \<open>C37. The outcome of waiting, for every sequence of rounds (lost calls, failing statements, refused versions and passing deadlines
  included): it succeeds exactly when, for a positive version and an established connection, some round gets a reply over a ledger that has memories, all done at
  the version, with no permanent failure when dead letters are to fail the run, and every round before it
  got a reply, showed no such failure and was within the deadline; it keeps polling exactly while every round so far got a reply that shows neither and the
  deadline has not passed; otherwise it ends with an error. So success means that nothing is left to enrich, and an
  empty server is waited for.\<close>

theorem wait_enriched_exact:
  "(cmdWaitEnriched dialed version timeout failOnDead rds = Some (Inr ()) \<longleftrightarrow>
      0 < version \<and> dialed = Inr () \<and>
      (\<exists>pre rd post. rds = pre @ rd # post \<and> list_all (polls_on version failOnDead) pre \<and>
         replies version rd \<and> sees_enriched version rd \<and> \<not> (failOnDead \<and> sees_dead version rd))) \<and>
   (cmdWaitEnriched dialed version timeout failOnDead rds = None \<longleftrightarrow>
      0 < version \<and> dialed = Inr () \<and> list_all (polls_on version failOnDead) rds)"
proof (cases "0 < version \<and> dialed = Inr ()")
  case True
  then have "cmdWaitEnriched dialed version timeout failOnDead rds = wait_loop version timeout failOnDead [] rds"
    by (simp add: cmdWaitEnriched_def)
  then show ?thesis
    using True wait_loop_exact [of version timeout failOnDead "[]" rds] wait_loop_polling [of version timeout failOnDead "[]" rds]
    by (simp only: simp_thms)
qed (auto simp: cmdWaitEnriched_def split: sum.splits)

definition done_ledger :: ledger where
  "done_ledger =
     snd (InsertEnrichmentDone 1 \<lparr>dMemoryID = 1, dVersion = 1, dAttempt = 1, dNormalizedText = ''hi'', dLexemes = [],
       dTS = None, dEmbedding = []\<rparr>
      (snd (InsertMemory 0 \<lparr>mConversationID = ''7'', mSessionID = ''s'', mTurnID = ''t1'', mS3Bucket = ''b'', mS3Key = ''k'',
         mByteSize = 2, mContentHash = []\<rparr> empty_ledger)))"

definition wait_over :: "ledger \<Rightarrow> go_error option \<Rightarrow> bool \<Rightarrow> wait_round" where
  "wait_over db lost expired = \<lparr>wrPg = \<lparr>ps_now = 0, ps_db = db, ps_fates = []\<rparr>, wrLost = lost, wrExpired = expired\<rparr>"

text \<open>An empty ledger is waited for, an enriched one ends the wait, and a lost call or the deadline before it fails the command.\<close>

theorem wait_enriched_exact_witness:
  "cmdWaitEnriched (Inr ()) 1 ''15m0s'' True [wait_over empty_ledger None False] = None \<and>
   cmdWaitEnriched (Inr ()) 1 ''15m0s'' True [wait_over empty_ledger None False, wait_over done_ledger None False] = Some (Inr ()) \<and>
   cmdWaitEnriched (Inr ()) 1 ''15m0s'' True [wait_over empty_ledger (Some CtxError) False, wait_over done_ledger None False] \<noteq> Some (Inr ()) \<and>
   cmdWaitEnriched (Inr ()) 1 ''15m0s'' True [wait_over empty_ledger None True, wait_over done_ledger None False] \<noteq> Some (Inr ())"
proof -
  have e: "enriched (word_of_int 1) done_ledger" "\<not> any_dead (word_of_int 1) done_ledger" "\<not> any_dead (word_of_int 1) empty_ledger"
    "\<not> enriched (word_of_int 1) empty_ledger" by code_simp+
  note w = wait_enriched_exact [of "Inr ()" 1 "''15m0s''" True, unfolded first_split]
  show ?thesis
    using w [of "[wait_over empty_ledger None False]"]
      w [of "[wait_over empty_ledger None False, wait_over done_ledger None False]"]
      w [of "[wait_over empty_ledger (Some CtxError) False, wait_over done_ledger None False]"]
      w [of "[wait_over empty_ledger None True, wait_over done_ledger None False]"] e
    unfolding first_split by (simp add: polls_on_def replies_def wait_over_def)
qed

end
