(* ===== verification/Startup.thy ===== *)
theory Startup
  imports Client
begin

text \<open>
  Starting the programs: the dial loops with their deadlines (\<^verbatim>\<open>cmd/server\<close>, \<^verbatim>\<open>cmd/migrate\<close>), the connection pool
  (\<^verbatim>\<open>internal/store/store.go\<close>, \<^verbatim>\<open>cmd/client/helpers.go\<close>), the migration commands (\<^verbatim>\<open>internal/store/migrate.go\<close>), the
  boot sequence of the server and the command dispatch of the client. The drivers are met through a script of
  the answers to the calls they make, each with the time it takes; any behaviour of them is some script.
\<close>

section \<open>Connections\<close>

record net_world =
  nwNow :: int
  nwCalls :: "(nat \<times> go_error option) list"
  nwOpen :: nat
  nwCancelAt :: "int option"

definition net_call :: "net_world \<Rightarrow> go_error option \<times> net_world" where
  "net_call w =
     (case nwCalls w of
        [] \<Rightarrow> (Some (PgError Unavailable), w)
      | (t, r) # cs \<Rightarrow> (r, w\<lparr>nwNow := nwNow w + int t, nwCalls := cs\<rparr>))"

definition net_sleep :: "duration \<Rightarrow> net_world \<Rightarrow> net_world" where
  "net_sleep t w = w\<lparr>nwNow := nwNow w + max 0 t\<rparr>"


definition NewPool :: "net_world \<Rightarrow> (go_error, unit) result \<times> net_world" where
  "NewPool w =
     (case net_call w of
        (Some err, w1) \<Rightarrow> (Inl err, w1)
      | (None, w1) \<Rightarrow>
          (case net_call (w1\<lparr>nwOpen := nwOpen w1 + 1\<rparr>) of
             (Some err, w2) \<Rightarrow> (Inl err, w2\<lparr>nwOpen := nwOpen w2 - 1\<rparr>)
           | (None, w2) \<Rightarrow> (Inr (), w2)))"

definition newPGPool :: "net_world \<Rightarrow> (go_error, unit) result \<times> net_world" where
  "newPGPool w =
     (case net_call w of
        (Some err, w1) \<Rightarrow> (Inl err, w1)
      | (None, w1) \<Rightarrow>
          (case net_call (w1\<lparr>nwOpen := nwOpen w1 + 1\<rparr>) of
             (Some err, w2) \<Rightarrow> (Inl err, w2\<lparr>nwOpen := nwOpen w2 - 1\<rparr>)
           | (None, w2) \<Rightarrow> (Inr (), w2)))"

definition db_Ping :: "net_world \<Rightarrow> (go_error, unit) result \<times> net_world" where
  "db_Ping w = (case net_call w of (Some err, w1) \<Rightarrow> (Inl err, w1) | (None, w1) \<Rightarrow> (Inr (), w1))"

text \<open>The three loops have one shape: dial, return a success, give up after the deadline (or when the
  context ended, where the loop looks), else pause. \<open>fuel\<close> bounds the attempts; \<^const>\<open>None\<close> is out of fuel.\<close>

fun dial_loop ::
  "nat \<Rightarrow> (net_world \<Rightarrow> (go_error, unit) result \<times> net_world) \<Rightarrow> (net_world \<Rightarrow> bool) \<Rightarrow> duration \<Rightarrow> int \<Rightarrow> net_world \<Rightarrow>
   ((go_error, unit) result \<times> net_world) option" where
  "dial_loop 0 dial ended pause deadline w = None"
| "dial_loop (Suc n) dial ended pause deadline w =
     (case dial w of
        (Inr u, w1) \<Rightarrow> Some (Inr u, w1)
      | (Inl err, w1) \<Rightarrow>
          if deadline < nwNow w1 \<or> ended w1 then Some (Inl err, w1)
          else dial_loop n dial ended pause deadline (net_sleep pause w1))"



definition waitForDB :: "nat \<Rightarrow> duration \<Rightarrow> net_world \<Rightarrow> ((go_error, unit) result \<times> net_world) option" where
  "waitForDB fuel timeout w = dial_loop fuel db_Ping (\<lambda>_. False) (second div 2) (nwNow w + timeout) w"

section \<open>Migrations\<close>

text \<open>The goose library: its package-level configuration and its commands, on a world of its own.\<close>

record 'w goose =
  gSetBaseFS :: "'w \<Rightarrow> 'w"
  gSetDialect :: "string \<Rightarrow> 'w \<Rightarrow> (go_error, unit) result \<times> 'w"
  gUp :: "'w \<Rightarrow> (go_error, unit) result \<times> 'w"
  gDown :: "'w \<Rightarrow> (go_error, unit) result \<times> 'w"
  gStatus :: "'w \<Rightarrow> (go_error, unit) result \<times> 'w"

definition RunGoose :: "'w goose \<Rightarrow> string \<Rightarrow> 'w \<Rightarrow> (go_error, unit) result \<times> 'w" where
  "RunGoose g command w =
     (case gSetDialect g ''postgres'' (gSetBaseFS g w) of
        (Inl err, w1) \<Rightarrow> (Inl err, w1)
      | (Inr _, w1) \<Rightarrow>
          if command = ''up'' then gUp g w1
          else if command = ''down'' then gDown g w1
          else if command = ''status'' then gStatus g w1
          else (Inl (Errorf ''unknown goose command %q (want up|down|status)'' [AStr command]), w1))"

definition ApplyMigrations :: "'w goose \<Rightarrow> 'w \<Rightarrow> (go_error, unit) result \<times> 'w" where
  "ApplyMigrations g w = RunGoose g ''up'' w"

datatype exit = Fatal string | UsageExit | Finished

text \<open>\<open>dsn\<close> is the environment variable, \<open>args\<close> the arguments after the program name; \<open>opened\<close> is the outcome of
  \<^verbatim>\<open>sql.Open\<close>, which only checks its arguments.\<close>

definition migrate_main ::
  "nat \<Rightarrow> 'w goose \<Rightarrow> string \<Rightarrow> string list \<Rightarrow> go_error option \<Rightarrow> net_world \<Rightarrow> 'w \<Rightarrow> (exit \<times> net_world \<times> 'w) option" where
  "migrate_main fuel g dsn args opened n w =
     (if dsn = [] then Some (Fatal ''migrate: PG_DSN environment variable is required'', n, w)
      else let command = (case args of [] \<Rightarrow> ''up'' | c # _ \<Rightarrow> c) in
        case opened of
          Some _ \<Rightarrow> Some (Fatal ''migrate: open: %v'', n, w)
        | None \<Rightarrow>
            (case waitForDB fuel (30 * second) n of
               None \<Rightarrow> None
             | Some (Inl _, n1) \<Rightarrow> Some (Fatal ''migrate: database not reachable: %v'', n1, w)
             | Some (Inr _, n1) \<Rightarrow>
                 (case RunGoose g command w of
                    (Inl _, w1) \<Rightarrow> Some (Fatal ''migrate: %s: %v'', n1, w1)
                  | (Inr _, w1) \<Rightarrow> Some (Finished, n1, w1))))"

section \<open>Booting the server\<close>

text \<open>What the server has done so far, as its log shows it. The worker carries the version its activities
  were given and the package default at that moment.\<close>

datatype boot_event =
    PGConnected | AWSConfigured | TemporalConnected | EmbedderDialed
  | WorkerStarted WorkerOptions int16 int16
  | ScheduleEnsured ScheduleOptions
  | Listening

record 'w boot_env =
  bePG :: "'w \<Rightarrow> (go_error, unit) result \<times> 'w"
  beAWS :: "'w \<Rightarrow> (go_error, unit) result \<times> 'w"
  beTemporal :: "'w \<Rightarrow> (go_error, unit) result \<times> 'w"
  beEmbedder :: "'w \<Rightarrow> (go_error, unit) result \<times> 'w"
  beWorker :: "WorkerOptions \<Rightarrow> 'w \<Rightarrow> (go_error, unit) result \<times> 'w"
  beCreate :: "ScheduleOptions \<Rightarrow> 'w \<Rightarrow> schedule_error option \<times> 'w"
  beListen :: "'w \<Rightarrow> (go_error, unit) result \<times> 'w"
  beServe :: "'w \<Rightarrow> (go_error, unit) result \<times> 'w"

definition stage ::
  "('w \<Rightarrow> (go_error, unit) result \<times> 'w) \<Rightarrow> string \<Rightarrow> boot_event list \<Rightarrow> ('w \<Rightarrow> exit \<times> boot_event list \<times> 'w) \<Rightarrow>
   'w \<Rightarrow> exit \<times> boot_event list \<times> 'w" where
  "stage call msg evs rest w =
     (case call w of
        (Inl _, w1) \<Rightarrow> (Fatal msg, [], w1)
      | (Inr _, w1) \<Rightarrow> (case rest w1 of (x, es, w2) \<Rightarrow> (x, evs @ es, w2)))"

definition ensure_stage :: "'w boot_env \<Rightarrow> int16 \<Rightarrow> ScheduleConfig \<Rightarrow> 'w \<Rightarrow> (go_error, unit) result \<times> 'w" where
  "ensure_stage e dv cfg w =
     (case EnsureSchedule dv (beCreate e) cfg w of
        (None, w1) \<Rightarrow> (Inr (), w1)
      | (Some _, w1) \<Rightarrow> (Inl (Errorf ''ensure schedule'' []), w1))"

definition server_main :: "'w boot_env \<Rightarrow> config option \<Rightarrow> 'w \<Rightarrow> exit \<times> boot_event list \<times> 'w" where
  "server_main e loaded w =
     (case loaded of
        None \<Rightarrow> (Fatal ''server: invalid ENRICHMENT_VERSION %q'', [], w)
      | Some cfg \<Rightarrow>
          let v = cVersion cfg;
              wo = NewWorker \<lparr>wcTaskQueue = [], wcMaxConcurrentActivities = 0, wcTaskQueueActivitiesPerSecond = Num 0\<rparr>;
              sc = \<lparr>scID = [], scTaskQueue = [], scInterval = 0, scVersion = v, scPaused = False\<rparr>
          in stage (bePG e) ''server: postgres: %v'' [PGConnected]
            (stage (beAWS e) ''server: aws config: %v'' [AWSConfigured]
            (stage (beTemporal e) ''server: temporal: %v'' [TemporalConnected]
            (stage (beEmbedder e) ''server: embedder dial: %v'' [EmbedderDialed]
            (stage (beWorker e wo) ''server: worker start: %v'' [WorkerStarted wo v v]
            (stage (ensure_stage e v sc) ''server: ensure schedule: %v'' [ScheduleEnsured (schedule_options v sc)]
            (stage (beListen e) ''server: listen: %v'' [Listening]
            (stage (beServe e) ''server: serve: %v'' [] (\<lambda>w. (Finished, [], w))))))))) w)"

section \<open>The client's commands\<close>

definition cmdTriggerSweep ::
  "('w \<Rightarrow> (go_error, unit) result \<times> 'w) \<Rightarrow> ('w \<Rightarrow> (go_error, bool) result \<times> 'w) \<Rightarrow> 'w \<Rightarrow> (go_error, unit) result \<times> 'w" where
  "cmdTriggerSweep dialServer rpc w =
     (case dialServer w of
        (Inl err, w1) \<Rightarrow> (Inl err, w1)
      | (Inr _, w1) \<Rightarrow> (case rpc w1 of (Inl err, w2) \<Rightarrow> (Inl err, w2) | (Inr triggered, w2) \<Rightarrow> (Inr (), w2)))"

record 'w client_cmds =
  ccIngest :: "string list \<Rightarrow> 'w \<Rightarrow> (go_error, unit) result \<times> 'w"
  ccTriggerSweep :: "string list \<Rightarrow> 'w \<Rightarrow> (go_error, unit) result \<times> 'w"
  ccWaitEnriched :: "string list \<Rightarrow> 'w \<Rightarrow> (go_error, unit) result \<times> 'w"
  ccEval :: "string list \<Rightarrow> 'w \<Rightarrow> (go_error, unit) result \<times> 'w"

definition client_main :: "'w client_cmds \<Rightarrow> string list \<Rightarrow> 'w \<Rightarrow> exit \<times> 'w" where
  "client_main c argv w =
     (case argv of
        [] \<Rightarrow> (UsageExit, w)
      | cmd # args \<Rightarrow>
          let run = (\<lambda>f. case f args w of (Inl _, w1) \<Rightarrow> (Fatal ''client %s: %v'', w1) | (Inr _, w1) \<Rightarrow> (Finished, w1))
          in if cmd = ''ingest'' then run (ccIngest c)
             else if cmd = ''trigger-sweep'' then run (ccTriggerSweep c)
             else if cmd = ''wait-enriched'' then run (ccWaitEnriched c)
             else if cmd = ''eval'' then run (ccEval c)
             else (UsageExit, w))"

section \<open>Dialling ends\<close>

text \<open>An attempt does not turn the clock back.\<close>

locale dialer =
  fixes dial :: "net_world \<Rightarrow> (go_error, unit) result \<times> net_world"
  assumes dial_time: "nwNow w \<le> nwNow (snd (dial w))"
begin

lemma dial_loop_ends:
  "0 \<le> pause \<Longrightarrow> deadline < nwNow w + int k * pause \<Longrightarrow> \<exists>r. dial_loop (Suc k) dial ended pause deadline w = Some r"
proof (induction k arbitrary: w)
  case 0
  obtain r w1 where d: "dial w = (r, w1)" by force
  then show ?case using 0 dial_time [of w] by (cases r) auto
next
  case (Suc k)
  obtain r w1 where d: "dial w = (r, w1)" by force
  have "deadline < nwNow (net_sleep pause w1) + int k * pause"
    using Suc.prems dial_time [of w] d by (simp add: net_sleep_def algebra_simps)
  from Suc.IH [OF Suc.prems(1) this] show ?case
    unfolding dial_loop.simps(2) [of "Suc k"] d by (auto simp del: dial_loop.simps split: sum.splits)
qed

lemma dial_loop_gives_up:
  "dial_loop n dial ended pause deadline w = Some (Inl err, w') \<Longrightarrow> deadline < nwNow w' \<or> ended w'"
  by (induction n arbitrary: w) (auto split: prod.splits sum.splits if_splits)

lemma dial_loop_last: "dial_loop n dial ended pause deadline w = Some (r, w') \<Longrightarrow> \<exists>w0. dial w0 = (r, w')"
  by (induction n arbitrary: w) (auto split: prod.splits sum.splits if_splits)

lemma dial_loop_outcome:
  assumes "0 \<le> pause" and "0 < n" and "deadline < nwNow w + int (n - 1) * pause"
  shows "\<exists>r w'. dial_loop n dial ended pause deadline w = Some (r, w') \<and> (\<exists>w0. dial w0 = (r, w')) \<and>
    (\<forall>err. r = Inl err \<longrightarrow> deadline < nwNow w' \<or> ended w')"
proof -
  have "Suc (n - 1) = n" using assms(2) by simp
  then obtain r w' where "dial_loop n dial ended pause deadline w = Some (r, w')"
    using dial_loop_ends [OF assms(1,3), of ended] by (metis prod.exhaust)
  then show ?thesis using dial_loop_gives_up [of n ended pause deadline w _ w'] dial_loop_last by blast
qed

end

text \<open>A dial that fails holds nothing; one that succeeds holds one connection.\<close>

locale connector = dialer +
  assumes dial_fails: "fst (dial w) = Inl err \<Longrightarrow> nwOpen (snd (dial w)) = nwOpen w"
    and dial_connects: "fst (dial w) = Inr u \<Longrightarrow> nwOpen (snd (dial w)) = nwOpen w + 1"
begin

lemma dial_loop_open:
  "dial_loop n dial ended pause deadline w = Some (r, w') \<Longrightarrow>
   nwOpen w' = (case r of Inl _ \<Rightarrow> nwOpen w | Inr _ \<Rightarrow> nwOpen w + 1)"
proof (induction n arbitrary: w)
  case (Suc n)
  obtain q w1 where d: "dial w = (q, w1)" by force
  show ?case
  proof (cases q)
    case (Inl err)
    then have "nwOpen w1 = nwOpen w" using dial_fails [of w err] d by simp
    moreover have "nwOpen (net_sleep pause w1) = nwOpen w1" by (simp add: net_sleep_def)
    ultimately show ?thesis using Suc.prems Suc.IH [of "net_sleep pause w1"] d Inl
      by (cases r) (auto split: if_splits)
  next
    case (Inr u)
    then show ?thesis using Suc.prems dial_connects [of w u] d by auto
  qed
qed simp

end

lemma net_call_time: "nwNow w \<le> nwNow (snd (net_call w))" and net_call_open: "nwOpen (snd (net_call w)) = nwOpen w"
  by (auto simp: net_call_def split: list.splits)

lemma NewPool_facts:
  "nwNow w \<le> nwNow (snd (NewPool w))"
  "nwOpen (snd (NewPool w)) = (case fst (NewPool w) of Inl _ \<Rightarrow> nwOpen w | Inr _ \<Rightarrow> nwOpen w + 1)"
proof -
  obtain r w1 where 1: "net_call w = (r, w1)" by force
  obtain q w2 where 2: "net_call (w1\<lparr>nwOpen := nwOpen w1 + 1\<rparr>) = (q, w2)" by force
  have "nwNow w \<le> nwNow w1" "nwOpen w1 = nwOpen w" "nwNow w1 \<le> nwNow w2" "nwOpen w2 = nwOpen w1 + 1"
    using net_call_time [of w] net_call_open [of w] net_call_time [of "w1\<lparr>nwOpen := nwOpen w1 + 1\<rparr>"]
      net_call_open [of "w1\<lparr>nwOpen := nwOpen w1 + 1\<rparr>"] 1 2 by simp_all
  then show "nwNow w \<le> nwNow (snd (NewPool w))"
    and "nwOpen (snd (NewPool w)) = (case fst (NewPool w) of Inl _ \<Rightarrow> nwOpen w | Inr _ \<Rightarrow> nwOpen w + 1)"
    using 1 2 by (auto simp: NewPool_def split: option.splits)
qed

interpretation pg_dial: connector NewPool
  using NewPool_facts by unfold_locales auto

interpretation client_pool: connector newPGPool
proof -
  have "newPGPool = NewPool" by (rule ext) (simp only: newPGPool_def NewPool_def)
  then show "connector newPGPool" using pg_dial.connector_axioms by simp
qed





section \<open>Booting and migrating\<close>

text \<open>The order of the boot: what the log of a run shows is a prefix of this plan.\<close>

definition boot_plan :: "int16 \<Rightarrow> boot_event list" where
  "boot_plan v =
     (let wo = \<lparr>woTaskQueue = TaskQueue, MaxConcurrentActivityExecutionSize = 64,
                TaskQueueActivitiesPerSecond = Num 600, WorkerActivitiesPerSecond = Num 0\<rparr>;
          so = \<lparr>soID = ScheduleID, soEvery = 60 * second, soOverlap = OverlapSkip, soPaused = False,
                soWorkflowID = ''enrichment-sweep-wf'', soArgs = \<lparr>siVersion = v, siBatchSize = 0, siFanOut = 0\<rparr>,
                soTaskQueue = TaskQueue\<rparr>
      in [PGConnected, AWSConfigured, TemporalConnected, EmbedderDialed, WorkerStarted wo v v, ScheduleEnsured so, Listening])"

definition boots :: "'a list \<Rightarrow> ('w \<Rightarrow> exit \<times> 'a list \<times> 'w) \<Rightarrow> bool" where
  "boots plan f \<longleftrightarrow> (\<forall>w. case f w of (x, es, w') \<Rightarrow>
     (\<exists>n. es = take n plan) \<and> (x = Finished \<longrightarrow> es = plan) \<and> x \<noteq> UsageExit)"

lemma boots_stage: "boots plan rest \<Longrightarrow> boots (evs @ plan) (stage call msg evs rest)"
proof -
  assume r: "boots plan rest"
  have t: "\<exists>n. evs @ es = take n (evs @ plan)" if "es = take n plan" for es n
    using that by (intro exI [of _ "length evs + n"]) simp
  have "case stage call msg evs rest w of (x, es, w') \<Rightarrow>
      (\<exists>n. es = take n (evs @ plan)) \<and> (x = Finished \<longrightarrow> es = evs @ plan) \<and> x \<noteq> UsageExit" for w
  proof -
    obtain q w1 where c: "call w = (q, w1)" by force
    obtain x es w2 where k: "rest w1 = (x, es, w2)" by (cases "rest w1") auto
    have "\<exists>n. es = take n plan" "x = Finished \<longrightarrow> es = plan" "x \<noteq> UsageExit"
      using spec [OF r [unfolded boots_def], of w1] k by simp_all
    then show ?thesis using c k t by (cases q) (auto simp: stage_def intro: exI [of _ 0])
  qed
  then show ?thesis unfolding boots_def by blast
qed

text \<open>The server's boot follows the plan: it starts the worker before it ensures the schedule, and listens only after
  both; the worker's activities, the package default and the scheduled sweeps all have the configured
  version, so every sweep the schedule starts works at it.\<close>

theorem boot_follows_plan:
  "case server_main e (Some cfg) w of (x, es, w') \<Rightarrow>
     (\<exists>n. es = take n (boot_plan (cVersion cfg))) \<and> (x = Finished \<longrightarrow> es = boot_plan (cVersion cfg)) \<and> x \<noteq> UsageExit"
proof -
  let ?v = "cVersion cfg"
  let ?wo = "NewWorker \<lparr>wcTaskQueue = [], wcMaxConcurrentActivities = 0, wcTaskQueueActivitiesPerSecond = Num 0\<rparr>"
  let ?sc = "\<lparr>scID = [], scTaskQueue = [], scInterval = 0, scVersion = ?v, scPaused = False\<rparr>"
  have "f64_le (Num 0) (Num 0)" by code_simp
  then have plan: "boot_plan ?v = [PGConnected] @ [AWSConfigured] @ [TemporalConnected] @ [EmbedderDialed] @
      [WorkerStarted ?wo ?v ?v] @ [ScheduleEnsured (schedule_options ?v ?sc)] @ [Listening] @ [] @ []"
    by (simp add: boot_plan_def NewWorker_def schedule_options_def Let_def)
  have "boots [] (\<lambda>w. (Finished, [], w))" by (simp add: boots_def)
  then have "boots (boot_plan ?v) (\<lambda>w. server_main e (Some cfg) w)"
    unfolding plan server_main_def option.case Let_def by (intro boots_stage)
  from spec [OF this [unfolded boots_def], of w] show ?thesis .
qed

text \<open>A migration command touches the schema only when the data source is named, the database answered a ping
  within the time and the command is one of the three.\<close>

theorem migrate_guarded:
  assumes "\<And>w. schema (gSetBaseFS g w) = schema w" and "\<And>d w. schema (snd (gSetDialect g d w)) = schema w"
    and "migrate_main fuel g dsn args opened n w = Some (x, n', w')" and "schema w' \<noteq> schema w"
  shows "dsn \<noteq> [] \<and> opened = None \<and> (\<exists>u. waitForDB fuel (30 * second) n = Some (Inr u, n')) \<and>
    (args = [] \<or> hd args \<in> {''up'', ''down'', ''status''})"
proof -
  have cfg: "schema (snd (gSetDialect g d (gSetBaseFS g w))) = schema w" for d using assms(1,2) by simp
  show ?thesis
    using assms(3,4) cfg [of "''postgres''"]
    by (auto simp: migrate_main_def RunGoose_def Let_def
        split: if_splits option.splits prod.splits sum.splits list.splits)
qed

end
