(* ===== verification/Report.thy ===== *)
theory Report
  imports Client
begin

text \<open>
  What the client's \<^verbatim>\<open>eval\<close> command prints (\<^verbatim>\<open>printReport\<close>, \<^verbatim>\<open>reportCacheRows\<close> of \<^verbatim>\<open>cmd/client/main.go\<close>), line by line:
  the headline numbers, one line per group in the order of \<^verbatim>\<open>sort.Strings\<close>, and the row counts of the
  embedding cache. The order in which Go iterates over the map of groups is an argument.
\<close>

section \<open>The verbs of \<^verbatim>\<open>fmt\<close>\<close>

text \<open>\<^verbatim>\<open>%.nf\<close>: the decimal rendering with \<open>p\<close> fraction digits, of the exact value rounded to nearest, ties to even.\<close>

definition pad_zeros :: "nat \<Rightarrow> string \<Rightarrow> string" where
  "pad_zeros p s = replicate (p - length s) (CHR ''0'') @ s"

definition fixed_digits :: "nat \<Rightarrow> nat \<Rightarrow> string" where
  "fixed_digits p n = dec (n div 10 ^ p) @ ''.'' @ pad_zeros p (dec (n mod 10 ^ p))"

definition fmt_fixed :: "nat \<Rightarrow> f64 \<Rightarrow> string" where
  "fmt_fixed p x = (case x of
       NaN \<Rightarrow> ''NaN''
     | PInf \<Rightarrow> ''+Inf''
     | NInf \<Rightarrow> ''-Inf''
     | NegZero \<Rightarrow> ''-'' @ fixed_digits p 0
     | Num r \<Rightarrow> (if r < 0 then ''-'' else []) @ fixed_digits p (nat (rne (\<bar>r\<bar> * 10 ^ p))))"

text \<open>\<^verbatim>\<open>%-ws\<close> pads on the right, counting runes.\<close>

definition pad_right :: "nat \<Rightarrow> string \<Rightarrow> string" where
  "pad_right w s = s @ replicate (w - length (runes s)) (CHR '' '')"

definition at_or_zero :: "(int \<Rightarrow> f64 option) \<Rightarrow> int \<Rightarrow> f64" where
  "at_or_zero m k = (case m k of None \<Rightarrow> Num 0 | Some x \<Rightarrow> x)"

section \<open>The report\<close>

definition rule_line :: string where
  "rule_line = replicate 50 (CHR ''='')"

definition overall_line :: "Summary \<Rightarrow> string" where
  "overall_line s =
     ''overall   Recall@5='' @ fmt_fixed 4 (at_or_zero (suRecall s) 5) @
     ''  Recall@10='' @ fmt_fixed 4 (at_or_zero (suRecall s) 10) @
     ''  NDCG@5='' @ fmt_fixed 4 (at_or_zero (suNDCG s) 5) @
     ''  NDCG@10='' @ fmt_fixed 4 (at_or_zero (suNDCG s) 10) @
     ''  MRR='' @ fmt_fixed 4 (suMRR s)"

definition group_line :: "string \<Rightarrow> Summary \<Rightarrow> string" where
  "group_line g s =
     pad_right 24 g @ '' n='' @ pad_right 4 (dec (suN s)) @
     '' Recall@5='' @ fmt_fixed 4 (at_or_zero (suRecall s) 5) @
     ''  NDCG@5='' @ fmt_fixed 4 (at_or_zero (suNDCG s) 5) @
     ''  MRR='' @ fmt_fixed 4 (suMRR s)"

text \<open>\<open>order\<close> lists the keys of the map of groups in the order Go visits them.\<close>

definition printReport ::
  "string list \<Rightarrow> string \<Rightarrow> string \<Rightarrow> Report \<Rightarrow> nat \<Rightarrow> nat \<Rightarrow> nat \<Rightarrow> nat \<Rightarrow> string list" where
  "printReport order dataset mode rep conversations fetched mapped embedSkipped =
     (let groups = sort order in
      [rule_line,
       ''retrieval eval  dataset='' @ dataset @ ''  mode='' @ mode,
       ''conversations='' @ dec conversations @ '' rows fetched='' @ dec fetched @ '' mapped='' @ dec mapped,
       ''queries scored='' @ dec (suN (reOverall rep)) @ '' skipped(no evidence)='' @ dec (reSkipped rep) @
         '' skipped(embed failures)='' @ dec embedSkipped,
       overall_line (reOverall rep)] @
      map (\<lambda>g. group_line g (case reByGroup rep g of Some s \<Rightarrow> s | None \<Rightarrow> \<lparr>suN = 0, suRecall = Map.empty, suNDCG = Map.empty, suMRR = Num 0\<rparr>)) groups @
      [rule_line])"

text \<open>\<^verbatim>\<open>SELECT task_prefix, count(*) FROM embedding_cache GROUP BY task_prefix ORDER BY task_prefix\<close>, in byte order,
  in which every collation has the two prefixes that the program writes.\<close>

definition cache_counts :: "cache_row list \<Rightarrow> (string \<times> nat) list" where
  "cache_counts rows =
     map (\<lambda>p. (p, count_by (\<lambda>r. cr_task_prefix r = p) rows)) (sort (remdups (map cr_task_prefix rows)))"

text \<open>What \<^verbatim>\<open>reportCacheRows\<close> prints: nothing without a DSN, a pool or an answer; a scan that fails ends the listing,
  \<open>scan\<close> giving the number of rows read until then.\<close>

definition reportCacheRows :: "string \<Rightarrow> bool \<Rightarrow> nat option \<Rightarrow> cache_row list \<Rightarrow> (string \<times> nat) list" where
  "reportCacheRows dsn pool_ok scan rows =
     (if dsn = [] then []
      else if \<not> pool_ok then []
      else case scan of None \<Rightarrow> [] | Some n \<Rightarrow> take n (cache_counts rows))"

section \<open>The order of the map does not show\<close>

definition group_lines :: "Report \<Rightarrow> string list" where
  "group_lines rep = map (\<lambda>g. group_line g (the (reByGroup rep g))) (sorted_list_of_set (dom (reByGroup rep)))"

lemma sort_enumeration:
  fixes xs :: "'a :: linorder list"
  assumes "distinct xs" and "set xs = A"
  shows "sort xs = sorted_list_of_set A"
  using assms sorted_list_of_set_sort_remdups [of xs] by (simp add: distinct_remdups_id)

theorem printReport_deterministic:
  assumes "distinct order" and "set order = dom (reByGroup rep)"
  shows "printReport order dataset mode rep conversations fetched mapped embedSkipped =
    printReport (sorted_list_of_set (dom (reByGroup rep))) dataset mode rep conversations fetched mapped embedSkipped \<and>
    take (card (dom (reByGroup rep))) (drop 5 (printReport order dataset mode rep conversations fetched mapped embedSkipped)) = group_lines rep"
proof
  let ?k = "sorted_list_of_set (dom (reByGroup rep))"
  have fin: "finite (dom (reByGroup rep))" using assms(2) by (metis finite_set)
  have s: "sort order = ?k" by (rule sort_enumeration [OF assms])
  have "sort ?k = ?k" by (rule sorted_sort_id) (rule sorted_sorted_list_of_set)
  then show "printReport order dataset mode rep conversations fetched mapped embedSkipped =
      printReport ?k dataset mode rep conversations fetched mapped embedSkipped"
    by (simp add: printReport_def s)
  have g: "group_line g (case reByGroup rep g of Some s \<Rightarrow> s | None \<Rightarrow> z) = group_line g (the (reByGroup rep g))"
    if "g \<in> set ?k" for g z
    using that fin by auto
  have "length ?k = card (dom (reByGroup rep))" by (rule length_sorted_list_of_set)
  then show "take (card (dom (reByGroup rep))) (drop 5 (printReport order dataset mode rep conversations fetched mapped embedSkipped)) =
      group_lines rep"
    using g by (simp add: printReport_def s Let_def group_lines_def cong: map_cong)
qed

text \<open>The counts of the cache report add up to the rows of the table.\<close>

lemma count_by_partition:
  "distinct ks \<Longrightarrow> f ` set xs \<subseteq> set ks \<Longrightarrow> (\<Sum>k\<leftarrow>ks. count_by (\<lambda>x. f x = k) xs) = length xs"
proof (induction xs)
  case (Cons x xs)
  have "(\<Sum>k\<leftarrow>ks. if f x = k then 1 else 0) = (1 :: nat)"
    using Cons.prems by (simp add: sum_list_distinct_conv_sum_set)
  moreover have "(\<Sum>k\<leftarrow>ks. count_by (\<lambda>x. f x = k) (x # xs)) =
      (\<Sum>k\<leftarrow>ks. if f x = k then 1 else 0) + (\<Sum>k\<leftarrow>ks. count_by (\<lambda>x. f x = k) xs)"
    by (induction ks) auto
  ultimately show ?case using Cons by simp
qed (simp add: sum_list_0)

lemma cache_counts_total: "(\<Sum>(p, n)\<leftarrow>cache_counts rows. n) = length rows"
proof -
  let ?ps = "sort (remdups (map cr_task_prefix rows))"
  have "(\<Sum>(p, n)\<leftarrow>cache_counts rows. n) = (\<Sum>p\<leftarrow>?ps. count_by (\<lambda>r. cr_task_prefix r = p) rows)"
    by (simp add: cache_counts_def comp_def)
  also have "\<dots> = length rows" by (rule count_by_partition) auto
  finally show ?thesis .
qed

end
