(* ===== verification/Spec2Isabelle.thy ===== *)
theory Spec2Isabelle
  imports Wiring Startup Report
begin

text \<open>
  Verification of the agent memory benchmark, a Go program of a memory server, an enrichment worker, a
  benchmark client and two embedding services.

  \<^bold>\<open>The program.\<close> The client (\<^verbatim>\<open>cmd/client\<close>) loads a dataset (\<^verbatim>\<open>internal/eval\<close>), streams its turns and rounds to the
  server (\<^verbatim>\<open>cmd/server\<close>), which writes each message as a content-addressed blob (\<^verbatim>\<open>internal/blob\<close>) to an object store and then
  a row to an append-only Postgres ledger (\<^verbatim>\<open>internal/store\<close>). A scheduled Temporal workflow (\<^verbatim>\<open>internal/enrich\<close>) counts
  the backlog of the enrichment version, claims pages of pending memories and processes them in batches: the text is read back from
  the blob and normalised (\<^verbatim>\<open>internal/pipeline\<close>), embedded (\<^verbatim>\<open>internal/embed\<close>, over gRPC to \<^verbatim>\<open>tools/nomicbridge\<close> or
  \<^verbatim>\<open>tools/mockembedder\<close>), and a done or failed event is appended. The client waits until all is done, fetches the enriched
  rows of a conversation, maps them back to its items by the hash of the blob, builds an in-memory corpus
  (\<^verbatim>\<open>internal/retrieve\<close>: BM25, a dense scan, rank fusion, a temporal boost, diversification), runs the questions and reports
  retrieval metrics.

  \<^bold>\<open>The theories\<close>, bottom up. Definitions keep the names of the Go functions.
  \<^item> \<open>Prelude\<close>: byte strings, sized integers, results, counting, paging.
  \<^item> \<open>GoFloat\<close>, \<open>Float32\<close>: binary64 and binary32 arithmetic as exact rational results rounded to nearest even, over a locale
    for a floating-point format that both interpret. \<open>Sha256\<close>: the digest. \<open>Utf8\<close>: decoding runes, white space, valid text.
  \<^item> \<open>Store\<close> (\<^verbatim>\<open>memories.go\<close>, \<^verbatim>\<open>enrichment.go\<close>, \<^verbatim>\<open>migrations/*.sql\<close>): the two tables as lists of rows with their sequences; every
    statement of the package as a function on the ledger. The writers form a step relation; the ledger invariant, append-only growth,
    a refinement to a write-once register per memory and version, the partition of memories into done, dead, pending and backing off,
    and the due time of retries are proved over it.
  \<^item> \<open>Vector\<close>, \<open>Embed\<close> (\<^verbatim>\<open>internal/embed\<close>, the retry wrappers of \<^verbatim>\<open>cmd/server\<close> and \<^verbatim>\<open>cmd/client\<close>): error classes, the packed layout, normalisation, the
    prefixing client with the persistent cache, the gRPC transport. The locale \<open>vec_source\<close> is what callers rely on; the transports and the
    client interpret it. \<open>Bridge\<close> (\<^verbatim>\<open>tools/nomicbridge\<close>): the batching proxy as interleaved steps of callers and the collector.
    \<open>Mock\<close> (\<^verbatim>\<open>tools/mockembedder\<close>): the deterministic service with fault injection and the settings of the injection, which \<open>GoParse\<close>
    (\<^verbatim>\<open>strconv.ParseFloat\<close>, \<^verbatim>\<open>time.ParseDuration\<close>) reads. \<open>Wiring\<close>: the retry and keepalive settings of the connection, the settings and the
    statistics of the bridge.
  \<^item> \<open>Batch\<close> (\<^verbatim>\<open>activities.go\<close>): the store adapter, over connections whose statements may be refused or whose replies may be lost; the activities; the
    goroutines of a batch as an action system, with the progress watermark and the heartbeats. The locale \<open>ledger_store\<close> is what the
    activities need of a store; the Postgres adapter interprets it. The safety of resuming from a heartbeat holds in every interleaving, and every interleaving can be
    completed and is bounded.
  \<^item> \<open>Sweep\<close> (\<^verbatim>\<open>workflow.go\<close>, \<^verbatim>\<open>schedule.go\<close>, \<^verbatim>\<open>worker.go\<close>): the workflow over a record of SDK calls, and an execution of them over the Postgres
    store in which a scheduler picks the next goroutine of a batch, an oracle its answers and the time of every attempt, and in which all three activities are retried under the policy; every complete run of the goroutines is the
    choice of some scheduler (\<open>every_run_scheduled\<close>). The locales \<open>workflow_order\<close> and \<open>workflow_clock\<close> carry what every call keeps to whole runs: the ledger grows and stays well-formed,
    and the clock bounds the run. \<open>Drain\<close>: liveness of batches, waves and sweeps once the embedder answers the texts of the memories, also over a ledger with transient failures of an
    outage before.
  \<^item> \<open>Pipeline\<close>, \<open>Dates\<close> (\<^verbatim>\<open>internal/pipeline\<close>): normalisation, tokens, rounds of turns; the calendar and the timestamp layouts.
  \<^item> \<open>Ranking\<close>, \<open>Corpus\<close>, \<open>Retriever\<close> (\<^verbatim>\<open>internal/retrieve\<close>), \<open>Metrics\<close> (\<^verbatim>\<open>metrics.go\<close>): the retrieval stack in floating-point arithmetic; locales for a
    slice order and for a list of candidates.
  \<^item> \<open>Json\<close>, \<open>Blob\<close>, \<open>Loaders\<close>, \<open>Dataset\<close>: the decoder and encoder of \<^verbatim>\<open>encoding/json\<close> as used, blobs and their round trip, the three dataset
    formats, the client's items and ids.
  \<^item> \<open>Server\<close> (\<^verbatim>\<open>cmd/server\<close>): configuration, the upload stream, the text source of the worker, the fetch and progress calls. \<open>Client\<close> (\<^verbatim>\<open>cmd/client\<close>):
    ingest, wait, evaluation and its gates. \<open>Report\<close>: the lines the evaluation prints. \<open>Startup\<close>: connection pool, dial loops, migrations, boot order, command dispatch, with locales for
    a dialler and a connector; the SDK's dial is an argument.
  \<^item> This theory: the properties that span the components: a sweep accounts for every memory; what is uploaded is what is
    fetched; the corpus the evaluation searches is what the dataset holds.

  \<^bold>\<open>Bounds and fuel.\<close> A sweep has fuel 51: its soft deadline of 50 seconds is 50 pauses away, and \<open>sweep_returns\<close> proves that 51 tests of the
  loop condition are always enough. The liveness theorems cover as many waves of 8 batches of 128 memories as fit before that deadline, given a bound on the time
  of an attempt at a batch: 49 waves, 50176 memories, when the time is negligible. The batches of a wave run one after the other in the model, which only makes the bound larger. The JSON decoder has fuel twice the length of its input plus one, enough for every value, and the nesting
  limit of 10000 of \<^verbatim>\<open>encoding/json\<close>. A dial loop has fuel 62. The wait loop of the client runs over the list of its rounds (lost calls, failing statements and passing deadlines included), \<open>None\<close> when they end first. All other
  recursion is total.

  \<^bold>\<open>Hypotheses.\<close> The object store keeps what a successful put wrote and returns what it stores (\<open>s3_ok\<close>, \<open>reads\<close>); no two of the finitely many blobs at
  hand have the same SHA-256 digest; uploaded texts are valid UTF-8; a text source returns one item per id, in order, which the server's
  source is proved to do; for liveness, the embedder answers the normalised texts of the memories at hand (it may refuse others, as the client does with prefixed
  texts; the witnesses use the modelled client); the Temporal SDK's dial does not turn the clock back; \<^verbatim>\<open>math.Log2\<close> is monotone and exact where the metrics need it. Each property with such a hypothesis is applied to a concrete world.

  \<^bold>\<open>Not modelled.\<close> The code generated by \<^verbatim>\<open>protoc\<close>; listeners and log lines; gRPC's own retries and call timeouts under the service configuration, which is modelled as data (so a property about the mock embedder is about one call of its handler, or about
  the transport's re-asks around such calls); the overlap in time of the batches
  of one wave; the check of Postgres that a text column
  has no NUL byte; fused multiply-add, which the Go compiler may use on some processors; a structured JSON value under a
  repeated key, which \<^verbatim>\<open>encoding/json\<close> decodes into the previous one and the model afresh. Third-party code (pgx, goose, the Temporal SDK, the S3 client, Unicode
  normalisation, the stemmer, the date parsers) and the pseudo-random generator of \<^verbatim>\<open>math/rand\<close> are arguments.

  \<^bold>\<open>Plan.\<close> The handlers, loops and data of every package are in place. Open: a bound on the failures an outage adds to a memory while sweeps run into it, which
  would turn the hypothesis on the ledger of the liveness theorem into one on the length of the outage.
\<close>

section \<open>Properties that span components\<close>

text \<open>What is not claimable is done, dead or waiting.\<close>

lemma unclaimable_cases:
  assumes "pending_set now v k b db = []" and "m \<in> set (memories db)"
  shows "has_done v db (mr_id m) \<or> dead_at v k db (mr_id m) \<or> backing_off now v k (pgInterval b) db (mr_id m)"
proof -
  have "has_memory db (mr_id m)" using assms(2) by (simp add: has_memory_iff)
  then have "\<not> pending_core now v k (pgInterval b) db (mr_id m)" using assms(1) set_pending [of now v k b db] by auto
  then show ?thesis using four_states [of v db "mr_id m" k now "pgInterval b"] by (auto split: if_splits)
qed

text \<open>C3. A sweep of the server's worker (the blob-backed text source, the Postgres ledger with its budget of
  200 attempts, the batches with their retries) ends, however the goroutines of its batches interleave and whatever the embedder answers
  at each call; it only adds to the ledger and keeps its
  invariant; and if it reports the backlog drained, then for every conversation the version-pinned
  fetch returns, and every memory of the conversation is either among what it returns, or dead-lettered, or waiting
  out the backoff of its latest attempt: nothing is lost between upload and fetch.\<close>

theorem server_sweep_accounts:
  assumes "ledger_ok (ps_db d)" and "siVersion inp \<noteq> 0"
  shows "\<exists>r d'. EnrichmentSweepWorkflow 51 dv
        (pg_workflow sch took dv (server_activities te de q pick GetObject version) render emb) inp d = Some (r, d') \<and>
    ledger_ok (ps_db d') \<and> appended (ps_db d) (ps_db d') \<and>
    (r = Drained \<longrightarrow> (\<forall>conv. \<exists>ems. FetchAtVersion conv (siVersion inp) (ps_db d') = Inr ems \<and>
      (\<forall>m\<in>set (memories (ps_db d')). mr_conversation_id m = conv \<longrightarrow>
         mr_id m \<in> emMemoryID ` set ems \<or> IsDead (mr_id m) (siVersion inp) 200 (ps_db d') = Inr True \<or>
         backing_off (ps_now d') (siVersion inp) 200 1000000 (ps_db d') (mr_id m))))"
proof -
  let ?a = "server_activities te de q pick GetObject version" and ?v = "siVersion inp"
  let ?e = "pg_workflow sch took dv ?a render emb"
  have store: "aStore ?a = pg_store server_store" by (simp add: server_activities_def)
  obtain r d' where run: "EnrichmentSweepWorkflow 51 dv ?e inp d = Some (r, d')"
    and drained: "r = Drained \<Longrightarrow> pending_set (ps_now d') ?v 200 1000000000 (ps_db d') = []"
    using sweep_returns [OF store, of dv sch took render emb inp d] assms(2)
    by (auto simp: act_version_def server_store_def NewPGStore_def)
  have grows: "pg_extends d d'" by (rule sweep_extends [OF store run])
  then have ok: "ledger_ok (ps_db d')" and "appended (ps_db d) (ps_db d')"
    using assms(1) by (simp_all add: pg_extends_def)
  moreover have "\<exists>ems. FetchAtVersion conv ?v (ps_db d') = Inr ems \<and>
      (\<forall>m\<in>set (memories (ps_db d')). mr_conversation_id m = conv \<longrightarrow>
         mr_id m \<in> emMemoryID ` set ems \<or> IsDead (mr_id m) ?v 200 (ps_db d') = Inr True \<or>
         backing_off (ps_now d') ?v 200 1000000 (ps_db d') (mr_id m))" if "r = Drained" for conv
  proof -
    have b: "pgInterval 1000000000 = 1000000" by (simp add: pgInterval_def)
    obtain ems where "FetchAtVersion conv ?v (ps_db d') = Inr ems" and
      "set (map emMemoryID ems) = {mid. \<exists>m\<in>set (memories (ps_db d')). mr_id m = mid \<and>
         mr_conversation_id m = conv \<and> has_done ?v (ps_db d') mid}"
      using FetchAtVersion_ok [OF ok] by blast
    then show ?thesis
      using unclaimable_cases [OF drained [OF that]] unfolding b
      by (auto simp: IsDead_def dead_letter_alt list_ex_iff image_iff)
  qed
  ultimately show ?thesis using run by blast
qed

theorem server_sweep_accounts_witness:
  "\<exists>r d'. EnrichmentSweepWorkflow 51 1
       (pg_workflow (\<lambda>_ _ _ n. n) (\<lambda>_ _ _. 1000000) 1 (server_activities plain_text no_dates Answered 0 (\<lambda>_ _. GetFailed CtxError) 1) (\<lambda>_. []) (\<lambda>_ _ _ _ _. Inr []))
       \<lparr>siVersion = 1, siBatchSize = 0, siFanOut = 0\<rparr> demo_state = Some (r, d') \<and> ledger_ok (ps_db d')"
proof -
  have "ledger_ok (ps_db demo_state)" using sample_ok by (simp add: demo_state_def)
  then show ?thesis
    using server_sweep_accounts [of demo_state "\<lparr>siVersion = 1, siBatchSize = 0, siFanOut = 0\<rparr>"] by simp blast
qed

lemma send_all_ok: "send_all (\<lambda>_. None) n ms = (Inr (), ms)"
  by (induction ms arbitrary: n) simp_all

lemma FetchAllMemories_ok:
  assumes "ps_fates d = []" and "0 < sint v" and "FetchAtVersion (FormatInt (sint conv)) (ucast v) (ps_db d) = Inr ems"
  shows "FetchAllMemories (\<lambda>_. None) conv v d = ((Inr (), map (to_msg v) ems), d)"
  using assms by (simp add: FetchAllMemories_def pg_answered send_all_ok)

text \<open>The scheduled sweep over rows that hold their envelopes, and the fetch after it.\<close>

lemma served_sweep:
  assumes rows: "rows_hold B C (ps_db pg)" and get: "reads C GetObject" and ok: "ledger_ok (ps_db pg)"
    and waited: "failures_waited server_store (scVersion cfg) (ps_now pg) (ps_db pg)"
    and fresh: "\<forall>e\<in>set (events (ps_db pg)). ev_version e = scVersion cfg \<longrightarrow> ev_status e = Failed" and answers: "ps_fates pg = []"
    and T: "batches_take took T" and fits: "W * (1000000 + 8 * T) < 50000000"
    and size: "length (memories (ps_db pg)) \<le> W * 1024" and emb: "embeds_texts te de emb B"
    and v: "0 < sint v" "ucast v = scVersion cfg" "scVersion cfg \<noteq> 0"
  shows "\<exists>env d' ems.
    EnrichmentSweepWorkflow 51 dv (pg_workflow sch took dv (server_activities te de Answered pick GetObject version) render (\<lambda>_ _ _ _. emb))
      (soArgs (schedule_options dv cfg)) pg = Some (Drained, d') \<and>
    FetchAllMemories (\<lambda>_. None) conv v d' = ((Inr (), map (to_msg v) ems), d') \<and>
    map emMemoryID ems = map mr_id (filter (\<lambda>m. mr_conversation_id m = FormatInt (sint conv)) (memories (ps_db pg))) \<and>
    (\<forall>em\<in>set ems. (\<exists>m\<in>set (memories (ps_db pg)). mr_id m = emMemoryID em \<and> mr_content_hash m = emContentHash em) \<and>
      (\<exists>vec. emb (mtText (item_of te de (emMemoryID em) (env (emMemoryID em)))) = Inr vec \<and>
        emEmbedding em = PackVector vec \<and>
        emNormalizedText em = mtText (item_of te de (emMemoryID em) (env (emMemoryID em))) \<and>
        emLexemes em = mtLexemes (item_of te de (emMemoryID em) (env (emMemoryID em))))) \<and>
    (\<forall>i. has_memory (ps_db pg) i \<longrightarrow> (\<exists>r\<in>set (memories (ps_db pg)). mr_id r = i \<and> holds B C r (env i)))"
proof -
  let ?a = "server_activities te de Answered pick GetObject version" and ?ms = "memories (ps_db pg)"
  obtain env where h: "healthy ?a server_store ?ms (\<lambda>i. item_of te de i (env i)) emb"
    and key: "\<forall>i. has_memory (ps_db pg) i \<longrightarrow> (\<exists>r\<in>set ?ms. mr_id r = i \<and> holds B C r (env i))"
    using server_healthy [OF rows get emb] by blast
  obtain d' where run: "EnrichmentSweepWorkflow 51 dv (pg_workflow sch took dv ?a render (\<lambda>_ _ _ _. emb)) (soArgs (schedule_options dv cfg)) pg =
      Some (Drained, d')" and st: "enriching server_store ?ms (\<lambda>i. item_of te de i (env i)) emb (scVersion cfg) d'"
    and all: "undone ?ms (scVersion cfg) (ps_db d') = []"
    using scheduled_sweep_drains [OF h answers ok waited fresh v(3) T fits size, where dv = dv and sch = sch and render = render] by blast
  have d': "ledger_ok (ps_db d')" "ps_fates d' = []" using st by (simp_all add: steady_def)
  obtain ems where f: "FetchAtVersion (FormatInt (sint conv)) (scVersion cfg) (ps_db d') = Inr ems"
    using FetchAtVersion_ok [OF d'(1)] by blast
  have "FetchAllMemories (\<lambda>_. None) conv v d' = ((Inr (), map (to_msg v) ems), d')"
    using f v(2) by (intro FetchAllMemories_ok [OF d'(2) v(1)]) simp
  then show ?thesis using run key enriching_fetch [OF st all f] by blast
qed

text \<open>C2. From upload to fetch: take a ledger whose rows name their blobs, upload any stream of messages into
  it (however the upload ends), run the sweep that the schedule starts, at a version at which nothing is done yet, with
  an object store that returns what it stores, a database that answers and an embedder that answers the texts of those blobs. An outage
  may have gone before: the ledger may hold failures at that version, as long as they are transient, fewer than the 200 of the budget for each
  memory, and older than the longest backoff of 64 seconds. The goroutines of a batch may interleave in any way.
  For as many memories as fit in \<open>W\<close> waves of 8 batches of 128, when \<open>W\<close> waves of such batches and the pauses between them fit in
  the soft deadline of 50 seconds, the sweep drains the backlog, and the fetch of a conversation then streams, in
  ascending order, exactly the memories of that conversation, each with the normalised text and the lexemes of its envelope and with the packed vector of that text. The envelope of a memory is the one whose
  blob its row names, by its own hash: for a memory that was there before the upload the envelope it held then, for a new one the envelope
  of a message of the stream.\<close>

theorem upload_sweep_fetch:
  assumes "s3_ok PutObject contents" and "inj_on Hash B" and "rows_hold B (contents s) (ps_db pg)" and "msgs_in B rs"
    and "ledger_ok (ps_db pg)" and "\<forall>e\<in>set (events (ps_db pg)). ev_version e = scVersion cfg \<longrightarrow> ev_status e = Failed"
    and "UploadMemories PutObject bucket closeErr rs pg s = (res, pg', s')"
    and "reads (contents s') GetObject" and "ps_fates pg' = []"
    and "batches_take took T" and "W * (1000000 + 8 * T) < 50000000" and "length (memories (ps_db pg')) \<le> W * 1024"
    and "embeds_texts te de emb B" and "0 < sint v" and "ucast v = scVersion cfg" and "scVersion cfg \<noteq> 0"
    and "failures_waited server_store (scVersion cfg) (ps_now pg') (ps_db pg')"
  shows "\<exists>env d' msgs.
    EnrichmentSweepWorkflow 51 dv (pg_workflow sch took dv (server_activities te de Answered pick GetObject version) render (\<lambda>_ _ _ _. emb))
      (soArgs (schedule_options dv cfg)) pg' = Some (Drained, d') \<and>
    FetchAllMemories (\<lambda>_. None) conv v d' = ((Inr (), msgs), d') \<and>
    map gmMemoryId msgs =
      map mr_id (filter (\<lambda>m. mr_conversation_id m = FormatInt (sint conv)) (memories (ps_db pg'))) \<and>
    (\<forall>m\<in>set msgs. \<exists>vec. emb (mtText (item_of te de (gmMemoryId m) (env (gmMemoryId m)))) = Inr vec \<and>
       gmEmbedding m = PackVector vec \<and>
       gmNormalizedText m = mtText (item_of te de (gmMemoryId m) (env (gmMemoryId m))) \<and>
       gmLexemes m = mtLexemes (item_of te de (gmMemoryId m) (env (gmMemoryId m)))) \<and>
    (\<forall>r\<in>set (memories (ps_db pg')). holds B (contents s') r (env (mr_id r)) \<and>
       (r \<in> set (memories (ps_db pg)) \<and> holds B (contents s) r (env (mr_id r)) \<or>
        (\<exists>now m. Msg now m \<in> set rs \<and> env (mr_id r) = envelope_of_msg m)))"
proof -
  have rows: "rows_hold B (contents s') (ps_db pg')" by (rule upload_rows_hold [OF assms(1-4,7)])
  have ok: "ledger_ok (ps_db pg')" and fresh: "\<forall>e\<in>set (events (ps_db pg')). ev_version e = scVersion cfg \<longrightarrow> ev_status e = Failed"
    using upload_ledger [OF assms(1,7)] assms(5,6) by simp_all
  obtain env d' ems where
    run: "EnrichmentSweepWorkflow 51 dv (pg_workflow sch took dv (server_activities te de Answered pick GetObject version) render (\<lambda>_ _ _ _. emb))
      (soArgs (schedule_options dv cfg)) pg' = Some (Drained, d')"
    and f: "FetchAllMemories (\<lambda>_. None) conv v d' = ((Inr (), map (to_msg v) ems), d')"
    and ids: "map emMemoryID ems = map mr_id (filter (\<lambda>m. mr_conversation_id m = FormatInt (sint conv)) (memories (ps_db pg')))"
    and ems: "\<forall>em\<in>set ems. \<exists>vec. emb (mtText (item_of te de (emMemoryID em) (env (emMemoryID em)))) = Inr vec \<and>
        emEmbedding em = PackVector vec \<and>
        emNormalizedText em = mtText (item_of te de (emMemoryID em) (env (emMemoryID em))) \<and>
        emLexemes em = mtLexemes (item_of te de (emMemoryID em) (env (emMemoryID em)))"
    and key: "\<forall>i. has_memory (ps_db pg') i \<longrightarrow> (\<exists>r\<in>set (memories (ps_db pg')). mr_id r = i \<and> holds B (contents s') r (env i))"
    using served_sweep [OF rows assms(8) ok assms(17) fresh assms(9-16), of dv sch pick version render conv] by blast
  have "map gmMemoryId (map (to_msg v) ems) = map emMemoryID ems" by (simp add: to_msg_def)
  moreover have "\<forall>r\<in>set (memories (ps_db pg')). holds B (contents s') r (env (mr_id r)) \<and>
       (r \<in> set (memories (ps_db pg)) \<and> holds B (contents s) r (env (mr_id r)) \<or>
        (\<exists>now m. Msg now m \<in> set rs \<and> env (mr_id r) = envelope_of_msg m))"
  proof
    fix r assume r: "r \<in> set (memories (ps_db pg'))"
    then obtain r' where "r' \<in> set (memories (ps_db pg'))" "mr_id r' = mr_id r" "holds B (contents s') r' (env (mr_id r))"
      using key by (auto simp: has_memory_iff)
    then have h: "holds B (contents s') r (env (mr_id r))" using memory_unique [OF ok, of r' r] r by simp
    then show "holds B (contents s') r (env (mr_id r)) \<and> (r \<in> set (memories (ps_db pg)) \<and> holds B (contents s) r (env (mr_id r)) \<or>
        (\<exists>now m. Msg now m \<in> set rs \<and> env (mr_id r) = envelope_of_msg m))"
      using uploaded_envelopes [OF assms(1-4,7) r h] by blast
  qed
  ultimately show ?thesis using run f ids ems
    by (intro exI [of _ env] exI [of _ d'] exI [of _ "map (to_msg v) ems"]) (simp add: to_msg_def)
qed

definition demo_schedule :: ScheduleConfig where
  "demo_schedule = \<lparr>scID = [], scTaskQueue = [], scInterval = 0, scVersion = 1, scPaused = False\<rparr>"

text \<open>One upload, a failed attempt during an outage, and the same upload again 100 seconds later.\<close>

definition outage_failure :: FailedEvent where
  "outage_failure = \<lparr>fMemoryID = 1, fVersion = 1, fAttempt = 1, fPermanent = False,
     fErrorMessage = ''simulated outage'', fCreatedAt = None\<rparr>"

definition outage :: "pg_state \<Rightarrow> pg_state" where
  "outage pg = pg\<lparr>ps_db := snd (InsertEnrichmentFailed 7 outage_failure (ps_db pg))\<rparr>"

lemma demo_outage:
  "\<exists>pg' s' pg'' s''.
     UploadMemories demo_put ''b'' None [Msg 5 demo_msg] demo_pg Map.empty = (Inr \<lparr>ackAccepted = 1, ackDeduped = 0\<rparr>, pg', s') \<and>
     UploadMemories demo_put ''b'' None [Msg 100000000 demo_msg] (outage pg') s' = (Inr \<lparr>ackAccepted = 0, ackDeduped = 1\<rparr>, pg'', s'') \<and>
     events (ps_db (outage pg')) = [failed_row 1 7 outage_failure] \<and> memories (ps_db (outage pg')) = memories (ps_db pg') \<and>
     events (ps_db pg'') = [failed_row 1 7 outage_failure] \<and>
     length (memories (ps_db pg'')) = 1 \<and> ps_fates pg'' = [] \<and> ps_now pg'' = 100000000"
  by (simp add: UploadMemories_def upload_put_def upload_insert_def demo_put_def demo_pg_def pg_statement_def Let_def
      InsertMemory_def empty_ledger_def memory_row_of_def outage_def InsertEnrichmentFailed_def has_memory_iff
      outage_failure_def key_conflict_def row_of_msg_def demo_msg_def
      envelope_of_msg_def nullif_empty_def)

lemma outage_waited:
  assumes "events db = [failed_row 1 7 outage_failure]"
  shows "failures_waited server_store 1 100000000 db"
proof -
  have "length (fail_rows 1 db i) \<le> 1" for i using assms by (simp add: fail_rows_def)
  then have "int (length (fail_rows 1 db i)) < 200" for i by (rule le_less_trans [OF of_nat_mono]) simp
  then show ?thesis
    using assms by (simp add: failures_waited_def server_store_def NewPGStore_def failed_row_def outage_failure_def pgInterval_def)
qed

text \<open>The program's embedder of documents, over a transport that answers 768 floats: it refuses prefixed texts.\<close>

definition document_embedder :: "string \<Rightarrow> (go_error, f32 list) result" where
  "document_embedder x = fst (EmbedDocument (NewClient (flaky 0) True) no_faults x ([], 0))"

lemma document_embedder_answers: "\<not> double_prefixed x \<Longrightarrow> document_embedder x = Inr (replicate Dims 0)"
  by (simp add: document_embedder_def EmbedDocument_def embed_def NewClient_def CacheGet_def CachePut_def flaky_def
      double_prefixed_def L2Normalize_zero Let_def)

lemma document_embedder_refuses: "double_prefixed x \<Longrightarrow> \<exists>e. document_embedder x = Inl e"
  by (auto simp: document_embedder_def EmbedDocument_def embed_def double_prefixed_def)

theorem upload_sweep_fetch_witness:
  "\<exists>pg s pg' s' d' msgs. events (ps_db pg) = [failed_row 1 7 outage_failure] \<and>
     UploadMemories demo_put ''b'' None [Msg 100000000 demo_msg] pg s = (Inr \<lparr>ackAccepted = 0, ackDeduped = 1\<rparr>, pg', s') \<and>
     EnrichmentSweepWorkflow 51 1 (pg_workflow (\<lambda>_ _ _ n. n) (\<lambda>_ _ _. 1000000) 1 (server_activities plain_text no_dates Answered 0
         (\<lambda>b k. case s' (b, k) of Some x \<Rightarrow> Body x | None \<Rightarrow> GetFailed CtxError) 1) (\<lambda>_. []) (\<lambda>_ _ _ _. document_embedder))
       (soArgs (schedule_options 1 demo_schedule)) pg' = Some (Drained, d') \<and>
     FetchAllMemories (\<lambda>_. None) 7 1 d' = ((Inr (), msgs), d') \<and>
     map gmMemoryId msgs =
       map mr_id (filter (\<lambda>m. mr_conversation_id m = FormatInt (sint (7 :: int64))) (memories (ps_db pg')))"
proof -
  let ?B = "{Marshal (envelope_of_msg demo_msg)}"
  obtain pg0 s0 pg' s' where
    u0: "UploadMemories demo_put ''b'' None [Msg 5 demo_msg] demo_pg Map.empty = (Inr \<lparr>ackAccepted = 1, ackDeduped = 0\<rparr>, pg0, s0)"
    and u: "UploadMemories demo_put ''b'' None [Msg 100000000 demo_msg] (outage pg0) s0 =
      (Inr \<lparr>ackAccepted = 0, ackDeduped = 1\<rparr>, pg', s')"
    and ev: "events (ps_db (outage pg0)) = [failed_row 1 7 outage_failure]" "memories (ps_db (outage pg0)) = memories (ps_db pg0)"
      "events (ps_db pg') = [failed_row 1 7 outage_failure]"
    and st: "length (memories (ps_db pg')) = 1" "ps_fates pg' = []" "ps_now pg' = 100000000"
    using demo_outage by auto
  let ?get = "\<lambda>b k. case s' (b, k) of Some x \<Rightarrow> Body x | None \<Rightarrow> GetFailed CtxError"
  have "envelope_valid (envelope_of_msg demo_msg)" by code_simp
  then have m: "msgs_in ?B [Msg t demo_msg]" for t by (simp add: msgs_in_def)
  have inj: "inj_on Hash ?B" by simp
  have "rows_hold ?B Map.empty (ps_db demo_pg)" by (simp add: rows_hold_def demo_pg_def empty_ledger_def)
  then have r: "rows_hold ?B s0 (ps_db (outage pg0))"
    using upload_rows_hold [OF demo_put_ok inj _ m u0] ev(2) by (simp add: rows_hold_def)
  have "ledger_ok (ps_db pg0)" using upload_ledger(1) [OF demo_put_ok u0] by (simp add: demo_pg_def empty_ledger_ok)
  then have ok: "ledger_ok (ps_db (outage pg0))"
    using InsertEnrichmentFailed_ok [of "ps_db pg0" 7 outage_failure] by (cases "InsertEnrichmentFailed 7 outage_failure (ps_db pg0)") (simp add: outage_def)
  have fresh: "\<forall>e\<in>set (events (ps_db (outage pg0))). ev_version e = scVersion demo_schedule \<longrightarrow> ev_status e = Failed"
    by (simp add: ev(1) failed_row_def)
  have w: "failures_waited server_store (scVersion demo_schedule) (ps_now pg') (ps_db pg')"
    using outage_waited [OF ev(3)] st(3) by (simp add: demo_schedule_def)
  have g: "reads s' ?get" by (simp add: reads_def)
  have sz: "length (memories (ps_db pg')) \<le> 40 * 1024" and v: "0 < sint (1 :: int32)" "ucast (1 :: int32) = scVersion demo_schedule"
      "scVersion demo_schedule \<noteq> 0"
    using st(1) by (simp_all add: demo_schedule_def)
  have T: "batches_take (\<lambda>_ _ _. 1000000) 1000" "40 * (1000000 + 8 * 1000) < (50000000 :: nat)" by (simp_all add: batches_take_def)
  have "\<not> double_prefixed (mtText (item_of plain_text no_dates 0 (envelope_of_msg demo_msg)))" by code_simp
  then have emb: "embeds_texts plain_text no_dates document_embedder ?B"
    using \<open>envelope_valid (envelope_of_msg demo_msg)\<close> marshal_inj document_embedder_answers by (fastforce simp: embeds_texts_def)
  show ?thesis
    using upload_sweep_fetch [where contents = "\<lambda>s. s" and GetObject = ?get and emb = document_embedder,
        OF demo_put_ok inj r m ok fresh u g st(2) T sz emb v w, of 1 "\<lambda>_ _ _ n. n" 0 1 "\<lambda>_. []" 7] u ev(1)
    by blast
qed

section \<open>From the dataset to the corpus\<close>

text \<open>The row of an ingested item, and the envelope it holds.\<close>

definition ingested :: "conversation \<Rightarrow> item \<Rightarrow> memory_row \<Rightarrow> bool" where
  "ingested c it r \<longleftrightarrow>
     mr_conversation_id r = FormatInt (sint (cvNum c)) \<and> mr_content_hash r = Hash (Marshal (envelopeOf (cvNum c) it)) \<and>
     mr_s3_key r = Key (Hash (Marshal (envelopeOf (cvNum c) it)))"

lemma row_for_ingested: "row_for bucket (Msg t (ingest_msg dataset c it)) r \<Longrightarrow> ingested c it r"
proof -
  assume "row_for bucket (Msg t (ingest_msg dataset c it)) r"
  then obtain i where r: "r = memory_row_of i t (row_of_msg bucket (ingest_msg dataset c it))"
    unfolding row_for_def recv.case by (rule that)
  have "eConversationID (envelopeOf (cvNum c) it) = FormatInt (sint (cvNum c))" by (simp add: envelopeOf_def)
  then show ?thesis
    unfolding r by (simp add: ingested_def memory_row_of_def row_of_msg_def Let_def ingest_envelope)
qed

lemma ingested_holds:
  assumes "ingested c it r" and "holds B C r e" and "inj_on Hash B" and "Marshal (envelopeOf (cvNum c) it) \<in> B"
    and "envelope_valid (envelopeOf (cvNum c) it)"
  shows "e = envelopeOf (cvNum c) it"
  using holds_key_unique [OF assms(3,2) _ assms(4,5)] assms(1) by (simp add: ingested_def)

text \<open>What the corpus must hold for an item: its ids, and the text, the lexemes and the vector of its envelope.\<close>

definition corpus_row ::
  "text_env \<Rightarrow> date_env \<Rightarrow> (string \<Rightarrow> (go_error, f32 list) result) \<Rightarrow> conversation \<Rightarrow> item \<Rightarrow> Row \<Rightarrow> bool" where
  "corpus_row te de emb c it row \<longleftrightarrow>
     rowID row = itTurnID it \<and> rowSessionID row = itSessionID it \<and>
     rowText row = mtText (item_of te de 0 (envelopeOf (cvNum c) it)) \<and>
     rowLexemes row = mtLexemes (item_of te de 0 (envelopeOf (cvNum c) it)) \<and>
     (case emb (rowText row) of
        Inl _ \<Rightarrow> False
      | Inr vec \<Rightarrow> rowEmbeddingBytes row = (if vec = [] then None else Some (PackVector vec)))"

lemma list_all2_map_ids: "list_all2 P xs ys \<Longrightarrow> map f xs' = map g ys \<Longrightarrow> list_all2 (\<lambda>x x'. \<exists>y\<in>set ys. P x y \<and> f x' = g y) xs xs'"
proof (induction xs ys arbitrary: xs' rule: list_all2_induct)
  case (Cons x xs y ys)
  then obtain x' zs where z: "xs' = x' # zs" "f x' = g y" "map f zs = map g ys" by (cases xs') auto
  have "list_all2 (\<lambda>x x'. \<exists>y\<in>set (y # ys). P x y \<and> f x' = g y) xs zs"
    using Cons.IH [OF z(3)] by (rule list_all2_mono) auto
  then show ?case using z Cons.hyps by auto
qed simp

definition fetched_as ::
  "text_env \<Rightarrow> date_env \<Rightarrow> (string \<Rightarrow> (go_error, f32 list) result) \<Rightarrow> conversation \<Rightarrow> item \<Rightarrow> EnrichedMemory \<Rightarrow> bool" where
  "fetched_as te de emb c it em \<longleftrightarrow>
     emContentHash em = Hash (Marshal (envelopeOf (cvNum c) it)) \<and>
     emNormalizedText em = mtText (item_of te de 0 (envelopeOf (cvNum c) it)) \<and>
     emLexemes em = mtLexemes (item_of te de 0 (envelopeOf (cvNum c) it)) \<and>
     (case emb (emNormalizedText em) of Inl _ \<Rightarrow> False | Inr vec \<Rightarrow> emEmbedding em = PackVector vec)"

lemma fetched_items:
  assumes ok: "ledger_ok db" and ing: "list_all2 (ingested c) loc (memories db)"
    and ids: "map emMemoryID ems = map mr_id (memories db)"
    and ems: "\<forall>em\<in>set ems. (\<exists>m\<in>set (memories db). mr_id m = emMemoryID em \<and> mr_content_hash m = emContentHash em) \<and>
      (\<exists>vec. emb (mtText (item_of te de (emMemoryID em) (env (emMemoryID em)))) = Inr vec \<and>
        emEmbedding em = PackVector vec \<and>
        emNormalizedText em = mtText (item_of te de (emMemoryID em) (env (emMemoryID em))) \<and>
        emLexemes em = mtLexemes (item_of te de (emMemoryID em) (env (emMemoryID em))))"
    and key: "\<forall>i. has_memory db i \<longrightarrow> (\<exists>r\<in>set (memories db). mr_id r = i \<and> holds B C r (env i))"
    and B: "inj_on Hash B" "\<forall>it\<in>set loc. Marshal (envelopeOf (cvNum c) it) \<in> B"
    and valid: "\<forall>it\<in>set loc. envelope_valid (envelopeOf (cvNum c) it)"
  shows "list_all2 (fetched_as te de emb c) loc ems"
proof -
  note uniq = memory_unique [OF ok]
  have one: "fetched_as te de emb c it em"
    if it: "it \<in> set loc" and em: "em \<in> set ems" and m: "m \<in> set (memories db)" "ingested c it m" "emMemoryID em = mr_id m" for it em m
  proof -
    obtain m' where "m' \<in> set (memories db)" "mr_id m' = emMemoryID em" "mr_content_hash m' = emContentHash em"
      using ems em by blast
    then have h: "emContentHash em = Hash (Marshal (envelopeOf (cvNum c) it))" using uniq [of m' m] m by (simp add: ingested_def)
    have "has_memory db (mr_id m)" using m(1) by (simp add: has_memory_iff)
    then obtain r where "r \<in> set (memories db)" "mr_id r = mr_id m" "holds B C r (env (mr_id m))" using key by blast
    then have "holds B C m (env (mr_id m))" using uniq [of r m] m(1) by simp
    then have "env (mr_id m) = envelopeOf (cvNum c) it" using ingested_holds [OF m(2) _ B(1)] B(2) valid it by blast
    then show ?thesis using ems em m(3) h item_of_texts [of te de "mr_id m" "envelopeOf (cvNum c) it" 0]
      by (auto simp: fetched_as_def)
  qed
  have "list_all2 (\<lambda>it em. \<exists>m\<in>set (memories db). ingested c it m \<and> emMemoryID em = mr_id m) loc ems"
    using list_all2_map_ids [OF ing ids] .
  then show ?thesis by (rule list.rel_mono_strong) (use one in blast)
qed

lemma fetched_corpus:
  assumes f: "list_all2 (fetched_as te de emb c) loc ems" and loc: "loc = cvItems c @ fst (roundItemsOf c)"
    and inj: "inj_on Hash ((\<lambda>it. Marshal (envelopeOf (cvNum c) it)) ` set loc)"
    and valid: "\<forall>it\<in>set loc. envelope_valid (envelopeOf (cvNum c) it)"
  shows "\<exists>rows. fetchCorpus c (fst (roundItemsOf c)) (Inr (map EmMsg (map (to_msg v) ems))) = Inr (rows, length loc) \<and>
    list_all2 (corpus_row te de emb c) loc rows"
proof -
  let ?rows = "map2 (row_of_em c) loc (map (to_msg v) ems)"
  have "list_all2 (\<lambda>it em. by_hash (cvNum c) loc (hex_encode (gmContentHash em)) = Some it) loc (map (to_msg v) ems)"
    unfolding list_all2_map2 using f
    by (rule list.rel_mono_strong) (use by_hash_finds [OF inj valid] in \<open>auto simp: fetched_as_def to_msg_def\<close>)
  then have "fetchCorpus c (fst (roundItemsOf c)) (Inr (map EmMsg (map (to_msg v) ems))) = Inr (?rows, length loc)"
    using corpus_stream_maps [of "by_hash (cvNum c) loc" loc "map (to_msg v) ems" c 0 "[]"] loc list_all2_lengthD [OF f]
    by (simp add: fetchCorpus_def Let_def)
  moreover have "corpus_row te de emb c it (row_of_em c it (to_msg v em))" if em: "fetched_as te de emb c it em" for it em
  proof -
    obtain vec where "emb (emNormalizedText em) = Inr vec" "emEmbedding em = PackVector vec"
      using em by (auto simp: fetched_as_def split: sum.splits)
    moreover have "PackVector vec = [] \<longleftrightarrow> vec = []" using length_PackVector [of vec] by (cases vec) auto
    ultimately show ?thesis using em by (simp add: corpus_row_def fetched_as_def row_of_em_def to_msg_def)
  qed
  then have "list_all2 (corpus_row te de emb c) loc ?rows"
    using f by (auto simp: list_all2_conv_all_nth)
  ultimately show ?thesis by blast
qed

text \<open>C1. The evaluation searches what the dataset holds. Ingest a conversation into an empty ledger, with the server answering that
  every message was new, sweep (in any interleaving, with as many items as fit in the waves before the deadline and an embedder that answers the normalised texts of these items), fetch the conversation and let the client build its rows: there is one row for
  every turn and every round of the conversation, in their order, under its own turn and session id, with the normalised
  text, the lexemes and the packed vector of its envelope. Nothing is lost, doubled or mixed up on the way from the
  dataset through blob, ledger, enrichment and stream to the corpus.\<close>

theorem ingest_to_corpus:
  assumes "s3_ok PutObject contents" and "loc = cvItems c @ fst (roundItemsOf c)"
    and "inj_on Hash ((\<lambda>it. Marshal (envelopeOf (cvNum c) it)) ` set loc)"
    and "\<forall>it\<in>set loc. envelope_valid (envelopeOf (cvNum c) it)" and "length ts = length loc"
    and "ps_db pg = empty_ledger"
    and "UploadMemories PutObject bucket None (map2 Msg ts (conv_msgs dataset c)) pg s = (Inr ack, pg', s')"
    and "ackDeduped ack = 0"
    and "reads (contents s') GetObject" and "ps_fates pg' = []"
    and "batches_take took T" and "W * (1000000 + 8 * T) < 50000000" and "length loc \<le> W * 1024"
    and "\<forall>it\<in>set loc. \<exists>vec. emb (mtText (item_of te de 0 (envelopeOf (cvNum c) it))) = Inr vec"
    and "0 < sint v" and "ucast v = scVersion cfg" and "scVersion cfg \<noteq> 0"
  shows "\<exists>d' msgs rows.
    EnrichmentSweepWorkflow 51 dv (pg_workflow sch took dv (server_activities te de Answered pick GetObject version) render (\<lambda>_ _ _ _. emb))
      (soArgs (schedule_options dv cfg)) pg' = Some (Drained, d') \<and>
    FetchAllMemories (\<lambda>_. None) (cvNum c) v d' = ((Inr (), msgs), d') \<and>
    fetchCorpus c (fst (roundItemsOf c)) (Inr (map EmMsg msgs)) = Inr (rows, length loc) \<and>
    list_all2 (corpus_row te de emb c) loc rows"
proof -
  let ?B = "(\<lambda>it. Marshal (envelopeOf (cvNum c) it)) ` set loc" and ?e = "envelopeOf (cvNum c)"
  let ?rs = "map2 Msg ts (conv_msgs dataset c)"
  have msgs: "conv_msgs dataset c = map (ingest_msg dataset c) loc" by (simp add: conv_msgs_def assms(2))
  have "msgs_in ?B ?rs" using assms(4) by (auto simp: msgs_in_def msgs ingest_envelope dest!: set_zip_rightD)
  moreover have "rows_hold ?B (contents s) (ps_db pg)" by (simp add: rows_hold_def assms(6) empty_ledger_def)
  ultimately have rows: "rows_hold ?B (contents s') (ps_db pg')" using upload_rows_hold [OF assms(1,3)] assms(7) by blast
  have ok: "ledger_ok (ps_db pg')" and none: "events (ps_db pg') = []"
    using upload_ledger [OF assms(1,7)] assms(6) by (simp_all add: empty_ledger_ok) (simp add: empty_ledger_def)
  have fresh: "\<forall>e\<in>set (events (ps_db pg')). ev_version e = scVersion cfg \<longrightarrow> ev_status e = Failed" by (simp add: none)
  have waited: "failures_waited server_store (scVersion cfg) (ps_now pg') (ps_db pg')"
    by (rule fresh_waited) (simp_all add: none server_store_def)
  have "list_all2 (row_for bucket) ?rs (memories (ps_db pg'))"
    using UploadMemories_new [OF assms(7,8)] by (simp add: assms(6) empty_ledger_def)
  then have ing: "list_all2 (ingested c) loc (memories (ps_db pg'))"
    using assms(5) row_for_ingested unfolding msgs list_all2_conv_all_nth by fastforce
  have size: "length (memories (ps_db pg')) \<le> W * 1024" using list_all2_lengthD [OF ing] assms(13) by simp
  have emb: "embeds_texts te de emb ?B" unfolding embeds_texts_def using assms(4,14) marshal_inj by blast
  obtain env d' ems where
    run: "EnrichmentSweepWorkflow 51 dv (pg_workflow sch took dv (server_activities te de Answered pick GetObject version) render (\<lambda>_ _ _ _. emb))
      (soArgs (schedule_options dv cfg)) pg' = Some (Drained, d')"
    and f: "FetchAllMemories (\<lambda>_. None) (cvNum c) v d' = ((Inr (), map (to_msg v) ems), d')"
    and ids: "map emMemoryID ems = map mr_id (filter (\<lambda>m. mr_conversation_id m = FormatInt (sint (cvNum c))) (memories (ps_db pg')))"
    and ems: "\<forall>em\<in>set ems. (\<exists>m\<in>set (memories (ps_db pg')). mr_id m = emMemoryID em \<and> mr_content_hash m = emContentHash em) \<and>
      (\<exists>vec. emb (mtText (item_of te de (emMemoryID em) (env (emMemoryID em)))) = Inr vec \<and>
        emEmbedding em = PackVector vec \<and>
        emNormalizedText em = mtText (item_of te de (emMemoryID em) (env (emMemoryID em))) \<and>
        emLexemes em = mtLexemes (item_of te de (emMemoryID em) (env (emMemoryID em))))"
    and key: "\<forall>i. has_memory (ps_db pg') i \<longrightarrow> (\<exists>r\<in>set (memories (ps_db pg')). mr_id r = i \<and> holds ?B (contents s') r (env i))"
    using served_sweep [OF rows assms(9) ok waited fresh assms(10-12) size emb assms(15-17), of dv sch pick version render "cvNum c"] by blast
  have "\<forall>m\<in>set (memories (ps_db pg')). mr_conversation_id m = FormatInt (sint (cvNum c))"
    using ing by (auto simp: list_all2_conv_all_nth in_set_conv_nth ingested_def)
  then have ids': "map emMemoryID ems = map mr_id (memories (ps_db pg'))" using ids by (simp add: filter_True)
  have "list_all2 (fetched_as te de emb c) loc ems"
    by (rule fetched_items [OF ok ing ids' ems key assms(3) _ assms(4)]) simp
  from fetched_corpus [OF this assms(2-4)] run f show ?thesis by blast
qed

definition demo_conv :: conversation where
  "demo_conv = \<lparr>cvNum = 7, cvName = ''demo'', cvItems = take 1 demo_items, cvQuestions = []\<rparr>"

lemma demo_ingest:
  "\<exists>pg' s'. UploadMemories demo_put ''b'' None [Msg 5 m] demo_pg Map.empty = (Inr \<lparr>ackAccepted = 1, ackDeduped = 0\<rparr>, pg', s') \<and>
     ps_fates pg' = []"
  by (simp add: UploadMemories_def upload_put_def upload_insert_def demo_put_def demo_pg_def pg_statement_def Let_def
      InsertMemory_def empty_ledger_def)

theorem ingest_to_corpus_witness:
  "\<exists>pg' s' d' msgs rows.
     UploadMemories demo_put ''b'' None (map2 Msg [5] (conv_msgs ''d'' demo_conv)) demo_pg Map.empty =
       (Inr \<lparr>ackAccepted = 1, ackDeduped = 0\<rparr>, pg', s') \<and>
     FetchAllMemories (\<lambda>_. None) 7 1 d' = ((Inr (), msgs), d') \<and>
     fetchCorpus demo_conv [] (Inr (map EmMsg msgs)) = Inr (rows, 1) \<and>
     list_all2 (corpus_row plain_text no_dates document_embedder demo_conv) (cvItems demo_conv) rows"
proof -
  let ?it = "hd demo_items" and ?loc = "cvItems demo_conv @ fst (roundItemsOf demo_conv)"
  have r: "fst (roundItemsOf demo_conv) = []" by code_simp
  have l: "cvItems demo_conv = [?it]" "cvNum demo_conv = 7" by (simp_all add: demo_conv_def demo_items_def)
  have msgs: "map2 Msg [5] (conv_msgs ''d'' demo_conv) = [Msg 5 (ingest_msg ''d'' demo_conv ?it)]"
    by (simp add: conv_msgs_def r l)
  obtain pg' s' where u: "UploadMemories demo_put ''b'' None (map2 Msg [5] (conv_msgs ''d'' demo_conv)) demo_pg Map.empty =
      (Inr \<lparr>ackAccepted = 1, ackDeduped = 0\<rparr>, pg', s')" "ps_fates pg' = []"
    using demo_ingest unfolding msgs by blast
  let ?get = "\<lambda>b k. case s' (b, k) of Some x \<Rightarrow> Body x | None \<Rightarrow> GetFailed CtxError"
  have "envelope_valid (envelopeOf 7 (hd demo_items))" by code_simp
  then have v: "\<forall>it\<in>set ?loc. envelope_valid (envelopeOf (cvNum demo_conv) it)" by (simp add: r l)
  have inj: "inj_on Hash ((\<lambda>it. Marshal (envelopeOf (cvNum demo_conv) it)) ` set ?loc)" by (simp add: r l)
  have ts: "length [5 :: instant] = length ?loc" and e: "ps_db demo_pg = empty_ledger" and g: "reads s' ?get"
    and n: "length ?loc \<le> 40 * 1024" and de: "ackDeduped \<lparr>ackAccepted = 1, ackDeduped = 0\<rparr> = 0"
    by (simp_all add: r l demo_pg_def reads_def)
  have ver: "0 < sint (1 :: int32)" "ucast (1 :: int32) = scVersion demo_schedule" "scVersion demo_schedule \<noteq> 0"
    by (simp_all add: demo_schedule_def)
  have "\<not> double_prefixed (mtText (item_of plain_text no_dates 0 (envelopeOf 7 (hd demo_items))))" by code_simp
  then have emb: "\<forall>it\<in>set ?loc. \<exists>vec. document_embedder (mtText (item_of plain_text no_dates 0 (envelopeOf (cvNum demo_conv) it))) = Inr vec"
    using document_embedder_answers by (simp add: r l)
  have T: "batches_take (\<lambda>_ _ _. 1000000) 1000" "40 * (1000000 + 8 * 1000) < (50000000 :: nat)" by (simp_all add: batches_take_def)
  from ingest_to_corpus [where contents = "\<lambda>s. s" and GetObject = ?get and emb = document_embedder,
      OF demo_put_ok refl inj v ts e u(1) de g u(2) T n emb ver, of 1 "\<lambda>_ _ _ n. n" 0 1 "\<lambda>_. []"]
  show ?thesis using u(1) unfolding r l by auto
qed

end
